(* ===== verification/Prelude.thy ===== *)
theory Prelude
  imports Main "HOL-Library.Word" "HOL-Library.Monad_Syntax"
begin

text \<open>
  Vocabulary and automation shared by every component of the development.

  \<^item> Machine integers are words of the width the C type has: \<open>u64\<close> stands for
    \<open>uintptr_t\<close>, \<open>size_t\<close> and for pointers, \<open>u32\<close> and \<open>u16\<close>, \<open>u8\<close> for the fixed
    width types. Addition wraps, as it does in the source.
  \<^item> A C bit-field is a pair (position, width); \<open>bf_get\<close> and \<open>bf_put\<close> are the read and
    the write the compiler generates for it.
  \<^item> \<open>'a option\<close> as the result of an operation stands for abnormal termination: \<open>None\<close>
    is a failed \<open>ASSERT\<close>, a call of \<open>_objc_fatal\<close> or a trap.
  \<^item> A compare-and-swap loop is run against a \<^emph>\<open>schedule\<close>: the list of what the other
    threads do to the same word between a load and the matching conditional store.
\<close>

unbundle bit_operations_syntax

type_synonym u8 = "8 word"
type_synonym u16 = "16 word"
type_synonym u32 = "32 word"
type_synonym u64 = "64 word"

named_theorems bf_simps "reading and writing bit-fields"
named_theorems rt_defs "definitions of the operations of the runtime"

section \<open>Bit-fields\<close>

type_synonym bitfield = "nat \<times> nat"

definition bf_get :: "bitfield \<Rightarrow> 'a::len word \<Rightarrow> 'a word" where
  "bf_get f x = take_bit (snd f) (drop_bit (fst f) x)"

definition bf_put :: "bitfield \<Rightarrow> 'a::len word \<Rightarrow> 'a word \<Rightarrow> 'a word" where
  "bf_put f v x =
     (x AND NOT (push_bit (fst f) (mask (snd f)))) OR push_bit (fst f) (take_bit (snd f) v)"

abbreviation bf_disjoint :: "bitfield \<Rightarrow> bitfield \<Rightarrow> bool" where
  "bf_disjoint f g \<equiv> fst f + snd f \<le> fst g \<or> fst g + snd g \<le> fst f"

lemma bit_bf_get: "bit (bf_get f x) n \<longleftrightarrow> n < snd f \<and> bit x (fst f + n)"
  by (simp add: bf_get_def bit_simps add.commute)

lemma bit_bf_put:
  fixes x v :: "'a::len word"
  shows "bit (bf_put f v x) n \<longleftrightarrow>
    (if fst f \<le> n \<and> n < fst f + snd f then n < LENGTH('a) \<and> bit v (n - fst f) else bit x n)"
  by (cases "n < LENGTH('a)")
     (auto simp add: bf_put_def bit_simps dest: bit_imp_le_length)

lemma bf_get_put_same [bf_simps]:
  fixes x v :: "'a::len word"
  assumes "fst f + snd f \<le> LENGTH('a)"
  shows "bf_get f (bf_put f v x) = take_bit (snd f) v"
  using assms by (intro bit_word_eqI) (auto simp: bit_bf_get bit_bf_put bit_simps)

lemma bf_get_put_other [bf_simps]:
  "bf_disjoint f g \<Longrightarrow> bf_get f (bf_put g v x) = bf_get f x"
  by (intro bit_word_eqI) (auto simp: bit_bf_get bit_bf_put)

lemma bf_put_put_same [bf_simps]: "bf_put f v (bf_put f u x) = bf_put f v x"
  by (intro bit_word_eqI) (auto simp: bit_bf_put)

lemma bf_put_commute:
  "bf_disjoint f g \<Longrightarrow> bf_put f v (bf_put g u x) = bf_put g u (bf_put f v x)"
  by (intro bit_word_eqI) (auto simp: bit_bf_put)

lemma bf_put_get [bf_simps]: "bf_put f (bf_get f x) x = x"
  by (intro bit_word_eqI) (auto simp: bit_bf_put bit_bf_get)

section \<open>Bits and numbers of words\<close>

lemma bit_less_exp:
  fixes x :: "'a::len word"
  assumes "unat x < 2 ^ k" and "bit x n"
  shows "n < k"
proof -
  have "bit (unat x) n" using assms(2) by (simp add: bit_unsigned_iff bit_imp_le_length)
  moreover have "take_bit k (unat x) = unat x" using assms(1) by (simp add: take_bit_nat_eq_self_iff)
  ultimately show ?thesis by (metis bit_take_bit_iff)
qed

lemma bit_mask_numeral:
  fixes c :: "'a::len word"
  assumes "c = mask k" shows "bit c n \<longleftrightarrow> n < min LENGTH('a) k"
  by (simp only: assms bit_mask_iff) (auto simp: possible_bit_def)

lemma word_bit_eq_iff: "(x :: 'a::len word) = y \<longleftrightarrow> (\<forall>n. bit x n = bit y n)"
  by (metis bit_word_eqI)

lemma and_eq_self_iff:
  fixes x m :: "'a::len word"
  shows "x AND m = m \<longleftrightarrow> (\<forall>n. bit m n \<longrightarrow> bit x n)"
  by (auto simp: bit_eq_iff [where 'a = "'a word"] bit_and_iff dest: bit_imp_le_length)

lemma and_eq_0_iff:
  fixes x m :: "'a::len word"
  shows "x AND m = 0 \<longleftrightarrow> (\<forall>n. bit m n \<longrightarrow> \<not> bit x n)"
  by (auto simp: bit_eq_iff [where 'a = "'a word"] bit_simps dest: bit_imp_le_length)

lemma unat_bf_get: "unat (bf_get f x) < 2 ^ snd f"
proof -
  have "take_bit (snd f) (unat (bf_get f x)) = unat (bf_get f x)"
    by (simp add: bf_get_def unsigned_take_bit_eq)
  then show ?thesis by (simp add: take_bit_nat_eq_self_iff)
qed

lemma bf_get_xor: "bf_get f (x XOR y) = bf_get f x XOR bf_get f y"
  by (intro bit_word_eqI) (auto simp: bit_simps bit_bf_get)

lemma bit_unat: "bit (unat (x :: 'a::len word)) n = bit x n"
  by (simp only: bit_unsigned_iff) (simp add: possible_bit_def)

lemma signed_drop_bit_eq_signed_take_bit:
  fixes w :: "'a::len word"
  assumes "k < LENGTH('a)"
  shows "signed_drop_bit k w = signed_take_bit (LENGTH('a) - Suc k) (drop_bit k w)"
proof -
  have e: "k + n = LENGTH('a) - Suc 0" if "LENGTH('a) - Suc k \<le> n" "n < LENGTH('a) - k" for n
    using that assms by linarith
  show ?thesis using assms
    by (auto simp: word_bit_eq_iff bit_signed_drop_bit_iff bit_signed_take_bit_iff bit_drop_bit_eq
        min_def not_le e dest: bit_imp_le_length)
qed

lemma take_bit_small: "unat (x :: u64) < 2 ^ k \<Longrightarrow> take_bit k x = x"
  using bit_less_exp [of x k] by (auto simp: word_bit_eq_iff bit_simps)

lemma unat_less_u64: "unat (x :: u64) < 2 ^ 64"
proof -
  have "unat x < 2 ^ LENGTH(64)" by (rule unsigned_less)
  then show ?thesis by simp
qed

lemma unat_drop_bit: "unat (drop_bit k (x :: 'a::len word)) = unat x div 2 ^ k"
proof -
  have "unat (drop_bit k x) = drop_bit k (unat x)" by (rule bit_eqI) (simp add: bit_unat bit_drop_bit_eq)
  then show ?thesis by (simp add: drop_bit_eq_div)
qed

lemma unat_take_bit: "unat (take_bit k (x :: 'a::len word)) = unat x mod 2 ^ k"
  by (simp only: unsigned_take_bit_eq take_bit_eq_mod [where 'a = nat])

lemma unat_push_bit_1: "k < LENGTH('a) \<Longrightarrow> unat (push_bit k 1 :: 'a::len word) = 2 ^ k"
  by (rule bit_eqI) (auto simp: bit_unat bit_exp_iff possible_bit_def)

end
