(* ===== verification/TaggedPointers.thy ===== *)
theory TaggedPointers
  imports Prelude "HOL-Library.Multiset"
begin

text \<open>
  Tagged pointers (\<^verbatim>\<open>runtime/objc-internal.h\<close>, with the tables set up by
  \<^verbatim>\<open>runtime/objc-runtime-new.mm\<close>). The three encodings the preprocessor selects are the
  three values \<open>tag_split\<close> (arm64), \<open>tag_msb\<close> and \<open>tag_lsb\<close> (64-bit Intel Mac) of the
  record \<open>tag_layout\<close>; the operations take the layout as their first argument and the
  per-process secrets (obfuscator word, permutation of the basic tags) as a record. The
  theorems show that making a tagged pointer and reading its tag and payload back is the
  identity, and that message dispatch finds the class that was registered for the tag.
\<close>

section \<open>Layouts\<close>

record tag_layout =
  SPLIT_TAGGED_POINTERS :: bool
  MSB_TAGGED_POINTERS :: bool
  TAG_MASK :: u64
  TAG_SLOT_MASK :: u64
  TAG_INDEX_SHIFT :: nat
  TAG_SLOT_SHIFT :: nat
  TAG_PAYLOAD_LSHIFT :: nat
  TAG_PAYLOAD_RSHIFT :: nat
  TAG_EXT_MASK :: u64
  TAG_EXT_INDEX_SHIFT :: nat
  TAG_EXT_SLOT_SHIFT :: nat
  TAG_EXT_PAYLOAD_LSHIFT :: nat
  TAG_EXT_PAYLOAD_RSHIFT :: nat

abbreviation (input) TAG_INDEX_MASK :: u64 where "TAG_INDEX_MASK \<equiv> 0x7"
abbreviation (input) TAG_EXT_INDEX_MASK :: u64 where "TAG_EXT_INDEX_MASK \<equiv> 0xff"
abbreviation (input) TAG_EXT_SLOT_MASK :: u64 where "TAG_EXT_SLOT_MASK \<equiv> 0xff"
abbreviation (input) TAG_Last60BitPayload :: u64 where "TAG_Last60BitPayload \<equiv> 6"
abbreviation (input) TAG_RESERVED_7 :: u64 where "TAG_RESERVED_7 \<equiv> 7"
abbreviation (input) TAG_First52BitPayload :: u64 where "TAG_First52BitPayload \<equiv> 8"
abbreviation (input) TAG_Last52BitPayload :: u64 where "TAG_Last52BitPayload \<equiv> 263"
abbreviation (input) TAG_FirstUnobfuscatedSplitTag :: u64 where "TAG_FirstUnobfuscatedSplitTag \<equiv> 136"

definition tag_split :: tag_layout where
  "tag_split = \<lparr>SPLIT_TAGGED_POINTERS = True, MSB_TAGGED_POINTERS = True,
     TAG_MASK = 0x8000000000000000, TAG_SLOT_MASK = 0x7,
     TAG_INDEX_SHIFT = 0, TAG_SLOT_SHIFT = 0,
     TAG_PAYLOAD_LSHIFT = 1, TAG_PAYLOAD_RSHIFT = 4,
     TAG_EXT_MASK = 0x8000000000000007,
     TAG_EXT_INDEX_SHIFT = 55, TAG_EXT_SLOT_SHIFT = 55,
     TAG_EXT_PAYLOAD_LSHIFT = 9, TAG_EXT_PAYLOAD_RSHIFT = 12\<rparr>"

definition tag_msb :: tag_layout where
  "tag_msb = \<lparr>SPLIT_TAGGED_POINTERS = False, MSB_TAGGED_POINTERS = True,
     TAG_MASK = 0x8000000000000000, TAG_SLOT_MASK = 0xf,
     TAG_INDEX_SHIFT = 60, TAG_SLOT_SHIFT = 60,
     TAG_PAYLOAD_LSHIFT = 4, TAG_PAYLOAD_RSHIFT = 4,
     TAG_EXT_MASK = 0xf000000000000000,
     TAG_EXT_INDEX_SHIFT = 52, TAG_EXT_SLOT_SHIFT = 52,
     TAG_EXT_PAYLOAD_LSHIFT = 12, TAG_EXT_PAYLOAD_RSHIFT = 12\<rparr>"

definition tag_lsb :: tag_layout where
  "tag_lsb = \<lparr>SPLIT_TAGGED_POINTERS = False, MSB_TAGGED_POINTERS = False,
     TAG_MASK = 1, TAG_SLOT_MASK = 0xf,
     TAG_INDEX_SHIFT = 1, TAG_SLOT_SHIFT = 0,
     TAG_PAYLOAD_LSHIFT = 0, TAG_PAYLOAD_RSHIFT = 4,
     TAG_EXT_MASK = 0xf,
     TAG_EXT_INDEX_SHIFT = 4, TAG_EXT_SLOT_SHIFT = 4,
     TAG_EXT_PAYLOAD_LSHIFT = 0, TAG_EXT_PAYLOAD_RSHIFT = 12\<rparr>"

definition TAG_NO_OBFUSCATION_MASK :: "tag_layout \<Rightarrow> u64" where
  "TAG_NO_OBFUSCATION_MASK L = push_bit 62 1 OR TAG_EXT_MASK L"

definition TAG_CONSTANT_POINTER_MASK :: "tag_layout \<Rightarrow> u64" where
  "TAG_CONSTANT_POINTER_MASK L =
     NOT (TAG_EXT_MASK L OR push_bit (TAG_EXT_SLOT_SHIFT L) TAG_EXT_SLOT_MASK)"

section \<open>Secrets of the process\<close>

record tag_secrets =
  obfuscator :: u64
  tag60_permutations :: "u64 list"

definition initial_secrets :: tag_secrets where
  "initial_secrets = \<lparr>obfuscator = 0, tag60_permutations = [0, 1, 2, 3, 4, 5, 6, 7]\<rparr>"

definition swap_at :: "nat \<Rightarrow> nat \<Rightarrow> 'a list \<Rightarrow> 'a list" where
  "swap_at i j xs = xs[i := xs ! j, j := xs ! i]"

text \<open>
  The shuffle loop of \<open>initializeTaggedPointerObfuscator\<close>: \<open>i\<close> runs from 6 down to 0 and
  swaps entry \<open>i\<close> with entry \<open>arc4random_uniform (i + 1)\<close>. The random source is the
  argument \<open>rnd\<close>; the loop variable is passed as \<open>i + 1\<close>.
\<close>

primrec shuffle_tags :: "(nat \<Rightarrow> nat) \<Rightarrow> nat \<Rightarrow> u64 list \<Rightarrow> u64 list" where
  "shuffle_tags rnd 0 xs = xs"
| "shuffle_tags rnd (Suc i) xs = shuffle_tags rnd i (swap_at i (rnd (Suc i)) xs)"

definition initializeTaggedPointerObfuscator ::
  "tag_layout \<Rightarrow> bool \<Rightarrow> u64 \<Rightarrow> (nat \<Rightarrow> nat) \<Rightarrow> tag_secrets \<Rightarrow> tag_secrets" where
  "initializeTaggedPointerObfuscator L disable random rnd S =
     (if \<not> disable then
        (let ob = random AND NOT (TAG_MASK L) in
         if SPLIT_TAGGED_POINTERS L then
           S\<lparr>obfuscator := ob AND NOT (TAG_EXT_MASK L OR TAG_NO_OBFUSCATION_MASK L),
             tag60_permutations := shuffle_tags rnd 7 (tag60_permutations S)\<rparr>
         else S\<lparr>obfuscator := ob\<rparr>)
      else S\<lparr>obfuscator := 0\<rparr>)"

section \<open>Encoding and decoding\<close>

definition basicTagToObfuscatedTag :: "tag_secrets \<Rightarrow> u64 \<Rightarrow> u64" where
  "basicTagToObfuscatedTag S tag = tag60_permutations S ! unat tag"

definition obfuscatedTagToBasicTag :: "tag_secrets \<Rightarrow> u64 \<Rightarrow> u64" where
  "obfuscatedTagToBasicTag S tag =
     (case find (\<lambda>i. tag60_permutations S ! i = tag) [0..<7] of
        Some i \<Rightarrow> of_nat i | None \<Rightarrow> 7)"

definition encodeTaggedPointer_withObfuscator :: "tag_layout \<Rightarrow> tag_secrets \<Rightarrow> u64 \<Rightarrow> u64" where
  "encodeTaggedPointer_withObfuscator L S ptr =
     (let value = obfuscator S XOR ptr in
      if SPLIT_TAGGED_POINTERS L then
        if value AND TAG_NO_OBFUSCATION_MASK L = TAG_NO_OBFUSCATION_MASK L then ptr
        else
          let basicTag = drop_bit (TAG_INDEX_SHIFT L) value AND TAG_INDEX_MASK;
              permutedTag = basicTagToObfuscatedTag S basicTag in
          (value AND NOT (push_bit (TAG_INDEX_SHIFT L) TAG_INDEX_MASK))
            OR push_bit (TAG_INDEX_SHIFT L) permutedTag
      else value)"

definition decodeTaggedPointer_noPermute_withObfuscator ::
  "tag_layout \<Rightarrow> tag_secrets \<Rightarrow> u64 \<Rightarrow> u64" where
  "decodeTaggedPointer_noPermute_withObfuscator L S value =
     (if SPLIT_TAGGED_POINTERS L \<and>
         value AND TAG_NO_OBFUSCATION_MASK L = TAG_NO_OBFUSCATION_MASK L
      then value else value XOR obfuscator S)"

definition decodeTaggedPointer_withObfuscator :: "tag_layout \<Rightarrow> tag_secrets \<Rightarrow> u64 \<Rightarrow> u64" where
  "decodeTaggedPointer_withObfuscator L S ptr =
     (let value = decodeTaggedPointer_noPermute_withObfuscator L S ptr in
      if SPLIT_TAGGED_POINTERS L then
        let basicTag = drop_bit (TAG_INDEX_SHIFT L) value AND TAG_INDEX_MASK in
        (value AND NOT (push_bit (TAG_INDEX_SHIFT L) TAG_INDEX_MASK))
          OR push_bit (TAG_INDEX_SHIFT L) (obfuscatedTagToBasicTag S basicTag)
      else value)"

definition makeTaggedPointer_withObfuscator ::
  "tag_layout \<Rightarrow> tag_secrets \<Rightarrow> u64 \<Rightarrow> u64 \<Rightarrow> u64" where
  "makeTaggedPointer_withObfuscator L S tag value =
     (if tag \<le> TAG_Last60BitPayload then
        encodeTaggedPointer_withObfuscator L S
          (TAG_MASK L OR push_bit (TAG_INDEX_SHIFT L) tag OR
           drop_bit (TAG_PAYLOAD_LSHIFT L) (push_bit (TAG_PAYLOAD_RSHIFT L) value))
      else
        encodeTaggedPointer_withObfuscator L S
          (TAG_EXT_MASK L OR push_bit (TAG_EXT_INDEX_SHIFT L) (tag - TAG_First52BitPayload) OR
           drop_bit (TAG_EXT_PAYLOAD_LSHIFT L) (push_bit (TAG_EXT_PAYLOAD_RSHIFT L) value)))"

definition isTaggedPointer :: "tag_layout \<Rightarrow> u64 \<Rightarrow> bool" where
  "isTaggedPointer L ptr \<longleftrightarrow> ptr AND TAG_MASK L = TAG_MASK L"

definition isTaggedPointerOrNil :: "tag_layout \<Rightarrow> u64 \<Rightarrow> bool" where
  "isTaggedPointerOrNil L ptr \<longleftrightarrow> ptr = 0 \<or> ptr AND TAG_MASK L = TAG_MASK L"

definition getTaggedPointerTag_withObfuscator :: "tag_layout \<Rightarrow> tag_secrets \<Rightarrow> u64 \<Rightarrow> u64" where
  "getTaggedPointerTag_withObfuscator L S ptr =
     (let value = decodeTaggedPointer_withObfuscator L S ptr;
          basicTag = drop_bit (TAG_INDEX_SHIFT L) value AND TAG_INDEX_MASK;
          extTag = drop_bit (TAG_EXT_INDEX_SHIFT L) value AND TAG_EXT_INDEX_MASK in
      if basicTag = TAG_INDEX_MASK then extTag + TAG_First52BitPayload else basicTag)"

definition getTaggedPointerValue_withObfuscator :: "tag_layout \<Rightarrow> tag_secrets \<Rightarrow> u64 \<Rightarrow> u64" where
  "getTaggedPointerValue_withObfuscator L S ptr =
     (let value = decodeTaggedPointer_noPermute_withObfuscator L S ptr;
          basicTag = drop_bit (TAG_INDEX_SHIFT L) value AND TAG_INDEX_MASK in
      if basicTag = TAG_INDEX_MASK then
        drop_bit (TAG_EXT_PAYLOAD_RSHIFT L) (push_bit (TAG_EXT_PAYLOAD_LSHIFT L) value)
      else drop_bit (TAG_PAYLOAD_RSHIFT L) (push_bit (TAG_PAYLOAD_LSHIFT L) value))"

definition getTaggedPointerSignedValue_withObfuscator ::
  "tag_layout \<Rightarrow> tag_secrets \<Rightarrow> u64 \<Rightarrow> u64" where
  "getTaggedPointerSignedValue_withObfuscator L S ptr =
     (let value = decodeTaggedPointer_noPermute_withObfuscator L S ptr;
          basicTag = drop_bit (TAG_INDEX_SHIFT L) value AND TAG_INDEX_MASK in
      if basicTag = TAG_INDEX_MASK then
        signed_drop_bit (TAG_EXT_PAYLOAD_RSHIFT L) (push_bit (TAG_EXT_PAYLOAD_LSHIFT L) value)
      else signed_drop_bit (TAG_PAYLOAD_RSHIFT L) (push_bit (TAG_PAYLOAD_LSHIFT L) value))"

definition getTaggedPointerRawPointerValue :: "tag_layout \<Rightarrow> u64 \<Rightarrow> u64" where
  "getTaggedPointerRawPointerValue L ptr = ptr AND TAG_CONSTANT_POINTER_MASK L"

section \<open>Class tables\<close>

record tag_state =
  taggedpointer_mask :: u64
  taggedpointer_slot_shift :: nat
  taggedpointer_slot_mask :: u64
  taggedpointer_payload_lshift :: nat
  taggedpointer_payload_rshift :: nat
  taggedpointer_ext_mask :: u64
  taggedpointer_ext_slot_shift :: nat
  taggedpointer_ext_slot_mask :: u64
  taggedpointer_ext_payload_lshift :: nat
  taggedpointer_ext_payload_rshift :: nat
  objc_tag_classes :: "u64 list"
  objc_tag_ext_classes :: "u64 list"

definition tag_slot_count :: "tag_layout \<Rightarrow> nat" where
  "tag_slot_count L = (if SPLIT_TAGGED_POINTERS L then 8 else 16)"

definition initial_tag_state :: "tag_layout \<Rightarrow> tag_state" where
  "initial_tag_state L =
     \<lparr>taggedpointer_mask = TAG_MASK L,
      taggedpointer_slot_shift = TAG_SLOT_SHIFT L, taggedpointer_slot_mask = TAG_SLOT_MASK L,
      taggedpointer_payload_lshift = TAG_PAYLOAD_LSHIFT L,
      taggedpointer_payload_rshift = TAG_PAYLOAD_RSHIFT L,
      taggedpointer_ext_mask = TAG_EXT_MASK L,
      taggedpointer_ext_slot_shift = TAG_EXT_SLOT_SHIFT L,
      taggedpointer_ext_slot_mask = TAG_EXT_SLOT_MASK,
      taggedpointer_ext_payload_lshift = TAG_EXT_PAYLOAD_LSHIFT L,
      taggedpointer_ext_payload_rshift = TAG_EXT_PAYLOAD_RSHIFT L,
      objc_tag_classes = replicate (tag_slot_count L) 0, objc_tag_ext_classes = replicate 256 0\<rparr>"

definition disableTaggedPointers :: "tag_state \<Rightarrow> tag_state" where
  "disableTaggedPointers T =
     T\<lparr>taggedpointer_mask := 0, taggedpointer_slot_shift := 0, taggedpointer_slot_mask := 0,
       taggedpointer_payload_lshift := 0, taggedpointer_payload_rshift := 0,
       taggedpointer_ext_mask := 0, taggedpointer_ext_slot_shift := 0,
       taggedpointer_ext_slot_mask := 0, taggedpointer_ext_payload_lshift := 0,
       taggedpointer_ext_payload_rshift := 0\<rparr>"

datatype class_slot = Basic_Slot nat | Ext_Slot nat

fun read_slot :: "tag_state \<Rightarrow> class_slot \<Rightarrow> u64" where
  "read_slot T (Basic_Slot i) = objc_tag_classes T ! i"
| "read_slot T (Ext_Slot i) = objc_tag_ext_classes T ! i"

fun write_slot :: "class_slot \<Rightarrow> u64 \<Rightarrow> tag_state \<Rightarrow> tag_state" where
  "write_slot (Basic_Slot i) cls T = T\<lparr>objc_tag_classes := (objc_tag_classes T)[i := cls]\<rparr>"
| "write_slot (Ext_Slot i) cls T = T\<lparr>objc_tag_ext_classes := (objc_tag_ext_classes T)[i := cls]\<rparr>"

definition classSlotForBasicTagIndex :: "tag_layout \<Rightarrow> tag_secrets \<Rightarrow> u64 \<Rightarrow> class_slot" where
  "classSlotForBasicTagIndex L S tag =
     (if SPLIT_TAGGED_POINTERS L then Basic_Slot (unat (basicTagToObfuscatedTag S tag))
      else
        let tagObfuscator = drop_bit (TAG_INDEX_SHIFT L) (obfuscator S) AND TAG_INDEX_MASK;
            obfuscatedTag = tag XOR tagObfuscator in
        if MSB_TAGGED_POINTERS L then Basic_Slot (unat (0x8 OR obfuscatedTag))
        else Basic_Slot (unat (push_bit 1 obfuscatedTag OR 1)))"

definition classSlotForTagIndex :: "tag_layout \<Rightarrow> tag_secrets \<Rightarrow> u64 \<Rightarrow> class_slot option" where
  "classSlotForTagIndex L S tag =
     (if tag \<le> TAG_Last60BitPayload then Some (classSlotForBasicTagIndex L S tag)
      else if TAG_First52BitPayload \<le> tag \<and> tag \<le> TAG_Last52BitPayload then
        let index = tag - TAG_First52BitPayload in
        if SPLIT_TAGGED_POINTERS L \<and> TAG_FirstUnobfuscatedSplitTag \<le> tag then Some (Ext_Slot (unat index))
        else
          let tagObfuscator = drop_bit (TAG_EXT_INDEX_SHIFT L) (obfuscator S) AND TAG_EXT_INDEX_MASK in
          Some (Ext_Slot (unat (index XOR tagObfuscator)))
      else None)"

definition registerTaggedPointerClass ::
  "tag_layout \<Rightarrow> tag_secrets \<Rightarrow> u64 \<Rightarrow> tag_state \<Rightarrow> u64 \<Rightarrow> u64 \<Rightarrow> tag_state option" where
  "registerTaggedPointerClass L S unrecognized T tag cls =
     (if taggedpointer_mask T = 0 then None
      else case classSlotForTagIndex L S tag of
        None \<Rightarrow> None
      | Some slot \<Rightarrow>
          let oldCls = read_slot T slot in
          if cls \<noteq> 0 \<and> oldCls \<noteq> 0 \<and> cls \<noteq> oldCls then None
          else
            let T' = write_slot slot cls T in
            if tag > TAG_Last60BitPayload then
              let extSlot = classSlotForBasicTagIndex L S TAG_RESERVED_7 in
              if read_slot T' extSlot = 0 then Some (write_slot extSlot unrecognized T') else Some T'
            else Some T')"

definition getClassForTag :: "tag_layout \<Rightarrow> tag_secrets \<Rightarrow> tag_state \<Rightarrow> u64 \<Rightarrow> u64" where
  "getClassForTag L S T tag =
     (case classSlotForTagIndex L S tag of Some slot \<Rightarrow> read_slot T slot | None \<Rightarrow> 0)"

definition getTaggedIsa :: "tag_layout \<Rightarrow> u64 \<Rightarrow> tag_state \<Rightarrow> u64 \<Rightarrow> u64" where
  "getTaggedIsa L unrecognized T ptr =
     (let slot = drop_bit (TAG_SLOT_SHIFT L) ptr AND TAG_SLOT_MASK L;
          cls = objc_tag_classes T ! unat slot in
      if cls = unrecognized then
        let slot = drop_bit (TAG_EXT_SLOT_SHIFT L) ptr AND TAG_EXT_SLOT_MASK in
        objc_tag_ext_classes T ! unat slot
      else cls)"

definition isExtTaggedPointer :: "tag_layout \<Rightarrow> tag_secrets \<Rightarrow> u64 \<Rightarrow> bool" where
  "isExtTaggedPointer L S ptr \<longleftrightarrow>
     decodeTaggedPointer_withObfuscator L S ptr AND TAG_EXT_MASK L = TAG_EXT_MASK L"

definition isBasicTaggedPointer :: "tag_layout \<Rightarrow> tag_secrets \<Rightarrow> u64 \<Rightarrow> bool" where
  "isBasicTaggedPointer L S ptr \<longleftrightarrow> isTaggedPointer L ptr \<and> \<not> isExtTaggedPointer L S ptr"

section \<open>Well-formed secrets, tables and payloads\<close>

definition wf_perm :: "u64 list \<Rightarrow> bool" where
  "wf_perm xs \<longleftrightarrow> mset xs = mset [0, 1, 2, 3, 4, 5, 6, 7] \<and> xs ! 7 = 7"

definition wf_secrets :: "tag_layout \<Rightarrow> tag_secrets \<Rightarrow> bool" where
  "wf_secrets L S \<longleftrightarrow> obfuscator S AND TAG_MASK L = 0 \<and>
     (SPLIT_TAGGED_POINTERS L \<longrightarrow>
        obfuscator S AND TAG_NO_OBFUSCATION_MASK L = 0 \<and> wf_perm (tag60_permutations S))"

definition tag_fits :: "u64 \<Rightarrow> u64 \<Rightarrow> bool" where
  "tag_fits tag value \<longleftrightarrow> tag \<le> 6 \<and> unat value < 2 ^ 60 \<or>
     8 \<le> tag \<and> tag \<le> 263 \<and> unat value < 2 ^ 52"

definition raw_tagged :: "tag_layout \<Rightarrow> u64 \<Rightarrow> u64 \<Rightarrow> u64" where
  "raw_tagged L tag value =
     (if tag \<le> TAG_Last60BitPayload then
        TAG_MASK L OR push_bit (TAG_INDEX_SHIFT L) tag OR
          drop_bit (TAG_PAYLOAD_LSHIFT L) (push_bit (TAG_PAYLOAD_RSHIFT L) value)
      else
        TAG_EXT_MASK L OR push_bit (TAG_EXT_INDEX_SHIFT L) (tag - TAG_First52BitPayload) OR
          drop_bit (TAG_EXT_PAYLOAD_LSHIFT L) (push_bit (TAG_EXT_PAYLOAD_RSHIFT L) value))"

definition wf_tag_state :: "tag_layout \<Rightarrow> tag_secrets \<Rightarrow> u64 \<Rightarrow> tag_state \<Rightarrow> bool" where
  "wf_tag_state L S unrecognized T \<longleftrightarrow>
     length (objc_tag_classes T) = tag_slot_count L \<and> length (objc_tag_ext_classes T) = 256 \<and>
     unrecognized \<noteq> 0 \<and>
     read_slot T (classSlotForBasicTagIndex L S TAG_RESERVED_7) \<in> {0, unrecognized} \<and>
     (\<forall>tag\<in>set [0..<7]. read_slot T (classSlotForBasicTagIndex L S (of_nat tag)) \<noteq> unrecognized)"

fun slot_ok :: "tag_layout \<Rightarrow> class_slot \<Rightarrow> bool" where
  "slot_ok L (Basic_Slot i) \<longleftrightarrow> i < tag_slot_count L"
| "slot_ok L (Ext_Slot i) \<longleftrightarrow> i < 256"

section \<open>Lemmas\<close>

named_theorems tag_layouts

lemma bit_tag_masks:
  "bit (0x8000000000000000 :: u64) n \<longleftrightarrow> n = 63"
  "bit (0xf000000000000000 :: u64) n \<longleftrightarrow> 60 \<le> n \<and> n < 64"
  "bit (0x8000000000000007 :: u64) n \<longleftrightarrow> n < 3 \<or> n = 63"
  "bit (0x7 :: u64) n \<longleftrightarrow> n < 3"
  "bit (0xf :: u64) n \<longleftrightarrow> n < 4"
  "bit (0xff :: u64) n \<longleftrightarrow> n < 8"
  "bit (TAG_NO_OBFUSCATION_MASK tag_split) n \<longleftrightarrow> n < 3 \<or> n = 62 \<or> n = 63"
proof -
  have e: "(0x8000000000000000 :: u64) = 2 ^ 63" by simp
  show "bit (0x8000000000000000 :: u64) n \<longleftrightarrow> n = 63"
    by (simp only: e bit_exp_iff) (auto simp: possible_bit_def)
  have e'': "(0xf000000000000000 :: u64) = push_bit 60 (mask 4)" by (simp add: mask_numeral)
  show "bit (0xf000000000000000 :: u64) n \<longleftrightarrow> 60 \<le> n \<and> n < 64"
    by (simp only: e'' bit_push_bit_iff bit_mask_iff) (auto simp: possible_bit_def)
  have e': "(0x8000000000000007 :: u64) = 2 ^ 63 OR mask 3" by (simp add: mask_numeral)
  show x: "bit (0x8000000000000007 :: u64) n \<longleftrightarrow> n < 3 \<or> n = 63"
    by (simp only: e' bit_or_iff bit_exp_iff bit_mask_iff) (auto simp: possible_bit_def)
  show "bit (TAG_NO_OBFUSCATION_MASK tag_split) n \<longleftrightarrow> n < 3 \<or> n = 62 \<or> n = 63"
    by (simp only: TAG_NO_OBFUSCATION_MASK_def tag_split_def tag_layout.simps bit_or_iff x bit_push_bit_iff)
       (auto simp: possible_bit_def bit_simps)
  show "bit (0x7 :: u64) n \<longleftrightarrow> n < 3" by (subst bit_mask_numeral [where k = 3]) (simp_all add: mask_numeral)
  show "bit (0xf :: u64) n \<longleftrightarrow> n < 4" by (subst bit_mask_numeral [where k = 4]) (simp_all add: mask_numeral)
  show "bit (0xff :: u64) n \<longleftrightarrow> n < 8" by (subst bit_mask_numeral [where k = 8]) (simp_all add: mask_numeral)
qed

lemma wf_permD:
  assumes "wf_perm xs"
  shows "length xs = 8" "distinct xs" "set xs = {0, 1, 2, 3, 4, 5, 6, 7}" "xs ! 7 = 7"
proof -
  have m: "mset xs = mset [0, 1, 2, 3, 4, 5, 6, 7 :: u64]" and 7: "xs ! 7 = 7"
    using assms by (simp_all add: wf_perm_def)
  show "length xs = 8" using mset_eq_length [OF m] by simp
  show "set xs = {0, 1, 2, 3, 4, 5, 6, 7}" using mset_eq_setD [OF m] by auto
  show "distinct xs" using mset_eq_imp_distinct_iff [OF m] by simp
  show "xs ! 7 = 7" by (rule 7)
qed

lemma mset_swap_at [simp]:
  "i < length xs \<Longrightarrow> j < length xs \<Longrightarrow> mset (swap_at i j xs) = mset xs"
  by (simp add: swap_at_def mset_swap)

lemma length_swap_at [simp]: "length (swap_at i j xs) = length xs"
  by (simp add: swap_at_def)

lemma shuffle_tags_perm:
  assumes "\<forall>k\<le>n. 0 < k \<longrightarrow> rnd k < k" and "n \<le> length xs"
  shows "mset (shuffle_tags rnd n xs) = mset xs \<and> (\<forall>j\<ge>n. shuffle_tags rnd n xs ! j = xs ! j)"
  using assms
proof (induction n arbitrary: xs)
  case (Suc i)
  have r: "rnd (Suc i) < Suc i" using Suc.prems(1) by blast
  moreover have "\<forall>j\<ge>Suc i. swap_at i (rnd (Suc i)) xs ! j = xs ! j"
    using r by (simp add: swap_at_def)
  moreover have "mset (swap_at i (rnd (Suc i)) xs) = mset xs"
    using r Suc.prems(2) by simp
  ultimately show ?case using Suc.IH [of "swap_at i (rnd (Suc i)) xs"] Suc.prems by simp
qed simp

lemma initialize_wf_secrets:
  assumes "L \<in> {tag_split, tag_msb, tag_lsb}" and "\<forall>k\<le>7. 0 < k \<longrightarrow> rnd k < k"
  shows "wf_secrets L (initializeTaggedPointerObfuscator L disable random rnd initial_secrets)"
proof -
  have "wf_perm [0, 1, 2, 3, 4, 5, 6, 7]" by (simp add: wf_perm_def)
  moreover have "wf_perm (shuffle_tags rnd 7 [0, 1, 2, 3, 4, 5, 6, 7])"
    using shuffle_tags_perm [of 7 rnd "[0, 1, 2, 3, 4, 5, 6, 7]"] assms(2) by (simp add: wf_perm_def)
  ultimately show ?thesis
    by (auto simp: wf_secrets_def initializeTaggedPointerObfuscator_def initial_secrets_def Let_def
        bit_eq_iff bit_simps TAG_NO_OBFUSCATION_MASK_def)
qed

lemma and_index_mask: "x AND 0x7 = (bf_get (0, 3) x :: u64)"
  by (intro bit_word_eqI) (auto simp: bit_simps bit_bf_get bit_tag_masks simp del: bit_numeral_word_iff)

lemma put_index_mask:
  "unat y < 8 \<Longrightarrow> (x AND NOT 0x7) OR y = (bf_put (0, 3) y x :: u64)"
  using bit_less_exp [of y 3]
  by (intro bit_word_eqI)
     (auto simp: bit_simps bit_bf_put bit_tag_masks simp del: bit_numeral_word_iff)

lemma and_no_obfuscation:
  "x AND TAG_NO_OBFUSCATION_MASK tag_split = TAG_NO_OBFUSCATION_MASK tag_split \<longleftrightarrow>
   bit x 63 \<and> bit x 62 \<and> bf_get (0, 3) x = 7"
proof -
  have "bf_get (0, 3) x = 7 \<longleftrightarrow> (\<forall>n<3. bit x n)"
    by (auto simp: word_bit_eq_iff bit_bf_get bit_tag_masks simp del: bit_numeral_word_iff)
  then show ?thesis unfolding and_eq_self_iff bit_tag_masks by auto
qed

lemma permuted_tag:
  assumes "wf_perm (tag60_permutations S)" and "unat t < 8"
  shows "unat (basicTagToObfuscatedTag S t) < 8"
    and "obfuscatedTagToBasicTag S (basicTagToObfuscatedTag S t) = t"
    and "basicTagToObfuscatedTag S t = 7 \<longleftrightarrow> t = 7"
proof -
  note w = wf_permD [OF assms(1)]
  let ?xs = "tag60_permutations S"
  have "?xs ! unat t \<in> set ?xs" using assms(2) w(1) by simp
  then show "unat (basicTagToObfuscatedTag S t) < 8"
    unfolding w(3) by (auto simp: basicTagToObfuscatedTag_def)
  have inj: "?xs ! i = ?xs ! j \<longleftrightarrow> i = j" if "i < 8" "j < 8" for i j
    using w(1,2) that by (simp add: nth_eq_iff_index_eq)
  show "basicTagToObfuscatedTag S t = 7 \<longleftrightarrow> t = 7"
    using inj [of "unat t" 7] w(4) assms(2)
    by (auto simp: basicTagToObfuscatedTag_def word_unat_eq_iff)
  have f: "find (\<lambda>i. ?xs ! i = ?xs ! unat t) [0..<7] = (if unat t < 7 then Some (unat t) else None)"
  proof (cases "unat t < 7")
    case True
    then show ?thesis
      by (auto simp: find_Some_iff inj intro!: exI [of _ "unat t"])
  next
    case False
    then show ?thesis using inj assms(2) by (auto simp: find_None_iff)
  qed
  show "obfuscatedTagToBasicTag S (basicTagToObfuscatedTag S t) = t"
    unfolding obfuscatedTagToBasicTag_def basicTagToObfuscatedTag_def f
    using assms(2) by (auto simp: word_unat_eq_iff)
qed

lemma encode_split:
  assumes "wf_secrets tag_split S"
  shows "encodeTaggedPointer_withObfuscator tag_split S p =
    (if bit p 63 \<and> bit p 62 \<and> bf_get (0, 3) p = 7 then p
     else bf_put (0, 3) (basicTagToObfuscatedTag S (bf_get (0, 3) p)) (obfuscator S XOR p))"
proof -
  let ?v = "obfuscator S XOR p"
  have o: "\<not> bit (obfuscator S) n" if "n < 3 \<or> n = 62 \<or> n = 63" for n
    using assms that by (auto simp: wf_secrets_def tag_split_def [THEN arg_cong, of SPLIT_TAGGED_POINTERS] and_eq_0_iff bit_tag_masks)
  have g: "bf_get (0, 3) ?v = bf_get (0, 3) p"
    by (intro bit_word_eqI) (auto simp: bit_bf_get bit_simps o)
  have b: "bit ?v 63 = bit p 63" "bit ?v 62 = bit p 62" using o by (simp_all add: bit_simps)
  have "wf_perm (tag60_permutations S)" using assms by (simp add: wf_secrets_def tag_split_def)
  then have "unat (basicTagToObfuscatedTag S (bf_get (0, 3) p)) < 8"
    using permuted_tag(1) unat_bf_get [of "(0, 3)" p] by simp
  then show ?thesis
    unfolding encodeTaggedPointer_withObfuscator_def Let_def and_no_obfuscation b g
    by (simp only: tag_split_def tag_layout.simps and_index_mask g put_index_mask push_bit_0_id drop_bit_0 id_apply if_True)
qed

lemma obfuscated_seven:
  assumes "wf_perm (tag60_permutations S)"
  shows "basicTagToObfuscatedTag S 7 = 7" "obfuscatedTagToBasicTag S 7 = 7"
  using permuted_tag [OF assms, of 7] by auto

lemma noPermute_encode_split:
  assumes "wf_secrets tag_split S"
  shows "decodeTaggedPointer_noPermute_withObfuscator tag_split S
           (encodeTaggedPointer_withObfuscator tag_split S p) =
         bf_put (0, 3) (basicTagToObfuscatedTag S (bf_get (0, 3) p)) p" (is "_ = bf_put _ ?q p")
proof -
  have o: "\<not> bit (obfuscator S) n" if "n < 3 \<or> n = 62 \<or> n = 63" for n
    using assms that by (auto simp: wf_secrets_def tag_split_def [THEN arg_cong, of SPLIT_TAGGED_POINTERS] and_eq_0_iff bit_tag_masks)
  have w: "wf_perm (tag60_permutations S)" using assms by (simp add: wf_secrets_def tag_split_def)
  have u: "unat (bf_get (0, 3) p) < 8" using unat_bf_get [of "(0, 3)" p] by simp
  note q = permuted_tag [OF w u]
  have t: "take_bit 3 ?q = ?q" using q(1) by (simp add: take_bit_small)
  have [simp]: "SPLIT_TAGGED_POINTERS tag_split" by (simp add: tag_split_def)
  show ?thesis
  proof (cases "bit p 63 \<and> bit p 62 \<and> bf_get (0, 3) p = 7")
    case True
    then have "bf_put (0, 3) ?q p = p"
      using bf_put_get [of "(0, 3)" p] obfuscated_seven [OF w] by simp
    then show ?thesis using True
      by (simp add: encode_split [OF assms] decodeTaggedPointer_noPermute_withObfuscator_def and_no_obfuscation)
  next
    case False
    let ?e = "bf_put (0, 3) ?q (obfuscator S XOR p)"
    have "bf_get (0, 3) ?e = ?q" using t by (simp add: bf_get_put_same)
    moreover have "bit ?e 63 = bit p 63" "bit ?e 62 = bit p 62"
      using o by (simp_all add: bit_bf_put bit_simps)
    moreover have "?e XOR obfuscator S = bf_put (0, 3) ?q p"
      by (auto simp: word_bit_eq_iff bit_bf_put bit_simps o)
    ultimately show ?thesis using False q(3)
      by (auto simp: encode_split [OF assms] decodeTaggedPointer_noPermute_withObfuscator_def and_no_obfuscation)
  qed
qed

lemma obfuscatedTag_small: "unat (obfuscatedTagToBasicTag S t) < 8"
proof (cases "find (\<lambda>i. tag60_permutations S ! i = t) [0..<7]")
  case (Some i)
  then have "i < 7" by (auto simp: find_Some_iff)
  then show ?thesis using Some by (simp add: obfuscatedTagToBasicTag_def unat_of_nat)
qed (simp add: obfuscatedTagToBasicTag_def)

lemma decode_split:
  "decodeTaggedPointer_withObfuscator tag_split S p =
     (let v = decodeTaggedPointer_noPermute_withObfuscator tag_split S p in
      bf_put (0, 3) (obfuscatedTagToBasicTag S (bf_get (0, 3) v)) v)"
  unfolding decodeTaggedPointer_withObfuscator_def Let_def
  by (simp only: tag_split_def tag_layout.simps and_index_mask put_index_mask push_bit_0_id
      drop_bit_0 id_apply if_True obfuscatedTag_small)

lemma decode_encode:
  assumes "L \<in> {tag_split, tag_msb, tag_lsb}" and "wf_secrets L S"
  shows "decodeTaggedPointer_withObfuscator L S (encodeTaggedPointer_withObfuscator L S ptr) = ptr"
proof (cases "L = tag_split")
  case True
  have w: "wf_perm (tag60_permutations S)" using assms True by (simp add: wf_secrets_def tag_split_def)
  have u: "unat (bf_get (0, 3) ptr) < 8" using unat_bf_get [of "(0, 3)" ptr] by simp
  note q = permuted_tag [OF w u]
  have "take_bit 3 (basicTagToObfuscatedTag S (bf_get (0, 3) ptr)) =
        basicTagToObfuscatedTag S (bf_get (0, 3) ptr)"
    using q(1) by (simp add: take_bit_small)
  then show ?thesis
    using True assms(2) by (simp add: decode_split noPermute_encode_split bf_simps q)
next
  case False
  then have "L = tag_msb \<or> L = tag_lsb" using assms(1) by blast
  then show ?thesis
    by (elim disjE) (simp_all add: decodeTaggedPointer_withObfuscator_def encodeTaggedPointer_withObfuscator_def
        decodeTaggedPointer_noPermute_withObfuscator_def Let_def tag_msb_def tag_lsb_def xor.assoc xor.left_commute)
qed

lemma make_raw: "makeTaggedPointer_withObfuscator L S tag value =
    encodeTaggedPointer_withObfuscator L S (raw_tagged L tag value)"
  by (simp add: makeTaggedPointer_withObfuscator_def raw_tagged_def)

lemma tag_fits_basic:
  assumes "tag_fits tag v" and "tag \<le> 6"
  shows "bit tag m \<Longrightarrow> m < 3" "bit v m \<Longrightarrow> m < 60" "bf_get (0, 3) tag = tag" "tag \<noteq> 7"
proof -
  have u: "unat tag < 2 ^ 3" using assms(2) by (simp add: word_le_nat_alt)
  then show b: "bit tag m \<Longrightarrow> m < 3" for m by (rule bit_less_exp)
  have "unat v < 2 ^ 60" using assms by (auto simp: tag_fits_def word_le_nat_alt)
  then show "bit v m \<Longrightarrow> m < 60" by (rule bit_less_exp)
  show "bf_get (0, 3) tag = tag" using u by (simp add: bf_get_def take_bit_small)
  show "tag \<noteq> 7" using assms(2) by auto
qed

lemma tag_fits_ext:
  assumes "tag_fits tag v" and "\<not> tag \<le> 6"
  shows "bit (tag - 8) m \<Longrightarrow> m < 8" "bit v m \<Longrightarrow> m < 52"
proof -
  have t: "8 \<le> tag" "tag \<le> 263" "unat v < 2 ^ 52" using assms by (auto simp: tag_fits_def)
  then have "unat (tag - 8) < 2 ^ 8" by (simp add: word_le_nat_alt unat_sub_if_size word_size)
  then show "bit (tag - 8) m \<Longrightarrow> m < 8" by (rule bit_less_exp)
  show "bit v m \<Longrightarrow> m < 52" using t(3) by (rule bit_less_exp)
qed

lemma tag_split_sel [tag_layouts]:
  "SPLIT_TAGGED_POINTERS tag_split = True"
  "MSB_TAGGED_POINTERS tag_split = True"
  "TAG_MASK tag_split = 0x8000000000000000"
  "TAG_SLOT_MASK tag_split = 0x7"
  "TAG_INDEX_SHIFT tag_split = 0"
  "TAG_SLOT_SHIFT tag_split = 0"
  "TAG_PAYLOAD_LSHIFT tag_split = 1"
  "TAG_PAYLOAD_RSHIFT tag_split = 4"
  "TAG_EXT_MASK tag_split = 0x8000000000000007"
  "TAG_EXT_INDEX_SHIFT tag_split = 55"
  "TAG_EXT_SLOT_SHIFT tag_split = 55"
  "TAG_EXT_PAYLOAD_LSHIFT tag_split = 9"
  "TAG_EXT_PAYLOAD_RSHIFT tag_split = 12"
  by (simp_all add: tag_split_def)

lemma tag_msb_sel [tag_layouts]:
  "SPLIT_TAGGED_POINTERS tag_msb = False"
  "MSB_TAGGED_POINTERS tag_msb = True"
  "TAG_MASK tag_msb = 0x8000000000000000"
  "TAG_SLOT_MASK tag_msb = 0xf"
  "TAG_INDEX_SHIFT tag_msb = 60"
  "TAG_SLOT_SHIFT tag_msb = 60"
  "TAG_PAYLOAD_LSHIFT tag_msb = 4"
  "TAG_PAYLOAD_RSHIFT tag_msb = 4"
  "TAG_EXT_MASK tag_msb = 0xf000000000000000"
  "TAG_EXT_INDEX_SHIFT tag_msb = 52"
  "TAG_EXT_SLOT_SHIFT tag_msb = 52"
  "TAG_EXT_PAYLOAD_LSHIFT tag_msb = 12"
  "TAG_EXT_PAYLOAD_RSHIFT tag_msb = 12"
  by (simp_all add: tag_msb_def)

lemma tag_lsb_sel [tag_layouts]:
  "SPLIT_TAGGED_POINTERS tag_lsb = False"
  "MSB_TAGGED_POINTERS tag_lsb = False"
  "TAG_MASK tag_lsb = 1"
  "TAG_SLOT_MASK tag_lsb = 0xf"
  "TAG_INDEX_SHIFT tag_lsb = 1"
  "TAG_SLOT_SHIFT tag_lsb = 0"
  "TAG_PAYLOAD_LSHIFT tag_lsb = 0"
  "TAG_PAYLOAD_RSHIFT tag_lsb = 4"
  "TAG_EXT_MASK tag_lsb = 0xf"
  "TAG_EXT_INDEX_SHIFT tag_lsb = 4"
  "TAG_EXT_SLOT_SHIFT tag_lsb = 4"
  "TAG_EXT_PAYLOAD_LSHIFT tag_lsb = 0"
  "TAG_EXT_PAYLOAD_RSHIFT tag_lsb = 12"
  by (simp_all add: tag_lsb_def)

lemma bit_raw_gen:
  "bit (raw_tagged L tag v) n \<longleftrightarrow>
     (if tag \<le> 6 then
        bit (TAG_MASK L) n \<or> TAG_INDEX_SHIFT L \<le> n \<and> n < 64 \<and> bit tag (n - TAG_INDEX_SHIFT L) \<or>
        TAG_PAYLOAD_RSHIFT L \<le> TAG_PAYLOAD_LSHIFT L + n \<and> TAG_PAYLOAD_LSHIFT L + n < 64 \<and>
          bit v (TAG_PAYLOAD_LSHIFT L + n - TAG_PAYLOAD_RSHIFT L)
      else
        bit (TAG_EXT_MASK L) n \<or>
        TAG_EXT_INDEX_SHIFT L \<le> n \<and> n < 64 \<and> bit (tag - 8) (n - TAG_EXT_INDEX_SHIFT L) \<or>
        TAG_EXT_PAYLOAD_RSHIFT L \<le> TAG_EXT_PAYLOAD_LSHIFT L + n \<and> TAG_EXT_PAYLOAD_LSHIFT L + n < 64 \<and>
          bit v (TAG_EXT_PAYLOAD_LSHIFT L + n - TAG_EXT_PAYLOAD_RSHIFT L))"
  by (auto simp: raw_tagged_def bit_simps)

lemma bit_one_u64: "bit (1 :: u64) n \<longleftrightarrow> n = 0"
  by (simp add: bit_1_iff)

lemma raw_fields_basic:
  assumes "L \<in> {tag_split, tag_msb, tag_lsb}" "tag_fits tag v" "tag \<le> 6"
  shows "drop_bit (TAG_INDEX_SHIFT L) (raw_tagged L tag v) AND 7 = tag"
    and "drop_bit (TAG_PAYLOAD_RSHIFT L) (push_bit (TAG_PAYLOAD_LSHIFT L) (raw_tagged L tag v)) = v"
proof -
  note b = tag_fits_basic(1,2) [OF assms(2,3)]
  note d = word_bit_eq_iff bit_and_iff bit_drop_bit_eq o_apply bit_push_bit_iff bit_tag_masks bit_one_u64
    bit_raw_gen assms(3) if_True
  show "drop_bit (TAG_INDEX_SHIFT L) (raw_tagged L tag v) AND 7 = tag"
    using assms(1)
    by (elim insertE emptyE; hypsubst; simp only: tag_layouts d; use b in force)
  show "drop_bit (TAG_PAYLOAD_RSHIFT L) (push_bit (TAG_PAYLOAD_LSHIFT L) (raw_tagged L tag v)) = v"
    using assms(1)
    by (elim insertE emptyE; hypsubst; simp only: tag_layouts d; use b in force)
qed

lemma raw_fields_ext:
  assumes "L \<in> {tag_split, tag_msb, tag_lsb}" "tag_fits tag v" "\<not> tag \<le> 6"
  shows "drop_bit (TAG_INDEX_SHIFT L) (raw_tagged L tag v) AND 7 = 7"
    and "drop_bit (TAG_EXT_INDEX_SHIFT L) (raw_tagged L tag v) AND 0xff = tag - 8"
    and "drop_bit (TAG_EXT_PAYLOAD_RSHIFT L) (push_bit (TAG_EXT_PAYLOAD_LSHIFT L) (raw_tagged L tag v)) = v"
proof -
  note b = tag_fits_ext(1,2) [OF assms(2,3)]
  note d = word_bit_eq_iff bit_and_iff bit_drop_bit_eq o_apply bit_push_bit_iff bit_tag_masks bit_one_u64
    bit_raw_gen assms(3) if_False
  show "drop_bit (TAG_INDEX_SHIFT L) (raw_tagged L tag v) AND 7 = 7"
    using assms(1)
    by (elim insertE emptyE; hypsubst; simp only: tag_layouts d; use b in force)
  show "drop_bit (TAG_EXT_INDEX_SHIFT L) (raw_tagged L tag v) AND 0xff = tag - 8"
    using assms(1)
    by (elim insertE emptyE; hypsubst; simp only: tag_layouts d; use b in force)
  show "drop_bit (TAG_EXT_PAYLOAD_RSHIFT L) (push_bit (TAG_EXT_PAYLOAD_LSHIFT L) (raw_tagged L tag v)) = v"
    using assms(1)
    by (elim insertE emptyE; hypsubst; simp only: tag_layouts d; use b in force)
qed

lemma noPermute_encode:
  fixes raw :: u64
  assumes "L \<in> {tag_split, tag_msb, tag_lsb}" "wf_secrets L S"
  defines "d \<equiv> decodeTaggedPointer_noPermute_withObfuscator L S (encodeTaggedPointer_withObfuscator L S raw)"
  shows "drop_bit (TAG_INDEX_SHIFT L) d AND 7 = 7 \<longleftrightarrow> drop_bit (TAG_INDEX_SHIFT L) raw AND 7 = 7"
    and "drop_bit (TAG_PAYLOAD_RSHIFT L) (push_bit (TAG_PAYLOAD_LSHIFT L) d) =
         drop_bit (TAG_PAYLOAD_RSHIFT L) (push_bit (TAG_PAYLOAD_LSHIFT L) raw)"
    and "drop_bit (TAG_EXT_PAYLOAD_RSHIFT L) (push_bit (TAG_EXT_PAYLOAD_LSHIFT L) d) =
         drop_bit (TAG_EXT_PAYLOAD_RSHIFT L) (push_bit (TAG_EXT_PAYLOAD_LSHIFT L) raw)"
proof -
  have "(drop_bit (TAG_INDEX_SHIFT L) d AND 7 = 7 \<longleftrightarrow> drop_bit (TAG_INDEX_SHIFT L) raw AND 7 = 7) \<and>
    drop_bit (TAG_PAYLOAD_RSHIFT L) (push_bit (TAG_PAYLOAD_LSHIFT L) d) =
      drop_bit (TAG_PAYLOAD_RSHIFT L) (push_bit (TAG_PAYLOAD_LSHIFT L) raw) \<and>
    drop_bit (TAG_EXT_PAYLOAD_RSHIFT L) (push_bit (TAG_EXT_PAYLOAD_LSHIFT L) d) =
      drop_bit (TAG_EXT_PAYLOAD_RSHIFT L) (push_bit (TAG_EXT_PAYLOAD_LSHIFT L) raw)"
  proof (cases "L = tag_split")
    case True
    then have w: "wf_perm (tag60_permutations S)" using assms(2) by (simp add: wf_secrets_def tag_layouts)
    have d: "d = bf_put (0, 3) (basicTagToObfuscatedTag S (bf_get (0, 3) raw)) raw"
      using noPermute_encode_split True assms by simp
    have u: "unat (bf_get (0, 3) raw) < 8" using unat_bf_get [of "(0, 3)" raw] by simp
    note q = permuted_tag [OF w u]
    have "bf_get (0, 3) d = 7 \<longleftrightarrow> bf_get (0, 3) raw = 7"
      using q by (simp add: d bf_get_put_same take_bit_small)
    moreover have b: "bit d n = bit raw n" if "3 \<le> n" for n using that by (auto simp: d bit_bf_put)
    have "drop_bit 4 (push_bit 1 d) = drop_bit 4 (push_bit 1 raw)"
      "drop_bit 12 (push_bit 9 d) = drop_bit 12 (push_bit 9 raw)"
      by (simp_all only: word_bit_eq_iff bit_drop_bit_eq bit_push_bit_iff o_apply) (simp_all add: b)
    ultimately show ?thesis unfolding True by (simp add: tag_layouts and_index_mask)
  next
    case False
    then have "d = raw" using assms(1)
      by (auto simp: d_def decodeTaggedPointer_noPermute_withObfuscator_def
          encodeTaggedPointer_withObfuscator_def Let_def tag_layouts xor.assoc xor.left_commute)
    then show ?thesis by simp
  qed
  then show "drop_bit (TAG_INDEX_SHIFT L) d AND 7 = 7 \<longleftrightarrow> drop_bit (TAG_INDEX_SHIFT L) raw AND 7 = 7"
    and "drop_bit (TAG_PAYLOAD_RSHIFT L) (push_bit (TAG_PAYLOAD_LSHIFT L) d) =
         drop_bit (TAG_PAYLOAD_RSHIFT L) (push_bit (TAG_PAYLOAD_LSHIFT L) raw)"
    and "drop_bit (TAG_EXT_PAYLOAD_RSHIFT L) (push_bit (TAG_EXT_PAYLOAD_LSHIFT L) d) =
         drop_bit (TAG_EXT_PAYLOAD_RSHIFT L) (push_bit (TAG_EXT_PAYLOAD_LSHIFT L) raw)"
    by blast+
qed

lemma get_make_tag:
  assumes "L \<in> {tag_split, tag_msb, tag_lsb}" "wf_secrets L S" "tag_fits tag v"
  shows "getTaggedPointerTag_withObfuscator L S (makeTaggedPointer_withObfuscator L S tag v) = tag"
  using raw_fields_basic [OF assms(1,3)] raw_fields_ext [OF assms(1,3)] tag_fits_basic(4) [OF assms(3)]
  by (cases "tag \<le> 6")
     (auto simp: make_raw getTaggedPointerTag_withObfuscator_def decode_encode [OF assms(1,2)] Let_def)

lemma get_make_value:
  assumes "L \<in> {tag_split, tag_msb, tag_lsb}" "wf_secrets L S" "tag_fits tag v"
  shows "getTaggedPointerValue_withObfuscator L S (makeTaggedPointer_withObfuscator L S tag v) = v"
  using raw_fields_basic [OF assms(1,3)] raw_fields_ext [OF assms(1,3)] tag_fits_basic(4) [OF assms(3)]
  by (cases "tag \<le> 6")
     (auto simp: make_raw getTaggedPointerValue_withObfuscator_def noPermute_encode [OF assms(1,2)] Let_def)

lemma get_make_signed_value:
  assumes "L \<in> {tag_split, tag_msb, tag_lsb}" "wf_secrets L S" "tag_fits tag v"
  shows "getTaggedPointerSignedValue_withObfuscator L S (makeTaggedPointer_withObfuscator L S tag v) =
    signed_take_bit (if tag \<le> 6 then 59 else 51) v"
proof -
  have r: "TAG_PAYLOAD_RSHIFT L = 4" "TAG_EXT_PAYLOAD_RSHIFT L = 12" using assms(1) by (auto simp: tag_layouts)
  have s: "signed_drop_bit 4 (x :: u64) = signed_take_bit 59 (drop_bit 4 x)"
    "signed_drop_bit 12 x = signed_take_bit 51 (drop_bit 12 x)" for x :: u64
    by (simp_all add: signed_drop_bit_eq_signed_take_bit)
  show ?thesis
    using raw_fields_basic [OF assms(1,3)] raw_fields_ext [OF assms(1,3)] tag_fits_basic(4) [OF assms(3)]
      noPermute_encode [OF assms(1,2)]
    unfolding r
    by (cases "tag \<le> 6")
      (auto simp: make_raw getTaggedPointerSignedValue_withObfuscator_def Let_def s r)
qed

lemma isTagged_make:
  assumes "L \<in> {tag_split, tag_msb, tag_lsb}" "wf_secrets L S" "tag_fits tag v"
  shows "isTaggedPointer L (makeTaggedPointer_withObfuscator L S tag v)"
proof -
  have r: "bit (raw_tagged L tag v) n" if "bit (TAG_MASK L) n" for n
    using assms(1) that by (auto simp: bit_raw_gen tag_layouts bit_tag_masks bit_one_u64 simp del: bit_numeral_word_iff)
  have o: "\<not> bit (obfuscator S) n" if "bit (TAG_MASK L) n" for n
    using assms(2) that by (auto simp: wf_secrets_def and_eq_0_iff)
  have h: "L = tag_split \<Longrightarrow> n < 3 \<Longrightarrow> \<not> bit (TAG_MASK L) n" for n
    by (auto simp: tag_layouts bit_tag_masks simp del: bit_numeral_word_iff)
  show ?thesis
  proof (cases "L = tag_split")
    case True
    then show ?thesis using r o h assms(2)
      by (auto simp: isTaggedPointer_def and_eq_self_iff make_raw encode_split bit_bf_put bit_xor_iff)
  next
    case False
    then show ?thesis using assms(1) r o
      by (auto simp: isTaggedPointer_def and_eq_self_iff make_raw encodeTaggedPointer_withObfuscator_def
          Let_def tag_msb_sel(1) tag_lsb_sel(1) bit_xor_iff)
  qed
qed

lemma bit_eight: "bit (8 :: u64) n \<longleftrightarrow> n = 3"
proof -
  have "(8 :: u64) = 2 ^ 3" by simp
  then show ?thesis by (simp only: bit_exp_iff) (auto simp: possible_bit_def)
qed

lemma make_basic_slot:
  assumes "L \<in> {tag_split, tag_msb, tag_lsb}" "wf_secrets L S" "tag_fits tag v"
  shows "Basic_Slot (unat (drop_bit (TAG_SLOT_SHIFT L) (makeTaggedPointer_withObfuscator L S tag v) AND TAG_SLOT_MASK L)) =
         classSlotForBasicTagIndex L S (if tag \<le> 6 then tag else 7)" (is "_ = classSlotForBasicTagIndex L S ?t")
proof -
  let ?raw = "raw_tagged L tag v"
  have idx: "drop_bit (TAG_INDEX_SHIFT L) ?raw AND 7 = ?t"
    using raw_fields_basic(1) [OF assms(1,3)] raw_fields_ext(1) [OF assms(1,3)] by auto
  have tb: "bit ?t n \<longleftrightarrow> n < 3 \<and> bit ?raw (TAG_INDEX_SHIFT L + n)" for n
    by (subst idx [symmetric]) (auto simp: bit_and_iff bit_drop_bit_eq bit_tag_masks simp del: bit_numeral_word_iff)
  have r: "bit ?raw n" "\<not> bit (obfuscator S) n" if "bit (TAG_MASK L) n" for n
    using assms(1,2) that
    by (auto simp: bit_raw_gen tag_layouts bit_tag_masks bit_one_u64 wf_secrets_def and_eq_0_iff
        simp del: bit_numeral_word_iff)
  consider "L = tag_split" | "L = tag_msb" | "L = tag_lsb" using assms(1) by blast
  then show ?thesis
  proof cases
    case 1
    have w: "wf_perm (tag60_permutations S)" using assms(2) 1 by (simp add: wf_secrets_def tag_layouts)
    have t: "bf_get (0, 3) ?raw = ?t" using idx 1 by (simp add: tag_layouts and_index_mask)
    have u: "unat ?t < 8" using unat_bf_get [of "(0, 3)" ?raw] t by simp
    note q = permuted_tag [OF w u]
    have "bf_get (0, 3) (makeTaggedPointer_withObfuscator L S tag v) = basicTagToObfuscatedTag S ?t"
      using q t obfuscated_seven [OF w] assms(2) 1
      by (auto simp: make_raw encode_split bf_get_put_same take_bit_small)
    then show ?thesis using 1 by (simp add: classSlotForBasicTagIndex_def tag_layouts and_index_mask)
  next
    case 2
    have r': "bit ?raw 63" "\<not> bit (obfuscator S) 63"
      using r [of 63] 2 by (simp_all add: tag_layouts bit_tag_masks del: bit_numeral_word_iff)
    have tb': "bit ?t n \<longleftrightarrow> n < 3 \<and> bit ?raw (60 + n)" for n using tb 2 by (simp add: tag_layouts)
    have "drop_bit 60 (obfuscator S XOR ?raw) AND 0xf = 0x8 OR (?t XOR (drop_bit 60 (obfuscator S) AND 7))"
      (is "?l = ?r")
    proof (rule bit_word_eqI)
      fix n show "bit ?l n = bit ?r n"
        unfolding bit_and_iff bit_or_iff bit_xor_iff bit_drop_bit_eq o_apply bit_tag_masks bit_eight tb'
        using r' by (cases "n < 3"; cases "n = 3") auto
    qed
    then show ?thesis using 2
      by (simp add: classSlotForBasicTagIndex_def tag_layouts make_raw encodeTaggedPointer_withObfuscator_def)
  next
    case 3
    have r': "bit ?raw 0" "\<not> bit (obfuscator S) 0"
      using r [of 0] 3 by (simp_all add: tag_layouts)
    have tb': "bit ?t n \<longleftrightarrow> n < 3 \<and> bit ?raw (1 + n)" for n using tb 3 by (simp add: tag_layouts)
    have "drop_bit 0 (obfuscator S XOR ?raw) AND 0xf = push_bit 1 (?t XOR (drop_bit 1 (obfuscator S) AND 7)) OR 1"
      (is "?l = ?r")
    proof (rule bit_word_eqI)
      fix n assume "n < LENGTH(64)"
      then show "bit ?l n = bit ?r n"
        unfolding bit_and_iff bit_or_iff bit_xor_iff bit_drop_bit_eq bit_push_bit_iff o_apply bit_tag_masks bit_one_u64 tb'
        using r' by (cases n) auto
    qed
    then show ?thesis
      by (simp only: 3 classSlotForBasicTagIndex_def tag_layouts make_raw
          encodeTaggedPointer_withObfuscator_def Let_def if_False)
  qed
qed

lemma ext_high_bit:
  assumes "8 \<le> (tag :: u64)" "tag \<le> 263"
  shows "bit (tag - 8) 7 \<longleftrightarrow> 136 \<le> tag"
proof -
  have "unat (tag - 8) = unat tag - 8" "unat tag \<le> 263" "8 \<le> unat tag"
    using assms by (simp_all add: word_le_nat_alt unat_sub_if_size)
  then have "unat (tag - 8) div 128 = (if 136 \<le> unat tag then 1 else 0)"
    by (auto intro!: div_nat_eqI)
  then have "odd (unat (tag - 8) div 128) \<longleftrightarrow> 136 \<le> unat tag" by simp
  then show ?thesis unfolding bit_unat [symmetric] by (simp add: bit_iff_odd word_le_nat_alt)
qed

lemma make_ext_slot:
  assumes "L \<in> {tag_split, tag_msb, tag_lsb}" "wf_secrets L S" "tag_fits tag v" "\<not> tag \<le> 6"
  shows "classSlotForTagIndex L S tag =
    Some (Ext_Slot (unat (drop_bit (TAG_EXT_SLOT_SHIFT L) (makeTaggedPointer_withObfuscator L S tag v) AND 0xff)))"
proof -
  let ?raw = "raw_tagged L tag v"
  have sh: "TAG_EXT_SLOT_SHIFT L = TAG_EXT_INDEX_SHIFT L" using assms(1) by (auto simp: tag_layouts)
  have t: "8 \<le> tag" "tag \<le> 263" using assms(3,4) by (auto simp: tag_fits_def)
  have idx: "drop_bit (TAG_EXT_INDEX_SHIFT L) ?raw AND 0xff = tag - 8"
    by (rule raw_fields_ext(2) [OF assms(1,3,4)])
  have x: "(drop_bit k a XOR drop_bit k b) AND m = (drop_bit k b AND m) XOR (drop_bit k a AND m)"
    for k and a b m :: u64
    by (auto simp: word_bit_eq_iff bit_simps)
  show ?thesis
  proof (cases "L = tag_split")
    case False
    then show ?thesis using assms(1,4) t
      by (auto simp: classSlotForTagIndex_def make_raw encodeTaggedPointer_withObfuscator_def Let_def sh x idx
          tag_msb_sel(1) tag_lsb_sel(1))
  next
    case True
    have i7: "drop_bit (TAG_INDEX_SHIFT L) ?raw AND 7 = 7" by (rule raw_fields_ext(1) [OF assms(1,3,4)])
    then have g: "bf_get (0, 3) ?raw = 7" using True by (simp add: tag_layouts and_index_mask)
    have b: "bit ?raw 63" using True assms(4)
      by (simp add: bit_raw_gen tag_layouts bit_tag_masks del: bit_numeral_word_iff)
    have b7: "bit ?raw 62 = bit (tag - 8) 7"
      unfolding idx [symmetric] True tag_layouts bit_and_iff bit_drop_bit_eq o_apply bit_tag_masks by simp
    have o: "\<not> bit (obfuscator S) n" if "n < 3 \<or> n = 62 \<or> n = 63" for n
      using assms(2) that True by (auto simp: wf_secrets_def tag_layouts(1) and_eq_0_iff bit_tag_masks)
    note c = ext_high_bit [OF t]
    have p: "drop_bit 55 (bf_put (0, 3) q y) = drop_bit 55 y" for q y :: u64
      by (rule bit_word_eqI) (simp add: bit_drop_bit_eq bit_bf_put)
    show ?thesis
      using assms(2,4) t b b7 g c idx
      by (auto simp: True classSlotForTagIndex_def make_raw encode_split Let_def tag_layouts x p)
  qed
qed

lemma slot_inj_basic:
  assumes "L \<in> {tag_split, tag_msb, tag_lsb}" "wf_secrets L S" "unat t < 8" "unat t' < 8"
  shows "classSlotForBasicTagIndex L S t = classSlotForBasicTagIndex L S t' \<longleftrightarrow> t = t'"
proof -
  have b: "\<not> bit t 3" "\<not> bit t' 3" "\<And>n. bit t n \<Longrightarrow> n < 3" "\<And>n. bit t' n \<Longrightarrow> n < 3"
    using bit_less_exp [of t 3] bit_less_exp [of t' 3] assms(3,4) by auto
  consider "L = tag_split" | "L = tag_msb" | "L = tag_lsb" using assms(1) by blast
  then show ?thesis
  proof cases
    case 1
    then have w: "wf_perm (tag60_permutations S)" using assms(2) by (simp add: wf_secrets_def tag_layouts)
    show ?thesis
      using permuted_tag(2) [OF w assms(3)] permuted_tag(2) [OF w assms(4)] 1
      by (simp add: classSlotForBasicTagIndex_def tag_layouts flip: word_unat_eq_iff) metis
  next
    case 2
    have "t = t'" if "0x8 OR (t XOR (x AND 7)) = 0x8 OR (t' XOR (x AND 7))" for x
    proof (rule bit_word_eqI)
      fix n show "bit t n = bit t' n"
        using that [THEN arg_cong, of "\<lambda>w. bit w n"] b
        unfolding bit_or_iff bit_xor_iff bit_and_iff bit_eight bit_tag_masks by (cases "n = 3") auto
    qed
    then show ?thesis
      by (auto simp only: 2 classSlotForBasicTagIndex_def tag_layouts Let_def if_True if_False
          class_slot.inject word_unat_eq_iff [symmetric])
  next
    case 3
    have "t = t'" if "push_bit 1 (t XOR x) OR 1 = push_bit 1 (t' XOR x) OR 1" for x
    proof (rule bit_word_eqI)
      fix n show "bit t n = bit t' n"
        using that [THEN arg_cong, of "\<lambda>w. bit w (Suc n)"] b(3,4) [of n]
        unfolding bit_or_iff bit_xor_iff bit_push_bit_iff bit_one_u64
        by (cases "n < 3") auto
    qed
    then show ?thesis
      by (auto simp only: 3 classSlotForBasicTagIndex_def tag_layouts Let_def if_False class_slot.inject
          word_unat_eq_iff [symmetric])
  qed
qed

lemma slot_ok_basic:
  assumes "L \<in> {tag_split, tag_msb, tag_lsb}" "wf_secrets L S" "t \<le> 6 \<or> t = 7"
  shows "slot_ok L (classSlotForBasicTagIndex L S t)"
proof -
  let ?t = "if t \<le> 6 then t else 8"
  have "tag_fits ?t 0" and t: "(if ?t \<le> 6 then ?t else 7) = t" using assms(3) by (auto simp: tag_fits_def)
  then have "classSlotForBasicTagIndex L S t =
     Basic_Slot (unat (drop_bit (TAG_SLOT_SHIFT L) (makeTaggedPointer_withObfuscator L S ?t 0) AND TAG_SLOT_MASK L))"
    using make_basic_slot [OF assms(1,2), of ?t 0] by (simp only: t)
  moreover have "unat (x AND TAG_SLOT_MASK L) < tag_slot_count L" for x
    using assms(1) word_and_le1 [of x "TAG_SLOT_MASK L"]
    by (auto simp: tag_layouts tag_slot_count_def word_le_nat_alt)
  ultimately show ?thesis by simp
qed

lemma slot_inj_ext:
  assumes "L \<in> {tag_split, tag_msb, tag_lsb}" "wf_secrets L S" "8 \<le> t" "t \<le> 263" "8 \<le> t'" "t' \<le> 263"
    and "classSlotForTagIndex L S t' = classSlotForTagIndex L S t"
  shows "t' = t"
proof -
  let ?o = "drop_bit (TAG_EXT_INDEX_SHIFT L) (obfuscator S) AND 0xff"
  let ?e = "\<lambda>t. if SPLIT_TAGGED_POINTERS L \<and> 136 \<le> t then 0 else ?o"
  have e: "classSlotForTagIndex L S t' = Some (Ext_Slot (unat (t' - 8 XOR ?e t')))" if "8 \<le> t'" "t' \<le> 263" for t'
  proof -
    have "\<not> t' \<le> 6" using that by (auto simp: word_le_nat_alt)
    then show ?thesis using that by (simp add: classSlotForTagIndex_def Let_def)
  qed
  have o7: "\<not> bit ?o 7" if "SPLIT_TAGGED_POINTERS L"
  proof -
    have "\<not> bit (obfuscator S) 62" "L = tag_split"
      using that assms(1,2) by (auto simp: wf_secrets_def and_eq_0_iff bit_tag_masks tag_msb_sel(1) tag_lsb_sel(1))
    then show ?thesis by (simp add: bit_and_iff bit_drop_bit_eq tag_layouts)
  qed
  have eq: "t' - 8 XOR ?e t' = t - 8 XOR ?e t"
    using assms(7) e [OF assms(5,6)] e [OF assms(3,4)] by (simp flip: word_unat_eq_iff)
  have "?e t' = ?e t"
  proof (cases "SPLIT_TAGGED_POINTERS L")
    case True
    then show ?thesis
      using eq [THEN arg_cong, of "\<lambda>w. bit w 7"] o7 [OF True]
        ext_high_bit [OF assms(5,6)] ext_high_bit [OF assms(3,4)]
      unfolding bit_xor_iff
      by (cases "136 \<le> t"; cases "136 \<le> t'") (simp_all only: if_True if_False simp_thms bit_0_eq bot_apply bot_bool_def)
  qed simp
  then have "(t' - 8 XOR ?e t) XOR ?e t = (t - 8 XOR ?e t) XOR ?e t" using eq by (simp only:)
  then show ?thesis by (simp only: xor.assoc xor_self_eq xor.right_neutral diff_eq_eq diff_add_cancel)
qed

lemma classSlot_cases:
  assumes "L \<in> {tag_split, tag_msb, tag_lsb}" "wf_secrets L S" "classSlotForTagIndex L S t = Some s"
  shows "t \<le> 6 \<and> s = classSlotForBasicTagIndex L S t \<or> \<not> t \<le> 6 \<and> 8 \<le> t \<and> t \<le> 263 \<and> (\<exists>i<256. s = Ext_Slot i)"
proof (cases "t \<le> 6")
  case False
  then have t: "8 \<le> t" "t \<le> 263" using assms(3) by (auto simp: classSlotForTagIndex_def Let_def split: if_splits)
  then have "tag_fits t 0" by (simp add: tag_fits_def)
  let ?x = "drop_bit (TAG_EXT_SLOT_SHIFT L) (makeTaggedPointer_withObfuscator L S t 0)"
  have "s = Ext_Slot (unat (?x AND 0xff))"
    using make_ext_slot [OF assms(1,2) \<open>tag_fits t 0\<close> False] assms(3) by simp
  moreover have "unat (?x AND 0xff) < 256" using word_and_le1 [of ?x "0xff"] by (simp add: word_le_nat_alt)
  ultimately show ?thesis using t False by blast
qed (use assms(3) in \<open>simp add: classSlotForTagIndex_def\<close>)

lemma read_write_slot:
  assumes "length (objc_tag_classes T) = tag_slot_count L" "length (objc_tag_ext_classes T) = 256" "slot_ok L s"
  shows "read_slot (write_slot s c T) s' = (if s' = s then c else read_slot T s')"
  using assms by (cases s; cases s') auto

lemma classSlot_distinct:
  assumes "L \<in> {tag_split, tag_msb, tag_lsb}" "wf_secrets L S" "classSlotForTagIndex L S t = Some s"
  shows "slot_ok L s" and "s \<noteq> classSlotForBasicTagIndex L S 7"
    and "classSlotForTagIndex L S t' = Some s \<Longrightarrow> t' = t"
proof -
  have b: "\<exists>i. classSlotForBasicTagIndex L S k = Basic_Slot i" for k
    by (simp add: classSlotForBasicTagIndex_def Let_def)
  have six: "unat k < 8" "k \<noteq> 7" if "k \<le> 6" for k :: u64 using that by (auto simp: word_le_nat_alt)
  note c = classSlot_cases [OF assms]
  show "slot_ok L s" using c slot_ok_basic [OF assms(1,2)] by auto
  show "s \<noteq> classSlotForBasicTagIndex L S 7"
  proof (cases "t \<le> 6")
    case True
    then show ?thesis using c slot_inj_basic [OF assms(1,2), of t 7] six [OF True] b [of t] by auto
  next
    case False
    then obtain i j where "s = Ext_Slot i" "classSlotForBasicTagIndex L S 7 = Basic_Slot j"
      using c b [of 7] by blast
    then show ?thesis by simp
  qed
  assume t': "classSlotForTagIndex L S t' = Some s"
  note c' = classSlot_cases [OF assms(1,2) t']
  show "t' = t"
  proof (cases "t \<le> 6")
    case True
    then obtain i where i: "s = Basic_Slot i" "s = classSlotForBasicTagIndex L S t"
      using c b [of t] by (metis class_slot.distinct(1))
    then have "t' \<le> 6" "s = classSlotForBasicTagIndex L S t'" using c' by auto
    then show ?thesis using six(1) [OF True] six(1) [of t'] i slot_inj_basic [OF assms(1,2), of t' t] by metis
  next
    case False
    then have t: "8 \<le> t" "t \<le> 263" using c by auto
    obtain i where "s = Ext_Slot i" using c False by blast
    then have "8 \<le> t'" "t' \<le> 263" using c' b [of t'] by auto
    then show ?thesis using slot_inj_ext [OF assms(1,2) t] assms(3) t' by simp
  qed
qed

lemma register_effect:
  assumes "L \<in> {tag_split, tag_msb, tag_lsb}" "wf_secrets L S" "wf_tag_state L S U T"
    and "registerTaggedPointerClass L S U T tag cls = Some T'"
  shows "getClassForTag L S T' tag = cls"
    and "tag' \<noteq> tag \<Longrightarrow> getClassForTag L S T' tag' = getClassForTag L S T tag'"
    and "cls \<noteq> U \<Longrightarrow> wf_tag_state L S U T'"
    and "\<not> tag \<le> 6 \<Longrightarrow> read_slot T' (classSlotForBasicTagIndex L S 7) = U"
proof -
  let ?s7 = "classSlotForBasicTagIndex L S 7"
  obtain s where s: "classSlotForTagIndex L S tag = Some s"
    using assms(4) by (auto simp: registerTaggedPointerClass_def split: if_splits option.splits)
  note d = classSlot_distinct [OF assms(1,2) s]
  have ok7: "slot_ok L ?s7" by (rule slot_ok_basic [OF assms(1,2)]) simp
  have wf: "length (objc_tag_classes T) = tag_slot_count L" "length (objc_tag_ext_classes T) = 256"
    "U \<noteq> 0" "read_slot T ?s7 \<in> {0, U}"
    using assms(3) by (auto simp: wf_tag_state_def)
  let ?T = "write_slot s cls T"
  have lens: "length (objc_tag_classes (write_slot x c X)) = length (objc_tag_classes X)"
    "length (objc_tag_ext_classes (write_slot x c X)) = length (objc_tag_ext_classes X)" for x c X
    by (cases x; simp)+
  have T': "T' = (if tag \<le> 6 then ?T else if read_slot ?T ?s7 = 0 then write_slot ?s7 U ?T else ?T)"
    using assms(4) s
    by (auto simp: registerTaggedPointerClass_def Let_def not_le split: if_splits)
  have l: "length (objc_tag_classes T') = length (objc_tag_classes T)"
    "length (objc_tag_ext_classes T') = length (objc_tag_ext_classes T)" by (simp_all add: T' lens)
  have r: "read_slot T' x = (if x = s then cls else if x = ?s7 \<and> \<not> tag \<le> 6 then U else read_slot T x)" for x
    using wf d(2) by (auto simp: T' read_write_slot [OF _ _ d(1)] read_write_slot [OF _ _ ok7] lens)
  show "getClassForTag L S T' tag = cls" by (simp add: getClassForTag_def s r)
  show "\<not> tag \<le> 6 \<Longrightarrow> read_slot T' ?s7 = U" using d(2) by (simp add: r)
  show "getClassForTag L S T' tag' = getClassForTag L S T tag'" if "tag' \<noteq> tag"
    using that classSlot_distinct [OF assms(1,2), of tag'] d(3) [of tag']
    by (auto simp: getClassForTag_def r split: option.split)
  show "wf_tag_state L S U T'" if "cls \<noteq> U"
  proof -
    have "read_slot T' (classSlotForBasicTagIndex L S (of_nat k)) \<noteq> U" if "k < 7" for k
    proof -
      have "(of_nat k :: u64) \<le> 6" using that by (simp add: word_le_nat_alt unat_of_nat)
      then have "classSlotForTagIndex L S (of_nat k) = Some (classSlotForBasicTagIndex L S (of_nat k))"
        by (simp add: classSlotForTagIndex_def)
      from classSlot_distinct(2) [OF assms(1,2) this] show ?thesis
        using \<open>cls \<noteq> U\<close> assms(3) that by (auto simp: r wf_tag_state_def)
    qed
    moreover have "read_slot T' ?s7 \<in> {0, U}" using wf(4) d(2) by (auto simp: r)
    ultimately show ?thesis using wf(1-3) l by (simp add: wf_tag_state_def)
  qed
qed

lemma dispatch_registered:
  assumes "L \<in> {tag_split, tag_msb, tag_lsb}" "wf_secrets L S" "wf_tag_state L S U T"
    and "registerTaggedPointerClass L S U T tag cls = Some T'" "cls \<noteq> U" "tag_fits tag v"
  shows "getTaggedIsa L U T' (makeTaggedPointer_withObfuscator L S tag v) = cls"
proof -
  note e = register_effect [OF assms(1-4)]
  note b = make_basic_slot [OF assms(1,2,6), symmetric]
  show ?thesis
  proof (cases "tag \<le> 6")
    case True
    then have "classSlotForTagIndex L S tag = Some (classSlotForBasicTagIndex L S tag)"
      by (simp add: classSlotForTagIndex_def)
    then show ?thesis using e(1) b True assms(5) by (simp add: getTaggedIsa_def Let_def getClassForTag_def)
  next
    case False
    then show ?thesis using e(1,4) b make_ext_slot [OF assms(1,2,6) False]
      by (simp add: getTaggedIsa_def Let_def getClassForTag_def)
  qed
qed

lemma wf_initial_tag_state:
  assumes "L \<in> {tag_split, tag_msb, tag_lsb}" "wf_secrets L S" "U \<noteq> 0"
  shows "wf_tag_state L S U (initial_tag_state L)"
proof -
  have z: "read_slot (initial_tag_state L) s = 0" if "slot_ok L s" for s
    using that by (cases s) (auto simp: initial_tag_state_def)
  have "read_slot (initial_tag_state L) (classSlotForBasicTagIndex L S (of_nat k)) = 0" if "k < 7" for k
  proof -
    have "(of_nat k :: u64) \<le> 6" using that by (simp add: word_le_nat_alt unat_of_nat)
    then show ?thesis using slot_ok_basic [OF assms(1,2)] z by blast
  qed
  then show ?thesis using assms(3) z slot_ok_basic [OF assms(1,2), of 7]
    by (auto simp: wf_tag_state_def initial_tag_state_def)
qed

lemma getClassForTag_initial:
  assumes "L \<in> {tag_split, tag_msb, tag_lsb}" "wf_secrets L S"
  shows "getClassForTag L S (initial_tag_state L) tag = 0"
proof (cases "classSlotForTagIndex L S tag")
  case (Some s)
  have "slot_ok L s" by (rule classSlot_distinct(1) [OF assms Some])
  then show ?thesis using Some by (cases s) (auto simp: getClassForTag_def initial_tag_state_def)
qed (simp add: getClassForTag_def)

lemma mask_initial: "taggedpointer_mask (initial_tag_state L) = TAG_MASK L"
  by (simp add: initial_tag_state_def)

lemma register_fails_iff:
  "registerTaggedPointerClass L S U T tag cls = None \<longleftrightarrow>
     taggedpointer_mask T = 0 \<or> tag = 7 \<or> 263 < tag \<or>
     cls \<noteq> 0 \<and> getClassForTag L S T tag \<noteq> 0 \<and> getClassForTag L S T tag \<noteq> cls"
proof -
  have "classSlotForTagIndex L S tag = None \<longleftrightarrow> tag = 7 \<or> 263 < tag"
    by (auto simp: classSlotForTagIndex_def Let_def word_le_nat_alt word_less_nat_alt word_unat_eq_iff)
  then show ?thesis
    by (cases "classSlotForTagIndex L S tag")
       (auto simp: registerTaggedPointerClass_def getClassForTag_def Let_def)
qed

lemma bit_ext_mask:
  assumes "L \<in> {tag_split, tag_msb, tag_lsb}"
  shows "bit (TAG_EXT_MASK L) n \<longleftrightarrow> bit (TAG_MASK L) n \<or> (\<exists>m<3. n = TAG_INDEX_SHIFT L + m)"
  using assms
  by (elim insertE emptyE; hypsubst; simp only: tag_layouts bit_tag_masks bit_one_u64; presburger)

lemma classify_make:
  assumes "L \<in> {tag_split, tag_msb, tag_lsb}" "wf_secrets L S" "tag_fits tag v"
  shows "isExtTaggedPointer L S (makeTaggedPointer_withObfuscator L S tag v) \<longleftrightarrow> \<not> tag \<le> 6"
proof -
  let ?raw = "raw_tagged L tag v"
  have r: "bit ?raw n" if "bit (TAG_MASK L) n" for n
    using assms(1) that by (auto simp: bit_raw_gen tag_layouts bit_tag_masks bit_one_u64 simp del: bit_numeral_word_iff)
  have "drop_bit (TAG_INDEX_SHIFT L) ?raw AND 7 = 7 \<longleftrightarrow> (\<forall>m<3. bit ?raw (TAG_INDEX_SHIFT L + m))"
    by (simp only: and_eq_self_iff bit_tag_masks bit_drop_bit_eq o_apply)
  then have "?raw AND TAG_EXT_MASK L = TAG_EXT_MASK L \<longleftrightarrow> drop_bit (TAG_INDEX_SHIFT L) ?raw AND 7 = 7"
    using r by (auto simp: and_eq_self_iff [of ?raw] bit_ext_mask [OF assms(1)])
  then show ?thesis
    using raw_fields_basic(1) [OF assms(1,3)] raw_fields_ext(1) [OF assms(1,3)] tag_fits_basic(4) [OF assms(3)]
    by (cases "tag \<le> 6") (auto simp: isExtTaggedPointer_def make_raw decode_encode [OF assms(1,2)])
qed

section \<open>Properties\<close>

text \<open>
  C4: Tagged pointer round trip. For each of the three encodings, whatever random word and
  shuffle \<open>initializeTaggedPointerObfuscator\<close> drew, a pointer made from a tag and a payload
  that fits is recognised as tagged, is classified as extended exactly for the extended
  tags, and gives back its tag, its payload and its sign-extended payload.
\<close>

theorem tagged_pointer_roundtrip:
  assumes "L \<in> {tag_split, tag_msb, tag_lsb}"
    and "\<forall>k\<le>7. 0 < k \<longrightarrow> rnd k < k"
    and "S = initializeTaggedPointerObfuscator L disable random rnd initial_secrets"
    and "tag_fits tag v"
    and "ptr = makeTaggedPointer_withObfuscator L S tag v"
  shows "isTaggedPointer L ptr \<and>
    (isExtTaggedPointer L S ptr \<longleftrightarrow> \<not> tag \<le> 6) \<and>
    (isBasicTaggedPointer L S ptr \<longleftrightarrow> tag \<le> 6) \<and>
    getTaggedPointerTag_withObfuscator L S ptr = tag \<and>
    getTaggedPointerValue_withObfuscator L S ptr = v \<and>
    getTaggedPointerSignedValue_withObfuscator L S ptr =
      signed_take_bit (if tag \<le> 6 then 59 else 51) v"
proof -
  have w: "wf_secrets L S" unfolding assms(3) by (rule initialize_wf_secrets [OF assms(1,2)])
  note p = assms(1) w assms(4)
  show ?thesis
    unfolding assms(5)
    by (simp add: isTagged_make [OF p] classify_make [OF p] get_make_tag [OF p] get_make_value [OF p]
        get_make_signed_value [OF p] isBasicTaggedPointer_def)
qed

theorem tagged_pointer_roundtrip_witness:
  "let S = initializeTaggedPointerObfuscator tag_split False 0x123456789abcdef0 (\<lambda>k. k div 2) initial_secrets;
       ptr = makeTaggedPointer_withObfuscator tag_split S 3 42
   in tag_fits 3 42 \<and> getTaggedPointerTag_withObfuscator tag_split S ptr = 3 \<and>
      getTaggedPointerValue_withObfuscator tag_split S ptr = 42"
  using tagged_pointer_roundtrip
    [of tag_split "\<lambda>k. k div 2" _ False "0x123456789abcdef0" 3 42, OF _ _ refl _ refl]
  by (simp add: tag_fits_def Let_def)

text \<open>
  C6: Dispatch on tagged pointers. Once a class is registered for a tag, \<open>getIsa\<close> finds that
  class for every pointer made with the tag, whatever its payload: the slot computed from the
  obfuscated pointer is the slot the registration wrote. Registration also leaves the classes
  of all other tags as they were and keeps the class tables well formed.
\<close>

theorem tagged_dispatch:
  assumes "L \<in> {tag_split, tag_msb, tag_lsb}"
    and "\<forall>k\<le>7. 0 < k \<longrightarrow> rnd k < k"
    and "S = initializeTaggedPointerObfuscator L disable random rnd initial_secrets"
    and "wf_tag_state L S U T"
    and "registerTaggedPointerClass L S U T tag cls = Some T'" and "cls \<noteq> U"
  shows "(tag_fits tag v \<longrightarrow> getTaggedIsa L U T' (makeTaggedPointer_withObfuscator L S tag v) = cls) \<and>
    getClassForTag L S T' tag = cls \<and>
    (tag' \<noteq> tag \<longrightarrow> getClassForTag L S T' tag' = getClassForTag L S T tag') \<and>
    wf_tag_state L S U T'"
proof -
  have w: "wf_secrets L S" unfolding assms(3) by (rule initialize_wf_secrets [OF assms(1,2)])
  show ?thesis
    using register_effect [OF assms(1) w assms(4,5)] dispatch_registered [OF assms(1) w assms(4-6), of v] assms(6)
    by simp
qed

theorem tagged_dispatch_witness:
  "let S = initializeTaggedPointerObfuscator tag_split False 0x123456789abcdef0 (\<lambda>k. k div 2) initial_secrets in
   \<exists>T'. registerTaggedPointerClass tag_split S 0x1000 (initial_tag_state tag_split) 20 0x2000 = Some T' \<and>
     getTaggedIsa tag_split 0x1000 T' (makeTaggedPointer_withObfuscator tag_split S 20 99) = 0x2000"
proof -
  let ?S = "initializeTaggedPointerObfuscator tag_split False 0x123456789abcdef0 (\<lambda>k. k div 2) initial_secrets"
  have L: "tag_split \<in> {tag_split, tag_msb, tag_lsb}" and r: "\<forall>k\<le>7. 0 < k \<longrightarrow> k div 2 < (k :: nat)" by auto
  have w: "wf_secrets tag_split ?S" by (rule initialize_wf_secrets [OF L r])
  have i: "wf_tag_state tag_split ?S 0x1000 (initial_tag_state tag_split)"
    by (rule wf_initial_tag_state [OF L w]) simp
  obtain T' where "registerTaggedPointerClass tag_split ?S 0x1000 (initial_tag_state tag_split) 20 0x2000 = Some T'"
    by (cases "registerTaggedPointerClass tag_split ?S 0x1000 (initial_tag_state tag_split) 20 0x2000")
       (auto simp: register_fails_iff getClassForTag_initial [OF L w] mask_initial tag_layouts)
  moreover from tagged_dispatch [OF L r refl i this, of 99]
  have "getTaggedIsa tag_split 0x1000 T' (makeTaggedPointer_withObfuscator tag_split ?S 20 99) = 0x2000"
    by (simp add: tag_fits_def)
  ultimately show ?thesis unfolding Let_def by blast
qed


end
