(* ===== verification/Isa.thy ===== *)
theory Isa
  imports Prelude
begin

text \<open>
  The packed \<open>isa\<close> word of an object (\<^verbatim>\<open>runtime/isa.h\<close>, the union \<open>isa_t\<close> of
  \<^verbatim>\<open>runtime/objc-private.h\<close> and its methods in \<^verbatim>\<open>runtime/objc-object.h\<close>). The layouts the
  preprocessor selects for 64-bit targets are values of the record \<open>isa_layout\<close>; a field is
  its (position, width) in the word, and no pointer signing takes place. What the reference
  counting code relies on is the predicate \<open>wf_layout\<close>; the locale \<open>packed_isa\<close> derives the
  effect of the count arithmetic on every field from it, and is interpreted at the three
  layouts.
\<close>

section \<open>Layouts\<close>

record isa_layout =
  ISA_MASK :: u64
  ISA_MAGIC_MASK :: u64
  ISA_MAGIC_VALUE :: u64
  ISA_HAS_CXX_DTOR_BIT :: bool
  nonpointer_f :: bitfield
  has_assoc_f :: bitfield
  has_cxx_dtor_f :: bitfield
  shiftcls_f :: bitfield
  weakly_referenced_f :: bitfield
  has_sidetable_rc_f :: bitfield
  extra_rc_f :: bitfield
  RC_HAS_SIDETABLE_BIT :: nat
  RC_HALF :: u64

definition isa_arm64e :: isa_layout where
  "isa_arm64e = \<lparr>ISA_MASK = 0x007ffffffffffff8, ISA_MAGIC_MASK = 1, ISA_MAGIC_VALUE = 1,
     ISA_HAS_CXX_DTOR_BIT = False,
     nonpointer_f = (0, 1), has_assoc_f = (1, 1), has_cxx_dtor_f = (3, 0),
     shiftcls_f = (3, 52), weakly_referenced_f = (2, 1),
     has_sidetable_rc_f = (55, 1), extra_rc_f = (56, 8),
     RC_HAS_SIDETABLE_BIT = 55, RC_HALF = 2 ^ 7\<rparr>"

definition isa_arm64 :: isa_layout where
  "isa_arm64 = \<lparr>ISA_MASK = 0x0000000ffffffff8, ISA_MAGIC_MASK = 0x000003f000000001,
     ISA_MAGIC_VALUE = 0x000001a000000001, ISA_HAS_CXX_DTOR_BIT = True,
     nonpointer_f = (0, 1), has_assoc_f = (1, 1), has_cxx_dtor_f = (2, 1),
     shiftcls_f = (3, 33), weakly_referenced_f = (42, 1),
     has_sidetable_rc_f = (44, 1), extra_rc_f = (45, 19),
     RC_HAS_SIDETABLE_BIT = 44, RC_HALF = 2 ^ 18\<rparr>"

definition isa_x86_64 :: isa_layout where
  "isa_x86_64 = \<lparr>ISA_MASK = 0x00007ffffffffff8, ISA_MAGIC_MASK = 0x001f800000000001,
     ISA_MAGIC_VALUE = 0x001d800000000001, ISA_HAS_CXX_DTOR_BIT = True,
     nonpointer_f = (0, 1), has_assoc_f = (1, 1), has_cxx_dtor_f = (2, 1),
     shiftcls_f = (3, 44), weakly_referenced_f = (53, 1),
     has_sidetable_rc_f = (55, 1), extra_rc_f = (56, 8),
     RC_HAS_SIDETABLE_BIT = 55, RC_HALF = 2 ^ 7\<rparr>"

definition RC_ONE_BIT :: "isa_layout \<Rightarrow> nat" where
  "RC_ONE_BIT L = RC_HAS_SIDETABLE_BIT L + 1"

definition RC_ONE :: "isa_layout \<Rightarrow> u64" where
  "RC_ONE L = push_bit (RC_ONE_BIT L) 1"

section \<open>The fields of an isa word\<close>

definition nonpointer :: "isa_layout \<Rightarrow> u64 \<Rightarrow> bool" where
  "nonpointer L b \<longleftrightarrow> bf_get (nonpointer_f L) b \<noteq> 0"

definition has_assoc :: "isa_layout \<Rightarrow> u64 \<Rightarrow> bool" where
  "has_assoc L b \<longleftrightarrow> bf_get (has_assoc_f L) b \<noteq> 0"

definition has_cxx_dtor :: "isa_layout \<Rightarrow> u64 \<Rightarrow> bool" where
  "has_cxx_dtor L b \<longleftrightarrow> bf_get (has_cxx_dtor_f L) b \<noteq> 0"

definition weakly_referenced :: "isa_layout \<Rightarrow> u64 \<Rightarrow> bool" where
  "weakly_referenced L b \<longleftrightarrow> bf_get (weakly_referenced_f L) b \<noteq> 0"

definition has_sidetable_rc :: "isa_layout \<Rightarrow> u64 \<Rightarrow> bool" where
  "has_sidetable_rc L b \<longleftrightarrow> bf_get (has_sidetable_rc_f L) b \<noteq> 0"

definition extra_rc :: "isa_layout \<Rightarrow> u64 \<Rightarrow> u64" where
  "extra_rc L b = bf_get (extra_rc_f L) b"

definition put_flag :: "bitfield \<Rightarrow> bool \<Rightarrow> u64 \<Rightarrow> u64" where
  "put_flag f v b = bf_put f (of_bool v) b"

definition isDeallocating :: "isa_layout \<Rightarrow> u64 \<Rightarrow> bool" where
  "isDeallocating L b \<longleftrightarrow> extra_rc L b = 0 \<and> \<not> has_sidetable_rc L b"

definition setDeallocating :: "isa_layout \<Rightarrow> u64 \<Rightarrow> u64" where
  "setDeallocating L b = put_flag (has_sidetable_rc_f L) False (bf_put (extra_rc_f L) 0 b)"

definition setClass :: "isa_layout \<Rightarrow> u64 \<Rightarrow> u64 \<Rightarrow> u64" where
  "setClass L newCls b = bf_put (shiftcls_f L) (drop_bit 3 newCls) b"

definition getClass :: "isa_layout \<Rightarrow> u64 \<Rightarrow> u64" where
  "getClass L b = b AND ISA_MASK L"

definition getDecodedClass :: "isa_layout \<Rightarrow> u64 \<Rightarrow> u64" where
  "getDecodedClass L b = getClass L b"

section \<open>Carry arithmetic\<close>

text \<open>\<open>addc\<close> and \<open>subc\<close> of \<^verbatim>\<open>objc-os.h\<close>: the result and the carry out.\<close>

definition addc :: "u64 \<Rightarrow> u64 \<Rightarrow> u64 \<Rightarrow> u64 \<times> bool" where
  "addc lhs rhs carryin = (lhs + rhs + carryin, 2 ^ 64 \<le> unat lhs + unat rhs + unat carryin)"

definition subc :: "u64 \<Rightarrow> u64 \<Rightarrow> u64 \<Rightarrow> u64 \<times> bool" where
  "subc lhs rhs carryin = (lhs - rhs - carryin, unat lhs < unat rhs + unat carryin)"

section \<open>What the clients rely on\<close>

definition low_fields :: "isa_layout \<Rightarrow> bitfield list" where
  "low_fields L = [nonpointer_f L, has_assoc_f L, has_cxx_dtor_f L, shiftcls_f L, weakly_referenced_f L]"

definition wf_layout :: "isa_layout \<Rightarrow> bool" where
  "wf_layout L \<longleftrightarrow>
     RC_ONE_BIT L < 63 \<and>
     extra_rc_f L = (RC_ONE_BIT L, 64 - RC_ONE_BIT L) \<and>
     has_sidetable_rc_f L = (RC_HAS_SIDETABLE_BIT L, 1) \<and>
     RC_HALF L = 2 ^ (63 - RC_ONE_BIT L) \<and>
     nonpointer_f L = (0, 1) \<and> snd (has_assoc_f L) = 1 \<and> snd (weakly_referenced_f L) = 1 \<and>
     (ISA_HAS_CXX_DTOR_BIT L \<longrightarrow> snd (has_cxx_dtor_f L) = 1) \<and>
     fst (shiftcls_f L) = 3 \<and> ISA_MASK L = push_bit 3 (mask (snd (shiftcls_f L))) \<and>
     list_all (\<lambda>f. fst f + snd f \<le> RC_HAS_SIDETABLE_BIT L) (low_fields L) \<and>
     sorted_wrt bf_disjoint (low_fields L) \<and>
     bf_get (nonpointer_f L) (ISA_MAGIC_VALUE L) = 1 \<and>
     list_all (\<lambda>f. bf_get f (ISA_MAGIC_VALUE L) = 0)
       (extra_rc_f L # has_sidetable_rc_f L # tl (low_fields L)) \<and>
     ISA_MAGIC_VALUE L AND ISA_MAGIC_MASK L = ISA_MAGIC_VALUE L"

definition same_meta :: "isa_layout \<Rightarrow> u64 \<Rightarrow> u64 \<Rightarrow> bool" where
  "same_meta L b b' \<longleftrightarrow> list_all (\<lambda>f. bf_get f b = bf_get f b') (low_fields L)"

lemma same_meta_refl [simp]: "same_meta L b b"
  by (simp add: same_meta_def low_fields_def)

lemma same_meta_sym: "same_meta L b b' \<Longrightarrow> same_meta L b' b"
  by (simp add: same_meta_def low_fields_def)

lemma same_meta_trans: "same_meta L a b \<Longrightarrow> same_meta L b c \<Longrightarrow> same_meta L a c"
  by (simp add: same_meta_def low_fields_def)

lemma bf_get_flag: "snd f = 1 \<Longrightarrow> fst f < 64 \<Longrightarrow> bf_get f (put_flag f v b) = of_bool v"
  by (simp add: put_flag_def bf_get_put_same)

lemma bf_get_flag_other: "bf_disjoint f g \<Longrightarrow> bf_get f (put_flag g v b) = bf_get f b"
  by (simp add: put_flag_def bf_get_put_other)

locale packed_isa =
  fixes L :: isa_layout
  assumes wf: "wf_layout L"
begin

lemma shape:
  "RC_ONE_BIT L < 63" "extra_rc_f L = (RC_ONE_BIT L, 64 - RC_ONE_BIT L)"
  "has_sidetable_rc_f L = (RC_HAS_SIDETABLE_BIT L, 1)" "RC_ONE_BIT L = Suc (RC_HAS_SIDETABLE_BIT L)"
  "RC_HALF L = 2 ^ (63 - RC_ONE_BIT L)" "nonpointer_f L = (0, 1)"
  "snd (has_assoc_f L) = 1" "snd (weakly_referenced_f L) = 1"
  using wf by (simp_all add: wf_layout_def RC_ONE_BIT_def)

lemma extra_rc_drop: "extra_rc L b = drop_bit (RC_ONE_BIT L) b"
  by (intro bit_word_eqI) (auto simp: extra_rc_def bit_bf_get shape bit_simps dest: bit_imp_le_length)

lemma unat_extra_rc: "unat (extra_rc L b) = unat b div 2 ^ RC_ONE_BIT L"
  by (simp only: extra_rc_drop unat_drop_bit)

lemma unat_RC_ONE: "unat (RC_ONE L) = 2 ^ RC_ONE_BIT L"
  using shape(1) by (simp add: RC_ONE_def unat_push_bit_1 del: push_bit_of_1)

lemma rc_range: "2 ^ 64 = 2 ^ (64 - RC_ONE_BIT L) * (2 ^ RC_ONE_BIT L :: nat)"
  using shape(1) by (simp flip: power_add)

lemma unat_extra_rc_less: "unat (extra_rc L b) < 2 ^ (64 - RC_ONE_BIT L)"
proof -
  show ?thesis using unat_less_u64 [of b] unfolding unat_extra_rc rc_range by (rule less_mult_imp_div_less)
qed

lemma unat_low: "unat (take_bit (RC_ONE_BIT L) b) = unat b mod 2 ^ RC_ONE_BIT L"
  by (rule unat_take_bit)

lemma add_RC_ONE:
  assumes "Suc (unat (extra_rc L b)) < 2 ^ (64 - RC_ONE_BIT L)"
  shows "addc b (RC_ONE L) 0 = (b + RC_ONE L, False)"
    and "unat (extra_rc L (b + RC_ONE L)) = Suc (unat (extra_rc L b))"
    and "take_bit (RC_ONE_BIT L) (b + RC_ONE L) = take_bit (RC_ONE_BIT L) b"
proof -
  let ?K = "2 ^ RC_ONE_BIT L :: nat"
  have "unat b < Suc (unat b div ?K) * ?K" by (simp add: dividend_less_div_times)
  moreover have "Suc (unat b div ?K) * ?K + ?K \<le> 2 ^ 64"
  proof -
    have "Suc (Suc (unat b div ?K)) * ?K \<le> 2 ^ (64 - RC_ONE_BIT L) * ?K"
      using assms unfolding unat_extra_rc by (intro mult_le_mono1) simp
    then show ?thesis unfolding rc_range by simp
  qed
  ultimately have l: "unat b + ?K < 2 ^ 64" by linarith
  then have u: "unat (b + RC_ONE L) = unat b + ?K"
    using unat_add_lem [of b "RC_ONE L"] by (simp add: unat_RC_ONE)
  show "addc b (RC_ONE L) 0 = (b + RC_ONE L, False)" using l by (simp add: addc_def unat_RC_ONE)
  show "unat (extra_rc L (b + RC_ONE L)) = Suc (unat (extra_rc L b))"
    by (simp add: unat_extra_rc u div_add_self2)
  show "take_bit (RC_ONE_BIT L) (b + RC_ONE L) = take_bit (RC_ONE_BIT L) b"
    by (simp add: word_unat_eq_iff unat_low u)
qed

lemma add_RC_ONE_carry:
  assumes "\<not> Suc (unat (extra_rc L b)) < 2 ^ (64 - RC_ONE_BIT L)"
  shows "snd (addc b (RC_ONE L) 0)"
    and "take_bit (RC_ONE_BIT L) (fst (addc b (RC_ONE L) 0)) = take_bit (RC_ONE_BIT L) b"
proof -
  let ?K = "2 ^ RC_ONE_BIT L :: nat"
  have "2 ^ (64 - RC_ONE_BIT L) * ?K \<le> Suc (unat b div ?K) * ?K"
    using assms unfolding unat_extra_rc by (intro mult_le_mono1) simp
  also have "\<dots> \<le> unat b + ?K" by (simp add: add_mult_distrib)
  finally show "snd (addc b (RC_ONE L) 0)" unfolding rc_range [symmetric] by (simp add: addc_def unat_RC_ONE)
  have "?K dvd 2 ^ 64" unfolding rc_range by simp
  then have "unat (b + RC_ONE L) mod ?K = unat b mod ?K"
    by (simp add: unat_word_ariths(1) unat_RC_ONE mod_mod_cancel)
  then show "take_bit (RC_ONE_BIT L) (fst (addc b (RC_ONE L) 0)) = take_bit (RC_ONE_BIT L) b"
    by (simp add: addc_def word_unat_eq_iff unat_low)
qed

lemma sub_RC_ONE:
  assumes "extra_rc L b \<noteq> 0"
  shows "subc b (RC_ONE L) 0 = (b - RC_ONE L, False)"
    and "unat (extra_rc L (b - RC_ONE L)) = unat (extra_rc L b) - 1"
    and "take_bit (RC_ONE_BIT L) (b - RC_ONE L) = take_bit (RC_ONE_BIT L) b"
proof -
  let ?K = "2 ^ RC_ONE_BIT L :: nat"
  have "unat b div ?K \<noteq> 0" using assms by (simp add: word_unat_eq_iff unat_extra_rc)
  then have l: "?K \<le> unat b" by (metis div_less not_le)
  then have u: "unat (b - RC_ONE L) = unat b - ?K"
    by (simp add: unat_sub word_le_nat_alt unat_RC_ONE)
  show "subc b (RC_ONE L) 0 = (b - RC_ONE L, False)" using l by (simp add: subc_def unat_RC_ONE)
  show "unat (extra_rc L (b - RC_ONE L)) = unat (extra_rc L b) - 1"
    using l by (simp add: unat_extra_rc u le_div_geq)
  show "take_bit (RC_ONE_BIT L) (b - RC_ONE L) = take_bit (RC_ONE_BIT L) b"
    using l by (simp add: word_unat_eq_iff unat_low u le_mod_geq)
qed

lemma sub_RC_ONE_borrow: "extra_rc L b = 0 \<Longrightarrow> snd (subc b (RC_ONE L) 0)"
proof -
  assume "extra_rc L b = 0"
  then have "unat b div 2 ^ RC_ONE_BIT L = 0" using unat_extra_rc [of b] by simp
  then show ?thesis by (simp add: subc_def unat_RC_ONE div_eq_0_iff)
qed

lemma low_field_bound: "f \<in> set (low_fields L) \<Longrightarrow> fst f + snd f \<le> RC_HAS_SIDETABLE_BIT L"
  using wf by (auto simp: wf_layout_def list_all_iff)

lemma low_fields_disjoint:
  "bf_disjoint (nonpointer_f L) (has_assoc_f L)" "bf_disjoint (nonpointer_f L) (has_cxx_dtor_f L)"
  "bf_disjoint (nonpointer_f L) (shiftcls_f L)" "bf_disjoint (nonpointer_f L) (weakly_referenced_f L)"
  "bf_disjoint (has_assoc_f L) (has_cxx_dtor_f L)" "bf_disjoint (has_assoc_f L) (shiftcls_f L)"
  "bf_disjoint (has_assoc_f L) (weakly_referenced_f L)" "bf_disjoint (has_cxx_dtor_f L) (shiftcls_f L)"
  "bf_disjoint (has_cxx_dtor_f L) (weakly_referenced_f L)" "bf_disjoint (shiftcls_f L) (weakly_referenced_f L)"
proof -
  have s: "sorted_wrt bf_disjoint (low_fields L)" using wf by (simp only: wf_layout_def)
  have d: "bf_disjoint (low_fields L ! i) (low_fields L ! j)" if "i < j" "j < 5" for i j
    by (rule sorted_wrt_nth_less [OF s that(1)]) (use that(2) in \<open>simp add: low_fields_def\<close>)
  show "bf_disjoint (nonpointer_f L) (has_assoc_f L)" "bf_disjoint (nonpointer_f L) (has_cxx_dtor_f L)"
    "bf_disjoint (nonpointer_f L) (shiftcls_f L)" "bf_disjoint (nonpointer_f L) (weakly_referenced_f L)"
    using d [of 0 1] d [of 0 2] d [of 0 3] d [of 0 4] by (simp_all add: low_fields_def)
  show "bf_disjoint (has_assoc_f L) (has_cxx_dtor_f L)" "bf_disjoint (has_assoc_f L) (shiftcls_f L)"
    "bf_disjoint (has_assoc_f L) (weakly_referenced_f L)" "bf_disjoint (has_cxx_dtor_f L) (shiftcls_f L)"
    using d [of 1 2] d [of 1 3] d [of 1 4] d [of 2 3] by (simp_all add: low_fields_def)
  show "bf_disjoint (has_cxx_dtor_f L) (weakly_referenced_f L)" "bf_disjoint (shiftcls_f L) (weakly_referenced_f L)"
    using d [of 2 4] d [of 3 4] by (simp_all add: low_fields_def)
qed

lemma low_bits:
  assumes "take_bit (RC_ONE_BIT L) b = take_bit (RC_ONE_BIT L) b'"
  shows "same_meta L b b'" and "has_sidetable_rc L b = has_sidetable_rc L b'"
proof -
  have n: "bit b n = bit b' n" if "n < RC_ONE_BIT L" for n
    using assms [THEN arg_cong, of "\<lambda>w. bit w n"] that by (simp add: bit_take_bit_iff)
  have f: "bf_get f b = bf_get f b'" if "fst f + snd f \<le> RC_ONE_BIT L" for f
    by (rule bit_word_eqI) (use n that in \<open>auto simp: bit_bf_get\<close>)
  have "fst f + snd f \<le> RC_ONE_BIT L" if "f \<in> set (low_fields L)" for f
    using low_field_bound [OF that] shape(4) by simp
  then show "same_meta L b b'" using f by (auto simp: same_meta_def list_all_iff)
  show "has_sidetable_rc L b = has_sidetable_rc L b'"
    using f [of "has_sidetable_rc_f L"] shape by (simp add: has_sidetable_rc_def)
qed

lemma put_extra_rc:
  shows "extra_rc L (bf_put (extra_rc_f L) v b) = take_bit (64 - RC_ONE_BIT L) v"
    and "has_sidetable_rc L (bf_put (extra_rc_f L) v b) = has_sidetable_rc L b"
    and "same_meta L (bf_put (extra_rc_f L) v b) b"
proof -
  show "extra_rc L (bf_put (extra_rc_f L) v b) = take_bit (64 - RC_ONE_BIT L) v"
    using shape(1) by (simp add: extra_rc_def bf_get_put_same shape(2))
  have "take_bit (RC_ONE_BIT L) (bf_put (extra_rc_f L) v b) = take_bit (RC_ONE_BIT L) b"
    by (rule bit_word_eqI) (auto simp: bit_take_bit_iff bit_bf_put shape(2))
  from low_bits [OF this] show "same_meta L (bf_put (extra_rc_f L) v b) b"
    and "has_sidetable_rc L (bf_put (extra_rc_f L) v b) = has_sidetable_rc L b" .
qed

lemma put_has_sidetable_rc:
  shows "extra_rc L (put_flag (has_sidetable_rc_f L) v b) = extra_rc L b"
    and "has_sidetable_rc L (put_flag (has_sidetable_rc_f L) v b) = v"
    and "same_meta L (put_flag (has_sidetable_rc_f L) v b) b"
proof -
  show "extra_rc L (put_flag (has_sidetable_rc_f L) v b) = extra_rc L b"
    by (simp add: extra_rc_def bf_get_flag_other shape(2,3,4))
  show "has_sidetable_rc L (put_flag (has_sidetable_rc_f L) v b) = v"
    using shape(1,4) by (simp add: has_sidetable_rc_def bf_get_flag shape(3))
  show "same_meta L (put_flag (has_sidetable_rc_f L) v b) b"
    using low_field_bound by (auto simp: same_meta_def list_all_iff shape(3) intro!: bf_get_flag_other)
qed

lemma shiftcls_shape: "fst (shiftcls_f L) = 3" "ISA_MASK L = push_bit 3 (mask (snd (shiftcls_f L)))"
  using wf by (simp_all only: wf_layout_def)

lemma getClass_field: "getClass L b = push_bit 3 (bf_get (shiftcls_f L) b)"
  by (rule bit_word_eqI) (auto simp: getClass_def shiftcls_shape bit_simps bit_bf_get)

lemma same_metaD:
  assumes "same_meta L b b'"
  shows "nonpointer L b = nonpointer L b'" "has_assoc L b = has_assoc L b'"
    "has_cxx_dtor L b = has_cxx_dtor L b'" "weakly_referenced L b = weakly_referenced L b'"
    "getClass L b = getClass L b'"
  using assms unfolding getClass_field
  by (simp_all add: same_meta_def low_fields_def nonpointer_def has_assoc_def has_cxx_dtor_def
      weakly_referenced_def)

lemma setClass_fields:
  shows "extra_rc L (setClass L cls b) = extra_rc L b"
    and "has_sidetable_rc L (setClass L cls b) = has_sidetable_rc L b"
    and "nonpointer L (setClass L cls b) = nonpointer L b"
    and "has_assoc L (setClass L cls b) = has_assoc L b"
    and "has_cxx_dtor L (setClass L cls b) = has_cxx_dtor L b"
    and "weakly_referenced L (setClass L cls b) = weakly_referenced L b"
proof -
  note d = setClass_def extra_rc_def has_sidetable_rc_def nonpointer_def has_assoc_def
      has_cxx_dtor_def weakly_referenced_def
  have w: "bf_disjoint (weakly_referenced_f L) (shiftcls_f L)"
    using low_fields_disjoint(10) by (elim disjE) (rule disjI2, assumption, rule disjI1, assumption)
  have b: "fst (shiftcls_f L) + snd (shiftcls_f L) \<le> RC_HAS_SIDETABLE_BIT L"
    using low_field_bound by (simp add: low_fields_def)
  show "extra_rc L (setClass L cls b) = extra_rc L b"
    unfolding d by (rule bf_get_put_other) (use b shape in simp)
  show "has_sidetable_rc L (setClass L cls b) = has_sidetable_rc L b"
    unfolding d by (subst bf_get_put_other) (use b shape in simp_all)
  show "nonpointer L (setClass L cls b) = nonpointer L b"
    unfolding d by (subst bf_get_put_other [OF low_fields_disjoint(3)]) (rule refl)
  show "has_assoc L (setClass L cls b) = has_assoc L b"
    unfolding d by (subst bf_get_put_other [OF low_fields_disjoint(6)]) (rule refl)
  show "has_cxx_dtor L (setClass L cls b) = has_cxx_dtor L b"
    unfolding d by (subst bf_get_put_other [OF low_fields_disjoint(8)]) (rule refl)
  show "weakly_referenced L (setClass L cls b) = weakly_referenced L b"
    unfolding d by (subst bf_get_put_other [OF w]) (rule refl)
qed

lemma getClass_setClass: "cls AND ISA_MASK L = cls \<Longrightarrow> getClass L (setClass L cls b) = cls"
proof -
  assume c: "cls AND ISA_MASK L = cls"
  have "fst (shiftcls_f L) + snd (shiftcls_f L) \<le> 64"
    using low_field_bound [of "shiftcls_f L"] shape(1,4) by (simp add: low_fields_def)
  then have "getClass L (setClass L cls b) = push_bit 3 (take_bit (snd (shiftcls_f L)) (drop_bit 3 cls))"
    by (simp add: getClass_field setClass_def bf_get_put_same)
  moreover have "\<dots> = cls AND ISA_MASK L"
    by (intro bit_word_eqI) (auto simp: shiftcls_shape bit_simps)
  ultimately show ?thesis using c by simp
qed

lemma magic_fields:
  shows "extra_rc L (ISA_MAGIC_VALUE L) = 0" and "\<not> has_sidetable_rc L (ISA_MAGIC_VALUE L)"
    and "nonpointer L (ISA_MAGIC_VALUE L)" and "\<not> has_assoc L (ISA_MAGIC_VALUE L)"
    and "\<not> has_cxx_dtor L (ISA_MAGIC_VALUE L)" and "\<not> weakly_referenced L (ISA_MAGIC_VALUE L)"
proof -
  have "bf_get (nonpointer_f L) (ISA_MAGIC_VALUE L) = 1"
    "list_all (\<lambda>f. bf_get f (ISA_MAGIC_VALUE L) = 0) (extra_rc_f L # has_sidetable_rc_f L # tl (low_fields L))"
    using wf unfolding wf_layout_def by blast+
  then show "extra_rc L (ISA_MAGIC_VALUE L) = 0" and "\<not> has_sidetable_rc L (ISA_MAGIC_VALUE L)"
    and "nonpointer L (ISA_MAGIC_VALUE L)" and "\<not> has_assoc L (ISA_MAGIC_VALUE L)"
    and "\<not> has_cxx_dtor L (ISA_MAGIC_VALUE L)" and "\<not> weakly_referenced L (ISA_MAGIC_VALUE L)"
    by (simp_all add: low_fields_def extra_rc_def has_sidetable_rc_def nonpointer_def
        has_assoc_def has_cxx_dtor_def weakly_referenced_def)
qed

end

interpretation arm64: packed_isa isa_arm64
  by unfold_locales code_simp

interpretation arm64e: packed_isa isa_arm64e
  by unfold_locales code_simp

interpretation x86_64: packed_isa isa_x86_64
  by unfold_locales code_simp

end
