(* ===== verification/SideTable.thy ===== *)
theory SideTable
  imports TaggedPointers Isa
begin

text \<open>
  The state of the runtime that reference counting works on, and the side tables
  (\<^verbatim>\<open>runtime/NSObject.mm\<close>, with \<open>StripedMap\<close> of \<^verbatim>\<open>runtime/objc-private.h\<close>). A state
  \<open>objc_rt\<close> holds the isa word of every address, the striped array of side tables, the
  contents of the registered weak variables, and the messages the runtime has sent. A side
  table has its lock, its retain counts (a finite map from object to \<open>size_t\<close>) and its weak
  table (a map from referent to the addresses of its weak variables). The field
  \<open>others_delta\<close> is a ghost: it adds up what the other threads have done to the count of the
  object an operation works on, and no operation of the runtime reads or writes it.

  Taking a lock that is held, or releasing one that is not, ends in \<open>None\<close>, as a failing
  \<open>ASSERT\<close> does: the lock implementation aborts in both cases.
\<close>

section \<open>State and configuration\<close>

record side_table =
  slock :: bool
  refcnts :: "u64 \<rightharpoonup> u64"
  weak_table :: "u64 \<rightharpoonup> u64 list"

datatype message =
    Msg_dealloc u64 | Msg_initiateDealloc u64 | Msg_noteAssociatedObjects u64
  | Weak_error u64 | Free u64 | Object_dispose u64 | Pool_autorelease u64

record objc_rt =
  isa_mem :: "u64 \<Rightarrow> u64"
  SideTables :: "nat \<Rightarrow> side_table"
  weak_vars :: "u64 \<Rightarrow> u64"
  messages :: "message list"
  others_delta :: int

record class_info =
  hasCustomRR :: bool
  canCallSwiftRR :: bool
  isMetaClass :: bool
  class_hasCxxDtor :: bool
  instancesRequireRawIsa :: bool
  isFuture :: bool
  hasCustomDeallocInitiation :: bool
  implements_noteAssociatedObjects :: bool

record objc_cfg =
  isa_l :: isa_layout
  tag_l :: tag_layout
  StripeCount :: nat
  classes :: "u64 \<Rightarrow> class_info"
  DisableNonpointerIsa :: bool

definition assert_opt :: "bool \<Rightarrow> unit option" where
  "assert_opt b = (if b then Some () else None)"

abbreviation (input) SIDE_TABLE_WEAKLY_REFERENCED :: u64 where "SIDE_TABLE_WEAKLY_REFERENCED \<equiv> 1"
abbreviation (input) SIDE_TABLE_DEALLOCATING :: u64 where "SIDE_TABLE_DEALLOCATING \<equiv> 2"
abbreviation (input) SIDE_TABLE_RC_ONE :: u64 where "SIDE_TABLE_RC_ONE \<equiv> 4"
abbreviation (input) SIDE_TABLE_RC_PINNED :: u64 where "SIDE_TABLE_RC_PINNED \<equiv> 0x8000000000000000"
abbreviation (input) SIDE_TABLE_RC_SHIFT :: nat where "SIDE_TABLE_RC_SHIFT \<equiv> 2"
abbreviation (input) SIDE_TABLE_FLAG_MASK :: u64 where "SIDE_TABLE_FLAG_MASK \<equiv> 3"

section \<open>The striped map\<close>

definition indexForPointer :: "nat \<Rightarrow> u64 \<Rightarrow> nat" where
  "indexForPointer stripes addr = unat (drop_bit 4 addr XOR drop_bit 9 addr) mod stripes"

definition table_of :: "objc_cfg \<Rightarrow> u64 \<Rightarrow> objc_rt \<Rightarrow> side_table" where
  "table_of c obj st = SideTables st (indexForPointer (StripeCount c) obj)"

definition map_table :: "objc_cfg \<Rightarrow> u64 \<Rightarrow> (side_table \<Rightarrow> side_table) \<Rightarrow> objc_rt \<Rightarrow> objc_rt" where
  "map_table c obj f st =
     (let i = indexForPointer (StripeCount c) obj in
      st\<lparr>SideTables := (SideTables st)(i := f (SideTables st i))\<rparr>)"

definition isa_of :: "u64 \<Rightarrow> objc_rt \<Rightarrow> u64" where
  "isa_of obj st = isa_mem st obj"

definition set_isa :: "u64 \<Rightarrow> u64 \<Rightarrow> objc_rt \<Rightarrow> objc_rt" where
  "set_isa obj b st = st\<lparr>isa_mem := (isa_mem st)(obj := b)\<rparr>"

definition refcnt_at :: "objc_cfg \<Rightarrow> u64 \<Rightarrow> objc_rt \<Rightarrow> u64 option" where
  "refcnt_at c obj st = refcnts (table_of c obj st) obj"

definition set_refcnt :: "objc_cfg \<Rightarrow> u64 \<Rightarrow> u64 option \<Rightarrow> objc_rt \<Rightarrow> objc_rt" where
  "set_refcnt c obj v = map_table c obj (\<lambda>t. t\<lparr>refcnts := (refcnts t)(obj := v)\<rparr>)"

text \<open>\<open>lockAll\<close> and \<open>unlockAll\<close> of the striped map, over the stripes \<open>0, 1, \<dots>\<close> in order.\<close>

fun lockAll_from :: "nat \<Rightarrow> nat \<Rightarrow> objc_rt \<Rightarrow> objc_rt option" where
  "lockAll_from i 0 st = Some st"
| "lockAll_from i (Suc n) st =
     (if slock (SideTables st i) then None
      else lockAll_from (Suc i) n
        (st\<lparr>SideTables := (SideTables st)(i := (SideTables st i)\<lparr>slock := True\<rparr>)\<rparr>))"

fun unlockAll_from :: "nat \<Rightarrow> nat \<Rightarrow> objc_rt \<Rightarrow> objc_rt option" where
  "unlockAll_from i 0 st = Some st"
| "unlockAll_from i (Suc n) st =
     (if \<not> slock (SideTables st i) then None
      else unlockAll_from (Suc i) n
        (st\<lparr>SideTables := (SideTables st)(i := (SideTables st i)\<lparr>slock := False\<rparr>)\<rparr>))"

definition lockAll :: "objc_cfg \<Rightarrow> objc_rt \<Rightarrow> objc_rt option" where
  "lockAll c = lockAll_from 0 (StripeCount c)"

definition unlockAll :: "objc_cfg \<Rightarrow> objc_rt \<Rightarrow> objc_rt option" where
  "unlockAll c = unlockAll_from 0 (StripeCount c)"

section \<open>Side table operations on one object\<close>

definition set_lock :: "objc_cfg \<Rightarrow> u64 \<Rightarrow> bool \<Rightarrow> objc_rt \<Rightarrow> objc_rt" where
  "set_lock c obj b = map_table c obj (\<lambda>t. t\<lparr>slock := b\<rparr>)"

definition sidetable_lock :: "objc_cfg \<Rightarrow> u64 \<Rightarrow> objc_rt \<Rightarrow> objc_rt option" where
  "sidetable_lock c obj st =
     (if slock (table_of c obj st) then None
      else Some (set_lock c obj True st))"

definition sidetable_unlock :: "objc_cfg \<Rightarrow> u64 \<Rightarrow> objc_rt \<Rightarrow> objc_rt option" where
  "sidetable_unlock c obj st =
     (if slock (table_of c obj st) then Some (set_lock c obj False st)
      else None)"

definition sidetable_moveExtraRC_nolock ::
  "objc_cfg \<Rightarrow> u64 \<Rightarrow> u64 \<Rightarrow> bool \<Rightarrow> bool \<Rightarrow> objc_rt \<Rightarrow> objc_rt option" where
  "sidetable_moveExtraRC_nolock c obj rc deallocating weaklyReferenced st = do {
     assert_opt (\<not> nonpointer (isa_l c) (isa_of obj st));
     let oldRefcnt = (case refcnt_at c obj st of Some v \<Rightarrow> v | None \<Rightarrow> 0);
     assert_opt (oldRefcnt AND SIDE_TABLE_DEALLOCATING = 0);
     assert_opt (oldRefcnt AND SIDE_TABLE_WEAKLY_REFERENCED = 0);
     let (sum, carry) = addc oldRefcnt (push_bit SIDE_TABLE_RC_SHIFT (rc - 1)) 0;
     let refcnt = (if carry then SIDE_TABLE_RC_PINNED else sum);
     let refcnt = (if deallocating then refcnt OR SIDE_TABLE_DEALLOCATING else refcnt);
     let refcnt = (if weaklyReferenced then refcnt OR SIDE_TABLE_WEAKLY_REFERENCED else refcnt);
     Some (set_refcnt c obj (Some refcnt) st)
   }"

definition sidetable_addExtraRC_nolock :: "objc_cfg \<Rightarrow> u64 \<Rightarrow> u64 \<Rightarrow> objc_rt \<Rightarrow> (bool \<times> objc_rt) option" where
  "sidetable_addExtraRC_nolock c obj delta_rc st = do {
     assert_opt (nonpointer (isa_l c) (isa_of obj st));
     let oldRefcnt = (case refcnt_at c obj st of Some v \<Rightarrow> v | None \<Rightarrow> 0);
     let st0 = set_refcnt c obj (Some oldRefcnt) st;
     assert_opt (oldRefcnt AND SIDE_TABLE_DEALLOCATING = 0);
     assert_opt (oldRefcnt AND SIDE_TABLE_WEAKLY_REFERENCED = 0);
     if oldRefcnt AND SIDE_TABLE_RC_PINNED \<noteq> 0 then Some (True, st0)
     else
       let (newRefcnt, carry) = addc oldRefcnt (push_bit SIDE_TABLE_RC_SHIFT delta_rc) 0 in
       if carry then
         Some (True, set_refcnt c obj
                 (Some (SIDE_TABLE_RC_PINNED OR (oldRefcnt AND SIDE_TABLE_FLAG_MASK))) st0)
       else Some (False, set_refcnt c obj (Some newRefcnt) st0)
   }"

record SidetableBorrow =
  borrowed :: u64
  remaining :: u64

definition sidetable_subExtraRC_nolock ::
  "objc_cfg \<Rightarrow> u64 \<Rightarrow> u64 \<Rightarrow> objc_rt \<Rightarrow> (SidetableBorrow \<times> objc_rt) option" where
  "sidetable_subExtraRC_nolock c obj delta_rc st = do {
     assert_opt (nonpointer (isa_l c) (isa_of obj st));
     case refcnt_at c obj st of
       None \<Rightarrow> Some (\<lparr>borrowed = 0, remaining = 0\<rparr>, st)
     | Some oldRefcnt \<Rightarrow>
         if oldRefcnt = 0 then Some (\<lparr>borrowed = 0, remaining = 0\<rparr>, st)
         else do {
           assert_opt (oldRefcnt AND SIDE_TABLE_DEALLOCATING = 0);
           assert_opt (oldRefcnt AND SIDE_TABLE_WEAKLY_REFERENCED = 0);
           let newRefcnt = oldRefcnt - push_bit SIDE_TABLE_RC_SHIFT delta_rc;
           assert_opt (newRefcnt < oldRefcnt);
           Some (\<lparr>borrowed = delta_rc, remaining = drop_bit SIDE_TABLE_RC_SHIFT newRefcnt\<rparr>,
                 set_refcnt c obj (Some newRefcnt) st)
         }
   }"

definition sidetable_getExtraRC_nolock :: "objc_cfg \<Rightarrow> u64 \<Rightarrow> objc_rt \<Rightarrow> u64 option" where
  "sidetable_getExtraRC_nolock c obj st = do {
     assert_opt (nonpointer (isa_l c) (isa_of obj st));
     Some (case refcnt_at c obj st of None \<Rightarrow> 0 | Some v \<Rightarrow> drop_bit SIDE_TABLE_RC_SHIFT v)
   }"

text \<open>\<open>table.refcnts.erase(it)\<close> needs an iterator at an entry; erasing \<open>end()\<close> is an error.\<close>

definition sidetable_clearExtraRC_nolock :: "objc_cfg \<Rightarrow> u64 \<Rightarrow> objc_rt \<Rightarrow> objc_rt option" where
  "sidetable_clearExtraRC_nolock c obj st = do {
     assert_opt (nonpointer (isa_l c) (isa_of obj st));
     assert_opt (refcnt_at c obj st \<noteq> None);
     Some (set_refcnt c obj None st)
   }"

definition sidetable_retain :: "objc_cfg \<Rightarrow> u64 \<Rightarrow> bool \<Rightarrow> objc_rt \<Rightarrow> (u64 \<times> objc_rt) option" where
  "sidetable_retain c obj locked st = do {
     assert_opt (\<not> nonpointer (isa_l c) (isa_of obj st));
     st1 \<leftarrow> (if locked then Some st else sidetable_lock c obj st);
     let refcnt = (case refcnt_at c obj st1 of Some v \<Rightarrow> v | None \<Rightarrow> 0);
     let refcnt = (if refcnt AND SIDE_TABLE_RC_PINNED = 0 then refcnt + SIDE_TABLE_RC_ONE else refcnt);
     st2 \<leftarrow> sidetable_unlock c obj (set_refcnt c obj (Some refcnt) st1);
     Some (obj, st2)
   }"

definition sidetable_tryRetain :: "objc_cfg \<Rightarrow> u64 \<Rightarrow> objc_rt \<Rightarrow> (bool \<times> objc_rt) option" where
  "sidetable_tryRetain c obj st = do {
     assert_opt (\<not> nonpointer (isa_l c) (isa_of obj st));
     case refcnt_at c obj st of
       None \<Rightarrow> Some (True, set_refcnt c obj (Some SIDE_TABLE_RC_ONE) st)
     | Some refcnt \<Rightarrow>
         if refcnt AND SIDE_TABLE_DEALLOCATING \<noteq> 0 then Some (False, st)
         else if refcnt AND SIDE_TABLE_RC_PINNED = 0
           then Some (True, set_refcnt c obj (Some (refcnt + SIDE_TABLE_RC_ONE)) st)
         else Some (True, st)
   }"

definition sidetable_retainCount :: "objc_cfg \<Rightarrow> u64 \<Rightarrow> objc_rt \<Rightarrow> (u64 \<times> objc_rt) option" where
  "sidetable_retainCount c obj st = do {
     st1 \<leftarrow> sidetable_lock c obj st;
     let refcnt_result = (case refcnt_at c obj st1 of
         None \<Rightarrow> 1 | Some v \<Rightarrow> 1 + drop_bit SIDE_TABLE_RC_SHIFT v);
     st2 \<leftarrow> sidetable_unlock c obj st1;
     Some (refcnt_result, st2)
   }"

definition sidetable_isDeallocating :: "objc_cfg \<Rightarrow> u64 \<Rightarrow> objc_rt \<Rightarrow> bool" where
  "sidetable_isDeallocating c obj st =
     (case refcnt_at c obj st of None \<Rightarrow> False | Some v \<Rightarrow> v AND SIDE_TABLE_DEALLOCATING \<noteq> 0)"

definition sidetable_isWeaklyReferenced :: "objc_cfg \<Rightarrow> u64 \<Rightarrow> objc_rt \<Rightarrow> (bool \<times> objc_rt) option" where
  "sidetable_isWeaklyReferenced c obj st = do {
     st1 \<leftarrow> sidetable_lock c obj st;
     let result = (case refcnt_at c obj st1 of
         None \<Rightarrow> False | Some v \<Rightarrow> v AND SIDE_TABLE_WEAKLY_REFERENCED \<noteq> 0);
     st2 \<leftarrow> sidetable_unlock c obj st1;
     Some (result, st2)
   }"

definition sidetable_setWeaklyReferenced_nolock :: "objc_cfg \<Rightarrow> u64 \<Rightarrow> objc_rt \<Rightarrow> objc_rt option" where
  "sidetable_setWeaklyReferenced_nolock c obj st = do {
     assert_opt (\<not> nonpointer (isa_l c) (isa_of obj st));
     let refcnt = (case refcnt_at c obj st of Some v \<Rightarrow> v | None \<Rightarrow> 0);
     Some (set_refcnt c obj (Some (refcnt OR SIDE_TABLE_WEAKLY_REFERENCED)) st)
   }"

definition class_of :: "objc_cfg \<Rightarrow> u64 \<Rightarrow> objc_rt \<Rightarrow> class_info" where
  "class_of c obj st = classes c (getDecodedClass (isa_l c) (isa_of obj st))"

definition performDealloc :: "objc_cfg \<Rightarrow> u64 \<Rightarrow> objc_rt \<Rightarrow> objc_rt" where
  "performDealloc c obj st =
     (if hasCustomDeallocInitiation (class_of c obj st)
      then st\<lparr>messages := messages st @ [Msg_initiateDealloc obj]\<rparr>
      else st\<lparr>messages := messages st @ [Msg_dealloc obj]\<rparr>)"

definition sidetable_release ::
  "objc_cfg \<Rightarrow> u64 \<Rightarrow> bool \<Rightarrow> bool \<Rightarrow> objc_rt \<Rightarrow> (bool \<times> objc_rt) option" where
  "sidetable_release c obj locked perform st = do {
     assert_opt (\<not> nonpointer (isa_l c) (isa_of obj st));
     st1 \<leftarrow> (if locked then Some st else sidetable_lock c obj st);
     let (do_dealloc, st2) = (case refcnt_at c obj st1 of
         None \<Rightarrow> (True, set_refcnt c obj (Some SIDE_TABLE_DEALLOCATING) st1)
       | Some refcnt \<Rightarrow>
           if refcnt < SIDE_TABLE_DEALLOCATING
             then (True, set_refcnt c obj (Some (refcnt OR SIDE_TABLE_DEALLOCATING)) st1)
           else if refcnt AND SIDE_TABLE_RC_PINNED = 0
             then (False, set_refcnt c obj (Some (refcnt - SIDE_TABLE_RC_ONE)) st1)
           else (False, st1));
     st3 \<leftarrow> sidetable_unlock c obj st2;
     Some (do_dealloc, if do_dealloc \<and> perform then performDealloc c obj st3 else st3)
   }"

section \<open>Clearing an object out of its side table\<close>

definition clear_referrer :: "u64 \<Rightarrow> u64 \<Rightarrow> objc_rt \<Rightarrow> objc_rt" where
  "clear_referrer referent referrer st =
     (if weak_vars st referrer = referent then st\<lparr>weak_vars := (weak_vars st)(referrer := 0)\<rparr>
      else if weak_vars st referrer \<noteq> 0 then st\<lparr>messages := messages st @ [Weak_error referrer]\<rparr>
      else st)"

definition weak_clear_no_lock :: "objc_cfg \<Rightarrow> u64 \<Rightarrow> objc_rt \<Rightarrow> objc_rt" where
  "weak_clear_no_lock c referent st =
     (case weak_table (table_of c referent st) referent of
        None \<Rightarrow> st
      | Some referrers \<Rightarrow>
          map_table c referent (\<lambda>t. t\<lparr>weak_table := (weak_table t)(referent := None)\<rparr>)
            (fold (clear_referrer referent) referrers st))"

definition sidetable_clearDeallocating :: "objc_cfg \<Rightarrow> u64 \<Rightarrow> objc_rt \<Rightarrow> objc_rt option" where
  "sidetable_clearDeallocating c obj st = do {
     st1 \<leftarrow> sidetable_lock c obj st;
     let st2 = (case refcnt_at c obj st1 of
         None \<Rightarrow> st1
       | Some v \<Rightarrow> set_refcnt c obj None
           (if v AND SIDE_TABLE_WEAKLY_REFERENCED \<noteq> 0 then weak_clear_no_lock c obj st1 else st1));
     sidetable_unlock c obj st2
   }"

definition sidetable_present :: "objc_cfg \<Rightarrow> u64 \<Rightarrow> objc_rt \<Rightarrow> (bool \<times> objc_rt) option" where
  "sidetable_present c obj st = do {
     st1 \<leftarrow> sidetable_lock c obj st;
     let result = (refcnt_at c obj st1 \<noteq> None \<or> weak_table (table_of c obj st1) obj \<noteq> None);
     st2 \<leftarrow> sidetable_unlock c obj st1;
     Some (result, st2)
   }"

definition clearDeallocating_slow :: "objc_cfg \<Rightarrow> u64 \<Rightarrow> objc_rt \<Rightarrow> objc_rt option" where
  "clearDeallocating_slow c obj st = do {
     let b = isa_of obj st;
     assert_opt (nonpointer (isa_l c) b \<and> (weakly_referenced (isa_l c) b \<or> has_sidetable_rc (isa_l c) b));
     st1 \<leftarrow> sidetable_lock c obj st;
     let st2 = (if weakly_referenced (isa_l c) b then weak_clear_no_lock c obj st1 else st1);
     let st3 = (if has_sidetable_rc (isa_l c) b then set_refcnt c obj None st2 else st2);
     sidetable_unlock c obj st3
   }"

section \<open>Reading after writing\<close>

definition side_locked :: "objc_cfg \<Rightarrow> u64 \<Rightarrow> objc_rt \<Rightarrow> bool" where
  "side_locked c obj st = slock (table_of c obj st)"

named_theorems rt_frame "reading a part of the state after writing another"

lemma rt_frame_isa [rt_frame]:
  "isa_of o1 (set_isa o2 b st) = (if o1 = o2 then b else isa_of o1 st)"
  "isa_of o1 (set_refcnt c o2 v st) = isa_of o1 st"
  "isa_of o1 (set_lock c o2 l st) = isa_of o1 st"
  by (simp_all add: isa_of_def set_isa_def set_refcnt_def set_lock_def map_table_def Let_def)

lemma rt_frame_refcnt [rt_frame]:
  "refcnt_at c o1 (set_isa o2 b st) = refcnt_at c o1 st"
  "refcnt_at c o1 (set_refcnt c o2 v st) = (if o1 = o2 then v else refcnt_at c o1 st)"
  "refcnt_at c o1 (set_lock c o2 l st) = refcnt_at c o1 st"
  by (simp_all add: refcnt_at_def table_of_def set_isa_def set_refcnt_def set_lock_def map_table_def Let_def)

lemma rt_frame_lock [rt_frame]:
  "side_locked c o1 (set_isa o2 b st) = side_locked c o1 st"
  "side_locked c o1 (set_refcnt c o2 v st) = side_locked c o1 st"
  "side_locked c o1 (set_lock c o2 l st) =
     (if indexForPointer (StripeCount c) o1 = indexForPointer (StripeCount c) o2 then l else side_locked c o1 st)"
  by (simp_all add: side_locked_def table_of_def set_isa_def set_refcnt_def set_lock_def map_table_def Let_def)

lemma rt_frame_rest [rt_frame]:
  "messages (set_isa o1 b st) = messages st" "messages (set_refcnt c o1 v st) = messages st"
  "messages (set_lock c o1 l st) = messages st"
  "others_delta (set_isa o1 b st) = others_delta st" "others_delta (set_refcnt c o1 v st) = others_delta st"
  "others_delta (set_lock c o1 l st) = others_delta st"
  "weak_vars (set_isa o1 b st) = weak_vars st" "weak_vars (set_refcnt c o1 v st) = weak_vars st"
  "weak_vars (set_lock c o1 l st) = weak_vars st"
  "weak_table (table_of c o1 (set_isa o2 b st)) = weak_table (table_of c o1 st)"
  "weak_table (table_of c o1 (set_refcnt c o2 v st)) = weak_table (table_of c o1 st)"
  "weak_table (table_of c o1 (set_lock c o2 l st)) = weak_table (table_of c o1 st)"
  by (simp_all add: table_of_def set_isa_def set_refcnt_def set_lock_def map_table_def Let_def)

lemma sidetable_lock_eq:
  "sidetable_lock c obj st = (if side_locked c obj st then None else Some (set_lock c obj True st))"
  by (simp add: sidetable_lock_def side_locked_def)

lemma sidetable_unlock_eq:
  "sidetable_unlock c obj st = (if side_locked c obj st then Some (set_lock c obj False st) else None)"
  by (simp add: sidetable_unlock_def side_locked_def)

lemma set_lock_merge [simp]:
  "set_lock c obj a (set_lock c obj b st) = set_lock c obj a st"
  by (simp add: set_lock_def map_table_def Let_def)

lemma set_lock_same: "side_locked c obj st = b \<Longrightarrow> set_lock c obj b st = st"
proof -
  let ?t = "SideTables st (indexForPointer (StripeCount c) obj)"
  assume "side_locked c obj st = b"
  then have "?t\<lparr>slock := b\<rparr> = ?t" by (cases ?t) (simp add: side_locked_def table_of_def)
  then show ?thesis by (simp add: set_lock_def map_table_def Let_def)
qed

lemma set_lock_commute:
  "set_lock c obj b (set_refcnt c o1 v st) = set_refcnt c o1 v (set_lock c obj b st)"
  "set_lock c obj b (set_isa o1 w st) = set_isa o1 w (set_lock c obj b st)"
  by (auto simp: set_lock_def set_refcnt_def set_isa_def map_table_def Let_def fun_eq_iff)

end
