(* ===== verification/Refcount.thy ===== *)
theory Refcount
  imports SideTable
begin

text \<open>
  Retain, release and the rest of an object's life (\<^verbatim>\<open>runtime/objc-object.h\<close>, with the slow
  paths of \<^verbatim>\<open>runtime/NSObject.mm\<close>). The compare-and-swap loops run against a schedule of
  interference: at every load and every conditional store of the isa word, the schedule says
  whether another thread gets in first and what it leaves behind. A thread that changes
  \<open>has_sidetable_rc\<close> or turns the isa into a raw pointer holds the side table lock while it
  does so, hence such a step cannot happen while the running operation has that lock.
\<close>

section \<open>Interference\<close>

datatype interference = Quiet | Interfere u64 "u64 option"

definition pair_count :: "isa_layout \<Rightarrow> u64 \<Rightarrow> u64 option \<Rightarrow> nat" where
  "pair_count L b e =
     unat (extra_rc L b) +
     (if has_sidetable_rc L b then case e of None \<Rightarrow> 0 | Some v \<Rightarrow> unat v div 4 else 0)"

definition env_step :: "objc_cfg \<Rightarrow> u64 \<Rightarrow> u64 \<Rightarrow> u64 option \<Rightarrow> objc_rt \<Rightarrow> objc_rt" where
  "env_step c obj v e st =
     (let L = isa_l c; b = isa_of obj st;
          st' = (if side_locked c obj st then
                   if nonpointer L v \<and> has_sidetable_rc L v = has_sidetable_rc L b then set_isa obj v st else st
                 else set_refcnt c obj e (set_isa obj v st)) in
      st'\<lparr>others_delta := others_delta st +
            (int (pair_count L (isa_of obj st') (refcnt_at c obj st')) -
             int (pair_count L b (refcnt_at c obj st)))\<rparr>)"

fun interferes :: "interference list \<Rightarrow> bool" where
  "interferes (Interfere v e # rest) \<longleftrightarrow> True"
| "interferes _ \<longleftrightarrow> False"

fun env_next :: "objc_cfg \<Rightarrow> u64 \<Rightarrow> interference list \<Rightarrow> objc_rt \<Rightarrow> objc_rt" where
  "env_next c obj (Interfere v e # rest) st = env_step c obj v e st"
| "env_next c obj _ st = st"

definition LoadExclusive ::
  "objc_cfg \<Rightarrow> u64 \<Rightarrow> interference list \<Rightarrow> objc_rt \<Rightarrow> u64 \<times> interference list \<times> objc_rt" where
  "LoadExclusive c obj sched st =
     (let st' = env_next c obj sched st in (isa_of obj st', tl sched, st'))"

text \<open>
  \<open>StoreExclusive\<close> and \<open>StoreReleaseExclusive\<close>: whether the store happened, the value of
  \<open>oldisa\<close> afterwards, the rest of the schedule and the state.
\<close>

definition StoreExclusive ::
  "objc_cfg \<Rightarrow> u64 \<Rightarrow> u64 \<Rightarrow> u64 \<Rightarrow> interference list \<Rightarrow> objc_rt \<Rightarrow>
     bool \<times> u64 \<times> interference list \<times> objc_rt" where
  "StoreExclusive c obj oldisa newisa sched st =
     (if interferes sched then
        let st' = env_next c obj sched st in (False, isa_of obj st', tl sched, st')
      else (True, oldisa, tl sched, set_isa obj newisa st))"

lemma interferes_length: "interferes sched \<Longrightarrow> 0 < length sched"
  by (cases sched) auto

section \<open>Retain\<close>

datatype RRVariant = Full | Fast | FastOrMsgSend

datatype retain_next =
    Retain_return u64 "interference list" objc_rt
  | Retain_overflow "interference list" objc_rt
  | Retain_retry bool u64 "interference list" objc_rt

text \<open>One turn of the \<open>do \<dots> while\<close> loop of \<open>rootRetain\<close>, and the code after the loop.\<close>

definition rootRetain_step ::
  "objc_cfg \<Rightarrow> u64 \<Rightarrow> bool \<Rightarrow> RRVariant \<Rightarrow> bool \<Rightarrow> u64 \<Rightarrow> interference list \<Rightarrow> objc_rt \<Rightarrow>
     retain_next option" where
  "rootRetain_step c obj tryRetain variant sideTableLocked oldisa sched st =
     (let L = isa_l c in
      if \<not> nonpointer L oldisa then
        if tryRetain then do {
          (ok, st') \<leftarrow> sidetable_tryRetain c obj st;
          Some (Retain_return (if ok then obj else 0) sched st')
        } else do {
          (r, st') \<leftarrow> sidetable_retain c obj sideTableLocked st;
          Some (Retain_return r sched st')
        }
      else if isDeallocating L oldisa then do {
        st' \<leftarrow> (if sideTableLocked then do {
                  assert_opt (variant = Full);
                  sidetable_unlock c obj st
                } else Some st);
        Some (Retain_return (if tryRetain then 0 else obj) sched st')
      }
      else
        let (bits, carry) = addc oldisa (RC_ONE L) 0 in
        if carry \<and> variant \<noteq> Full then Some (Retain_overflow sched st)
        else do {
          st1 \<leftarrow> (if carry \<and> \<not> tryRetain \<and> \<not> sideTableLocked then sidetable_lock c obj st else Some st);
          let locked = (sideTableLocked \<or> carry);
          let newisa = (if carry
            then put_flag (has_sidetable_rc_f L) True (bf_put (extra_rc_f L) (RC_HALF L) bits)
            else bits);
          let (stored, oldisa', sched', st2) = StoreExclusive c obj oldisa newisa sched st1;
          if \<not> stored then Some (Retain_retry locked oldisa' sched' st2)
          else if variant = Full then do {
            st3 \<leftarrow> (if carry then do {
                      (_, st') \<leftarrow> sidetable_addExtraRC_nolock c obj (RC_HALF L) st2;
                      Some st'
                    } else Some st2);
            st4 \<leftarrow> (if \<not> tryRetain \<and> locked then sidetable_unlock c obj st3 else Some st3);
            Some (Retain_return obj sched' st4)
          } else do {
            assert_opt (\<not> carry);
            assert_opt (\<not> locked);
            Some (Retain_return obj sched' st2)
          }
        })"

lemma rootRetain_step_shorter:
  assumes "rootRetain_step c obj t v l a sched st = Some (Retain_retry l' a' sched' st')"
  shows "length sched' < length sched"
  using assms unfolding rootRetain_step_def Let_def StoreExclusive_def addc_def
  by (auto simp: Option.bind_eq_Some_conv dest: interferes_length split: if_splits)

datatype retain_result = Retained u64 | Call_swiftRetain | Send_retain

datatype retain_exit = Exit_return u64 | Exit_overflow

function rootRetain_loop ::
  "objc_cfg \<Rightarrow> u64 \<Rightarrow> bool \<Rightarrow> RRVariant \<Rightarrow> bool \<Rightarrow> u64 \<Rightarrow> interference list \<Rightarrow> objc_rt \<Rightarrow>
     (retain_exit \<times> interference list \<times> objc_rt) option" where
  "rootRetain_loop c obj tryRetain variant locked oldisa sched st =
     (case rootRetain_step c obj tryRetain variant locked oldisa sched st of
        None \<Rightarrow> None
      | Some (Retain_return r sched' st') \<Rightarrow> Some (Exit_return r, sched', st')
      | Some (Retain_overflow sched' st') \<Rightarrow> Some (Exit_overflow, sched', st')
      | Some (Retain_retry locked' oldisa' sched' st') \<Rightarrow>
          rootRetain_loop c obj tryRetain variant locked' oldisa' sched' st')"
  by pat_completeness auto
termination
  by (relation "measure (\<lambda>(c, obj, t, v, l, a, sched, st). length sched)")
     (auto dest: rootRetain_step_shorter)

declare rootRetain_loop.simps [simp del]

text \<open>
  The code before the loop, and the loop. \<open>rootRetain_overflow\<close> is \<open>rootRetain\<close> again with the
  variant \<open>Full\<close>, which never takes the overflow exit.
\<close>

definition rootRetain_body ::
  "objc_cfg \<Rightarrow> u64 \<Rightarrow> bool \<Rightarrow> RRVariant \<Rightarrow> interference list \<Rightarrow> objc_rt \<Rightarrow>
     ((retain_result + interference list) \<times> objc_rt) option" where
  "rootRetain_body c obj tryRetain variant sched st =
     (if isTaggedPointer (tag_l c) obj then Some (Inl (Retained obj), st)
      else
        let (oldisa, sched1, st1) = LoadExclusive c obj sched st;
            cls = classes c (getDecodedClass (isa_l c) oldisa) in
        if variant = FastOrMsgSend \<and> hasCustomRR cls then
          Some (Inl (if canCallSwiftRR cls then Call_swiftRetain else Send_retain), st1)
        else if \<not> nonpointer (isa_l c) oldisa \<and> isMetaClass cls then Some (Inl (Retained obj), st1)
        else do {
          (x, sched2, st2) \<leftarrow> rootRetain_loop c obj tryRetain variant False oldisa sched1 st1;
          Some (case x of Exit_return r \<Rightarrow> Inl (Retained r) | Exit_overflow \<Rightarrow> Inr sched2, st2)
        })"

definition rootRetain_overflow ::
  "objc_cfg \<Rightarrow> u64 \<Rightarrow> bool \<Rightarrow> interference list \<Rightarrow> objc_rt \<Rightarrow> (retain_result \<times> objc_rt) option" where
  "rootRetain_overflow c obj tryRetain sched st = do {
     (r, st') \<leftarrow> rootRetain_body c obj tryRetain Full sched st;
     case r of Inl r' \<Rightarrow> Some (r', st') | Inr _ \<Rightarrow> None
   }"

definition rootRetain ::
  "objc_cfg \<Rightarrow> u64 \<Rightarrow> bool \<Rightarrow> RRVariant \<Rightarrow> interference list \<Rightarrow> objc_rt \<Rightarrow>
     (retain_result \<times> objc_rt) option" where
  "rootRetain c obj tryRetain variant sched st = do {
     (r, st') \<leftarrow> rootRetain_body c obj tryRetain variant sched st;
     case r of Inl r' \<Rightarrow> Some (r', st')
     | Inr sched' \<Rightarrow> rootRetain_overflow c obj tryRetain sched' st'
   }"

section \<open>Release\<close>

datatype release_next =
    Release_return bool "interference list" objc_rt
  | Release_underflow "interference list" objc_rt
  | Release_retry bool u64 "interference list" objc_rt

text \<open>The code at the label \<open>deallocate\<close>.\<close>

definition release_deallocate ::
  "objc_cfg \<Rightarrow> u64 \<Rightarrow> bool \<Rightarrow> bool \<Rightarrow> u64 \<Rightarrow> interference list \<Rightarrow> objc_rt \<Rightarrow> release_next option" where
  "release_deallocate c obj perform sideTableLocked newisa sched st = do {
     assert_opt (isDeallocating (isa_l c) newisa);
     assert_opt (isDeallocating (isa_l c) (isa_of obj st));
     st1 \<leftarrow> (if sideTableLocked then sidetable_unlock c obj st else Some st);
     Some (Release_return True sched (if perform then performDealloc c obj st1 else st1))
   }"

text \<open>
  The borrowing part of the code at the label \<open>underflow\<close>, with the side table locked: the
  first conditional store, the second one right after it when the first fails, and putting
  the counts back when that fails too.
\<close>

definition release_borrow ::
  "objc_cfg \<Rightarrow> u64 \<Rightarrow> bool \<Rightarrow> u64 \<Rightarrow> interference list \<Rightarrow> objc_rt \<Rightarrow> release_next option" where
  "release_borrow c obj perform oldisa sched st = do {
     let L = isa_l c;
     (borrow, st1) \<leftarrow> sidetable_subExtraRC_nolock c obj (RC_HALF L) st;
     let emptySideTable = (remaining borrow = 0);
     if borrowed borrow > 0 then
       let newisa = put_flag (has_sidetable_rc_f L) (\<not> emptySideTable)
             (bf_put (extra_rc_f L) (borrowed borrow - 1) oldisa);
           (stored1, oldisa1, sched1, st2) = StoreExclusive c obj oldisa newisa sched st1;
           (bits, overflow) = addc oldisa1 (RC_ONE L * (borrowed borrow - 1)) 0;
           newisa2 = put_flag (has_sidetable_rc_f L) (\<not> emptySideTable) bits;
           (stored, didTransitionToDeallocating, newisa, sched2, st3) =
             (if \<not> stored1 \<and> nonpointer L oldisa1 then
                if \<not> overflow then
                  let (stored2, _, sched', st') = StoreExclusive c obj oldisa1 newisa2 sched1 st2 in
                  (stored2, stored2 \<and> isDeallocating L newisa2, newisa2, sched', st')
                else (False, False, newisa2, sched1, st2)
              else (stored1, False, newisa, sched1, st2)) in
       if \<not> stored then do {
         (_, st4) \<leftarrow> sidetable_addExtraRC_nolock c obj (borrowed borrow) st3;
         let (oldisa', sched3, st5) = LoadExclusive c obj sched2 st4;
         Some (Release_retry True oldisa' sched3 st5)
       } else do {
         st4 \<leftarrow> (if emptySideTable then sidetable_clearExtraRC_nolock c obj st3 else Some st3);
         if \<not> didTransitionToDeallocating then do {
           st5 \<leftarrow> sidetable_unlock c obj st4;
           Some (Release_return False sched2 st5)
         } else release_deallocate c obj perform True newisa sched2 st4
       }
     else release_deallocate c obj perform True oldisa sched st1
   }"

text \<open>One turn of the \<open>retry\<close> loop of \<open>rootRelease\<close>, with what follows it.\<close>

definition rootRelease_step ::
  "objc_cfg \<Rightarrow> u64 \<Rightarrow> bool \<Rightarrow> RRVariant \<Rightarrow> bool \<Rightarrow> u64 \<Rightarrow> interference list \<Rightarrow> objc_rt \<Rightarrow>
     release_next option" where
  "rootRelease_step c obj perform variant sideTableLocked oldisa sched st =
     (let L = isa_l c in
      if \<not> nonpointer L oldisa then do {
        (r, st') \<leftarrow> sidetable_release c obj sideTableLocked perform st;
        Some (Release_return r sched st')
      }
      else if isDeallocating L oldisa then do {
        st' \<leftarrow> (if sideTableLocked then do {
                  assert_opt (variant = Full);
                  sidetable_unlock c obj st
                } else Some st);
        Some (Release_return False sched st')
      }
      else
        let (newisa, carry) = subc oldisa (RC_ONE L) 0 in
        if \<not> carry then
          let (stored, oldisa', sched', st1) = StoreExclusive c obj oldisa newisa sched st in
          if \<not> stored then Some (Release_retry sideTableLocked oldisa' sched' st1)
          else if isDeallocating L newisa then
            release_deallocate c obj perform sideTableLocked newisa sched' st1
          else if variant = Full then do {
            st2 \<leftarrow> (if sideTableLocked then sidetable_unlock c obj st1 else Some st1);
            Some (Release_return False sched' st2)
          } else do {
            assert_opt (\<not> sideTableLocked);
            Some (Release_return False sched' st1)
          }
        else if has_sidetable_rc L oldisa then
          if variant \<noteq> Full then Some (Release_underflow sched st)
          else if \<not> sideTableLocked then do {
            st1 \<leftarrow> sidetable_lock c obj st;
            let (oldisa', sched', st2) = LoadExclusive c obj sched st1;
            Some (Release_retry True oldisa' sched' st2)
          }
          else release_borrow c obj perform oldisa sched st
        else release_deallocate c obj perform sideTableLocked oldisa sched st)"

lemma release_deallocate_no_retry:
  "release_deallocate c obj p l n sched st \<noteq> Some (Release_retry l' a' sched' st')"
  by (auto simp: release_deallocate_def assert_opt_def Option.bind_eq_Some_conv split: if_splits)

lemma release_borrow_shorter:
  assumes "release_borrow c obj p a sched st = Some (Release_retry l' a' sched' st')"
  shows "length sched' < length sched \<and> l'"
  using assms unfolding release_borrow_def Let_def StoreExclusive_def LoadExclusive_def addc_def
  by (auto simp: Option.bind_eq_Some_conv release_deallocate_no_retry dest: interferes_length split: if_splits)

lemma rootRelease_step_shorter:
  assumes "rootRelease_step c obj p v l a sched st = Some (Release_retry l' a' sched' st')"
  shows "length sched' < length sched \<or> length sched' = length sched \<and> l' \<and> \<not> l"
  using assms unfolding rootRelease_step_def Let_def StoreExclusive_def LoadExclusive_def subc_def
  by (cases sched)
     (auto simp: Option.bind_eq_Some_conv release_deallocate_no_retry
        dest: release_borrow_shorter split: if_splits)

datatype release_exit = Exit_released bool | Exit_underflow

function rootRelease_loop ::
  "objc_cfg \<Rightarrow> u64 \<Rightarrow> bool \<Rightarrow> RRVariant \<Rightarrow> bool \<Rightarrow> u64 \<Rightarrow> interference list \<Rightarrow> objc_rt \<Rightarrow>
     (release_exit \<times> interference list \<times> objc_rt) option" where
  "rootRelease_loop c obj perform variant locked oldisa sched st =
     (case rootRelease_step c obj perform variant locked oldisa sched st of
        None \<Rightarrow> None
      | Some (Release_return r sched' st') \<Rightarrow> Some (Exit_released r, sched', st')
      | Some (Release_underflow sched' st') \<Rightarrow> Some (Exit_underflow, sched', st')
      | Some (Release_retry locked' oldisa' sched' st') \<Rightarrow>
          rootRelease_loop c obj perform variant locked' oldisa' sched' st')"
  by pat_completeness auto
termination
  by (relation "measures [\<lambda>(c, obj, p, v, l, a, sched, st). length sched,
                          \<lambda>(c, obj, p, v, l, a, sched, st). if l then 0 else 1]")
     (auto dest!: rootRelease_step_shorter)

declare rootRelease_loop.simps [simp del]

datatype release_result = Released bool | Call_swiftRelease | Send_release

definition rootRelease_body ::
  "objc_cfg \<Rightarrow> u64 \<Rightarrow> bool \<Rightarrow> RRVariant \<Rightarrow> interference list \<Rightarrow> objc_rt \<Rightarrow>
     ((release_result + interference list) \<times> objc_rt) option" where
  "rootRelease_body c obj perform variant sched st =
     (if isTaggedPointer (tag_l c) obj then Some (Inl (Released False), st)
      else
        let (oldisa, sched1, st1) = LoadExclusive c obj sched st;
            cls = classes c (getDecodedClass (isa_l c) oldisa) in
        if variant = FastOrMsgSend \<and> hasCustomRR cls then
          Some (Inl (if canCallSwiftRR cls then Call_swiftRelease else Send_release), st1)
        else if \<not> nonpointer (isa_l c) oldisa \<and> isMetaClass cls then Some (Inl (Released False), st1)
        else do {
          (x, sched2, st2) \<leftarrow> rootRelease_loop c obj perform variant False oldisa sched1 st1;
          Some (case x of Exit_released r \<Rightarrow> Inl (Released r) | Exit_underflow \<Rightarrow> Inr sched2, st2)
        })"

definition rootRelease_underflow ::
  "objc_cfg \<Rightarrow> u64 \<Rightarrow> bool \<Rightarrow> interference list \<Rightarrow> objc_rt \<Rightarrow> (release_result \<times> objc_rt) option" where
  "rootRelease_underflow c obj perform sched st = do {
     (r, st') \<leftarrow> rootRelease_body c obj perform Full sched st;
     case r of Inl r' \<Rightarrow> Some (r', st') | Inr _ \<Rightarrow> None
   }"

definition rootRelease ::
  "objc_cfg \<Rightarrow> u64 \<Rightarrow> bool \<Rightarrow> RRVariant \<Rightarrow> interference list \<Rightarrow> objc_rt \<Rightarrow>
     (release_result \<times> objc_rt) option" where
  "rootRelease c obj perform variant sched st = do {
     (r, st') \<leftarrow> rootRelease_body c obj perform variant sched st;
     case r of Inl r' \<Rightarrow> Some (r', st')
     | Inr sched' \<Rightarrow> rootRelease_underflow c obj perform sched' st'
   }"

section \<open>The entry points\<close>

definition retain :: "objc_cfg \<Rightarrow> u64 \<Rightarrow> interference list \<Rightarrow> objc_rt \<Rightarrow> (retain_result \<times> objc_rt) option" where
  "retain c obj sched st = do {
     assert_opt (\<not> isTaggedPointer (tag_l c) obj);
     rootRetain c obj False FastOrMsgSend sched st
   }"

definition rootTryRetain :: "objc_cfg \<Rightarrow> u64 \<Rightarrow> interference list \<Rightarrow> objc_rt \<Rightarrow> (bool \<times> objc_rt) option" where
  "rootTryRetain c obj sched st = do {
     (r, st') \<leftarrow> rootRetain c obj True Fast sched st;
     case r of Retained v \<Rightarrow> Some (v \<noteq> 0, st') | _ \<Rightarrow> None
   }"

definition release :: "objc_cfg \<Rightarrow> u64 \<Rightarrow> interference list \<Rightarrow> objc_rt \<Rightarrow> (release_result \<times> objc_rt) option" where
  "release c obj sched st = do {
     assert_opt (\<not> isTaggedPointer (tag_l c) obj);
     rootRelease c obj True FastOrMsgSend sched st
   }"

definition rootReleaseShouldDealloc ::
  "objc_cfg \<Rightarrow> u64 \<Rightarrow> interference list \<Rightarrow> objc_rt \<Rightarrow> (release_result \<times> objc_rt) option" where
  "rootReleaseShouldDealloc c obj sched st = rootRelease c obj False Fast sched st"

definition rootRetainCount :: "objc_cfg \<Rightarrow> u64 \<Rightarrow> objc_rt \<Rightarrow> (u64 \<times> objc_rt) option" where
  "rootRetainCount c obj st =
     (if isTaggedPointer (tag_l c) obj then Some (obj, st)
      else do {
        st1 \<leftarrow> sidetable_lock c obj st;
        let bits = isa_of obj st1;
        if nonpointer (isa_l c) bits then do {
          rc \<leftarrow> (if has_sidetable_rc (isa_l c) bits then do {
                   n \<leftarrow> sidetable_getExtraRC_nolock c obj st1;
                   Some (extra_rc (isa_l c) bits + n)
                 } else Some (extra_rc (isa_l c) bits));
          st2 \<leftarrow> sidetable_unlock c obj st1;
          Some (rc, st2)
        } else do {
          st2 \<leftarrow> sidetable_unlock c obj st1;
          sidetable_retainCount c obj st2
        }
      })"

section \<open>The count of an object and its invariant\<close>

text \<open>
  The pair of an isa word and a side table entry is consistent when the isa is packed and the
  side table has an entry exactly if \<open>has_sidetable_rc\<close> is set; the entry is then a positive
  multiple of \<open>RC_HALF\<close>, above the two flag bits, and below the bound \<open>B\<close>.
\<close>

definition rc_ok :: "nat \<Rightarrow> isa_layout \<Rightarrow> u64 \<Rightarrow> u64 option \<Rightarrow> bool" where
  "rc_ok B L b e \<longleftrightarrow>
     nonpointer L b \<and>
     (if has_sidetable_rc L b then
        (case e of None \<Rightarrow> False
         | Some v \<Rightarrow> v \<noteq> 0 \<and> 4 * unat (RC_HALF L) dvd unat v \<and> unat v < B)
      else e = None)"

definition retain_count :: "objc_cfg \<Rightarrow> u64 \<Rightarrow> objc_rt \<Rightarrow> nat" where
  "retain_count c obj st = pair_count (isa_l c) (isa_of obj st) (refcnt_at c obj st)"

definition object_ok :: "nat \<Rightarrow> objc_cfg \<Rightarrow> u64 \<Rightarrow> objc_rt \<Rightarrow> bool" where
  "object_ok B c obj st \<longleftrightarrow> rc_ok B (isa_l c) (isa_of obj st) (refcnt_at c obj st)"

text \<open>
  What the other threads may do: leave a consistent pair of a live object, of a class
  that does not override retain and release.
\<close>

definition rely :: "objc_cfg \<Rightarrow> interference list \<Rightarrow> bool" where
  "rely c sched \<longleftrightarrow>
     (\<forall>v e. Interfere v e \<in> set sched \<longrightarrow>
        rc_ok (2 ^ 62) (isa_l c) v e \<and> \<not> isDeallocating (isa_l c) v \<and>
        \<not> hasCustomRR (classes c (getDecodedClass (isa_l c) v)))"

text \<open>The count of the object without what the other threads have contributed.\<close>

definition net_count :: "objc_cfg \<Rightarrow> u64 \<Rightarrow> objc_rt \<Rightarrow> int" where
  "net_count c obj st = int (retain_count c obj st) - others_delta st"

definition others_same :: "objc_cfg \<Rightarrow> u64 \<Rightarrow> objc_rt \<Rightarrow> objc_rt \<Rightarrow> bool" where
  "others_same c obj st st' \<longleftrightarrow>
     (\<forall>x. x \<noteq> obj \<longrightarrow> isa_of x st' = isa_of x st \<and> refcnt_at c x st' = refcnt_at c x st) \<and>
     weak_vars st' = weak_vars st \<and> (\<forall>x. weak_table (table_of c x st') = weak_table (table_of c x st))"

lemma others_same_refl [simp]: "others_same c obj st st"
  by (simp add: others_same_def)

lemma others_same_trans: "others_same c obj a b \<Longrightarrow> others_same c obj b d \<Longrightarrow> others_same c obj a d"
  by (auto simp: others_same_def)

lemma others_same_set [simp]:
  "others_same c obj st (set_isa obj b st') \<longleftrightarrow> others_same c obj st st'"
  "others_same c obj st (set_refcnt c obj e st') \<longleftrightarrow> others_same c obj st st'"
  "others_same c obj st (set_lock c o1 l st') \<longleftrightarrow> others_same c obj st st'"
  by (auto simp: others_same_def rt_frame)

lemma rt_frame_delta [rt_frame]:
  "isa_of x (st\<lparr>others_delta := d\<rparr>) = isa_of x st"
  "refcnt_at c x (st\<lparr>others_delta := d\<rparr>) = refcnt_at c x st"
  "side_locked c x (st\<lparr>others_delta := d\<rparr>) = side_locked c x st"
  "others_same c obj st' (st\<lparr>others_delta := d\<rparr>) = others_same c obj st' st"
  by (simp_all add: isa_of_def refcnt_at_def table_of_def side_locked_def others_same_def)

lemma set_refcnt_merge [simp]: "set_refcnt c obj a (set_refcnt c obj b st) = set_refcnt c obj a st"
  by (simp add: set_refcnt_def map_table_def Let_def)

lemma net_count_env_step:
  "net_count c obj (env_step c obj v e st) = net_count c obj st"
  by (simp add: net_count_def retain_count_def env_step_def Let_def rt_frame)

lemma flag_bits:
  assumes "4 dvd unat (v :: u64)"
  shows "v AND 1 = 0" "v AND 2 = 0"
proof -
  have b: "bit v n = odd (unat v div 2 ^ n)" for n unfolding bit_unat [symmetric] by (rule bit_iff_odd)
  obtain k where k: "unat v = 4 * k" using assms ..
  have "\<not> bit v 0" "\<not> bit v 1" unfolding b by (simp_all add: k)
  then show "v AND 1 = 0" "v AND 2 = 0"
    by (simp_all add: and_eq_0_iff bit_1_iff bit_2_iff)
qed

lemma not_pinned: "unat (v :: u64) < 2 ^ 63 \<Longrightarrow> v AND 0x8000000000000000 = 0"
  using bit_less_exp [of v 63 63] by (auto simp: and_eq_0_iff bit_tag_masks simp del: bit_numeral_word_iff)

locale refcounting = packed_isa "isa_l c" for c :: objc_cfg
begin

abbreviation (input) "L \<equiv> isa_l c"
abbreviation (input) "H \<equiv> unat (RC_HALF (isa_l c))"

lemma half_shape:
  shows "2 ^ (64 - RC_ONE_BIT L) = 2 * H" and "2 \<le> H" and "4 * H \<le> 2 ^ 61"
    and "unat (push_bit 2 (RC_HALF L)) = 4 * H" and "take_bit (64 - RC_ONE_BIT L) (RC_HALF L) = RC_HALF L"
proof -
  let ?k = "63 - RC_ONE_BIT L"
  have k: "1 \<le> ?k" "?k \<le> 59"
  proof -
    show "1 \<le> ?k" using shape(1) by simp
    have "3 \<le> RC_HAS_SIDETABLE_BIT L"
      using low_field_bound [of "shiftcls_f L"] shiftcls_shape(1) by (simp add: low_fields_def)
    then show "?k \<le> 59" using shape(4) by simp
  qed
  have H: "RC_HALF L = push_bit ?k 1" using shape(5) by simp
  then have u: "H = 2 ^ ?k" using k unat_push_bit_1 [of ?k, where 'a = 64] by simp
  have s: "64 - RC_ONE_BIT L = Suc ?k" using shape(1) by simp
  show "2 ^ (64 - RC_ONE_BIT L) = 2 * H" unfolding s u by simp
  have "(2 :: nat) ^ 1 \<le> 2 ^ ?k" using k(1) by (intro power_increasing) simp_all
  then show "2 \<le> H" unfolding u by simp
  have "(2 :: nat) ^ ?k \<le> 2 ^ 59" using k(2) by (intro power_increasing) simp_all
  then show "4 * H \<le> 2 ^ 61" unfolding u by simp
  have "push_bit 2 (RC_HALF L) = push_bit (2 + ?k) 1" unfolding H by (simp only: push_bit_push_bit)
  then have "unat (push_bit 2 (RC_HALF L)) = 2 ^ (2 + ?k)"
    using k(2) unat_push_bit_1 [of "2 + ?k", where 'a = 64] by simp
  then show "unat (push_bit 2 (RC_HALF L)) = 4 * H" unfolding u by (simp add: power_add)
  show "take_bit (64 - RC_ONE_BIT L) (RC_HALF L) = RC_HALF L"
    by (rule take_bit_small) (simp add: s u)
qed

lemma entry_facts:
  assumes "rc_ok B L b (Some v)" and "B \<le> 2 ^ 63"
  shows "v \<noteq> 0" "v AND 1 = 0" "v AND 2 = 0" "v AND 0x8000000000000000 = 0" "4 * H \<le> unat v"
    "unat v < B" "4 * H dvd unat v"
proof -
  have v: "v \<noteq> 0" "4 * H dvd unat v" "unat v < B"
    using assms(1) by (auto simp: rc_ok_def split: if_splits)
  then show "v \<noteq> 0" "unat v < B" "4 * H dvd unat v" by simp_all
  have "4 dvd unat v" using v(2) by (rule dvd_mult_left)
  then show "v AND 1 = 0" "v AND 2 = 0" by (rule flag_bits)+
  show "v AND 0x8000000000000000 = 0" using v(3) assms(2) by (intro not_pinned) simp
  show "4 * H \<le> unat v" using v(1,2) by (intro dvd_imp_le) (simp_all add: word_unat_eq_iff)
qed

lemma unat_add_half:
  assumes "unat v < 2 ^ 62"
  shows "unat (v + push_bit 2 (RC_HALF L)) = unat v + 4 * H"
    and "addc v (push_bit 2 (RC_HALF L)) 0 = (v + push_bit 2 (RC_HALF L), False)"
proof -
  have "unat v + 4 * H < 2 ^ 64" using assms half_shape(3) by simp
  then show "unat (v + push_bit 2 (RC_HALF L)) = unat v + 4 * H"
    and "addc v (push_bit 2 (RC_HALF L)) 0 = (v + push_bit 2 (RC_HALF L), False)"
    using half_shape(4) unat_add_lem [of v "push_bit 2 (RC_HALF L)"] by (simp_all add: addc_def)
qed

lemma addExtraRC_ok:
  assumes "nonpointer L (isa_of obj st)"
    and "v = (case refcnt_at c obj st of None \<Rightarrow> 0 | Some w \<Rightarrow> w)" and "4 dvd unat v" and "unat v < 2 ^ 62"
  shows "sidetable_addExtraRC_nolock c obj (RC_HALF L) st =
    Some (False, set_refcnt c obj (Some (v + push_bit 2 (RC_HALF L))) st)"
proof -
  have "v AND 0x8000000000000000 = 0" using assms(4) by (intro not_pinned) simp
  then show ?thesis
    using assms flag_bits [OF assms(3)] unat_add_half(2) [OF assms(4)]
    by (simp add: sidetable_addExtraRC_nolock_def assert_opt_def Let_def)
qed

lemma subExtraRC_ok:
  assumes "rc_ok B L (isa_of obj st) (Some v)" "B \<le> 2 ^ 63" "refcnt_at c obj st = Some v"
  shows "sidetable_subExtraRC_nolock c obj (RC_HALF L) st =
    Some (\<lparr>borrowed = RC_HALF L, remaining = drop_bit 2 (v - push_bit 2 (RC_HALF L))\<rparr>,
          set_refcnt c obj (Some (v - push_bit 2 (RC_HALF L))) st)"
    and "unat (v - push_bit 2 (RC_HALF L)) = unat v - 4 * H"
    and "drop_bit 2 (v - push_bit 2 (RC_HALF L)) = 0 \<longleftrightarrow> unat v = 4 * H"
proof -
  note e = entry_facts [OF assms(1,2)]
  have n: "nonpointer L (isa_of obj st)" using assms(1) by (simp add: rc_ok_def)
  show u: "unat (v - push_bit 2 (RC_HALF L)) = unat v - 4 * H"
    using e(5) half_shape(4) by (simp add: unat_sub word_le_nat_alt)
  then have "v - push_bit 2 (RC_HALF L) < v" using e(5) half_shape(2) by (simp add: word_less_nat_alt)
  then show "sidetable_subExtraRC_nolock c obj (RC_HALF L) st =
    Some (\<lparr>borrowed = RC_HALF L, remaining = drop_bit 2 (v - push_bit 2 (RC_HALF L))\<rparr>,
          set_refcnt c obj (Some (v - push_bit 2 (RC_HALF L))) st)"
    using e(1-3) n assms(3) by (simp add: sidetable_subExtraRC_nolock_def assert_opt_def Let_def)
  have "4 dvd unat v - 4 * H" using dvd_diff_nat [OF e(7) dvd_refl] by (rule dvd_mult_left)
  then have "(unat v - 4 * H) div 4 = 0 \<longleftrightarrow> unat v - 4 * H = 0" by (auto elim!: dvdE)
  then show "drop_bit 2 (v - push_bit 2 (RC_HALF L)) = 0 \<longleftrightarrow> unat v = 4 * H"
    using e(5) by (simp add: word_unat_eq_iff unat_drop_bit u del: unat_eq_zero)
qed

lemma env_step_ok:
  assumes "object_ok (2 ^ 62) c obj st" "rc_ok (2 ^ 62) L v e" "\<not> isDeallocating L v"
    "\<not> isDeallocating L (isa_of obj st)"
  shows "object_ok (2 ^ 62) c obj (env_step c obj v e st)"
    and "\<not> isDeallocating L (isa_of obj (env_step c obj v e st))"
    and "side_locked c obj (env_step c obj v e st) = side_locked c obj st"
    and "others_same c obj st (env_step c obj v e st)"
    and "messages (env_step c obj v e st) = messages st"
  using assms by (auto simp: env_step_def Let_def rt_frame object_ok_def rc_ok_def)

lemma env_next_ok:
  assumes "object_ok (2 ^ 62) c obj st" "rely c sched" "\<not> isDeallocating L (isa_of obj st)"
  shows "object_ok (2 ^ 62) c obj (env_next c obj sched st)"
    and "\<not> isDeallocating L (isa_of obj (env_next c obj sched st))"
    and "side_locked c obj (env_next c obj sched st) = side_locked c obj st"
    and "others_same c obj st (env_next c obj sched st)"
    and "net_count c obj (env_next c obj sched st) = net_count c obj st"
    and "messages (env_next c obj sched st) = messages st"
    and "rely c (tl sched)"
proof -
  show "rely c (tl sched)" using assms(2) by (cases sched) (auto simp: rely_def)
  show "net_count c obj (env_next c obj sched st) = net_count c obj st"
    by (cases "(c, obj, sched, st)" rule: env_next.cases) (simp_all add: net_count_env_step)
  have r: "rc_ok (2 ^ 62) L v e" "\<not> isDeallocating L v" if "sched = Interfere v e # rest" for v e rest
    using assms(2) that by (auto simp: rely_def)
  show "object_ok (2 ^ 62) c obj (env_next c obj sched st)"
    and "\<not> isDeallocating L (isa_of obj (env_next c obj sched st))"
    and "side_locked c obj (env_next c obj sched st) = side_locked c obj st"
    and "others_same c obj st (env_next c obj sched st)"
    and "messages (env_next c obj sched st) = messages st"
    using env_step_ok [OF assms(1) _ _ assms(3)] r assms
    by (cases "(c, obj, sched, st)" rule: env_next.cases; simp)+
qed

lemma spilled_isa:
  assumes "\<not> Suc (unat (extra_rc L b)) < 2 ^ (64 - RC_ONE_BIT L)"
  defines "n \<equiv> put_flag (has_sidetable_rc_f L) True (bf_put (extra_rc_f L) (RC_HALF L) (fst (addc b (RC_ONE L) 0)))"
  shows "extra_rc L n = RC_HALF L" "has_sidetable_rc L n" "same_meta L n b"
    "Suc (unat (extra_rc L b)) = 2 * H"
proof -
  show "extra_rc L n = RC_HALF L" "has_sidetable_rc L n"
    by (simp_all add: n_def put_has_sidetable_rc put_extra_rc half_shape(5))
  have "same_meta L (fst (addc b (RC_ONE L) 0)) b"
    by (rule low_bits(1)) (rule add_RC_ONE_carry(2) [OF assms(1)])
  then show "same_meta L n b"
    unfolding n_def using put_has_sidetable_rc(3) put_extra_rc(3) same_meta_trans by meson
  show "Suc (unat (extra_rc L b)) = 2 * H"
    using assms(1) unat_extra_rc_less [of b] half_shape(1) by simp
qed

definition running :: "RRVariant \<Rightarrow> u64 \<Rightarrow> bool \<Rightarrow> interference list \<Rightarrow> objc_rt \<Rightarrow> bool" where
  "running variant obj l sched st \<longleftrightarrow>
     object_ok (2 ^ 62) c obj st \<and> \<not> isDeallocating L (isa_of obj st) \<and> side_locked c obj st = l \<and>
     (variant \<noteq> Full \<longrightarrow> \<not> l) \<and> rely c sched"

definition evolved :: "u64 \<Rightarrow> int \<Rightarrow> objc_rt \<Rightarrow> objc_rt \<Rightarrow> bool" where
  "evolved obj d st st' \<longleftrightarrow> net_count c obj st' = net_count c obj st + d \<and> others_same c obj st st'"

lemma evolved_trans: "evolved obj d st st' \<Longrightarrow> evolved obj d' st' st'' \<Longrightarrow> evolved obj (d + d') st st''"
  unfolding evolved_def using others_same_trans by force

lemma env_next_running:
  assumes "running variant obj l sched st"
  shows "running variant obj l (tl sched) (env_next c obj sched st)"
    and "evolved obj 0 st (env_next c obj sched st)"
    and "messages (env_next c obj sched st) = messages st"
  using env_next_ok [of obj st sched] assms by (auto simp: running_def evolved_def)

lemma net_count_set_lock [simp]: "net_count c obj (set_lock c o1 l st) = net_count c obj st"
  by (simp add: net_count_def retain_count_def rt_frame)

lemma object_ok_set_lock [simp]: "object_ok B c obj (set_lock c o1 l st) = object_ok B c obj st"
  by (simp add: object_ok_def rt_frame)

lemma running_set_lock:
  "running Full obj False sched st \<Longrightarrow> running Full obj True sched (set_lock c obj True st)"
  by (simp add: running_def rt_frame)

lemma object_ok_mono: "object_ok B c obj st \<Longrightarrow> B \<le> B' \<Longrightarrow> object_ok B' c obj st"
  by (auto simp: object_ok_def rc_ok_def split: if_splits option.splits)

definition retained :: "u64 \<Rightarrow> objc_rt \<Rightarrow> objc_rt \<Rightarrow> bool" where
  "retained obj st st' \<longleftrightarrow>
     object_ok (2 ^ 63) c obj st' \<and> \<not> isDeallocating L (isa_of obj st') \<and> \<not> side_locked c obj st' \<and>
     evolved obj 1 st st' \<and> messages st' = messages st"

lemma retain_stored_inline:
  assumes r: "running variant obj l sched st" and n: "Suc (unat (extra_rc L (isa_of obj st))) < 2 ^ (64 - RC_ONE_BIT L)"
  shows "retained obj st (set_lock c obj False (set_isa obj (isa_of obj st + RC_ONE L) st))"
proof -
  let ?b = "isa_of obj st"
  note a = add_RC_ONE [OF n]
  note lo = low_bits [OF a(3)]
  note m = same_metaD [OF lo(1)]
  have "extra_rc L (?b + RC_ONE L) \<noteq> 0" using a(2) by (metis nat.distinct(1) unsigned_0)
  then show ?thesis
    using r m(1) lo(2) a(2)
    by (auto simp: retained_def running_def evolved_def object_ok_def rc_ok_def rt_frame net_count_def
        retain_count_def pair_count_def isDeallocating_def split: option.splits if_splits)
qed

lemma retain_stored_spill:
  assumes r: "running Full obj l sched st"
    and n: "\<not> Suc (unat (extra_rc L (isa_of obj st))) < 2 ^ (64 - RC_ONE_BIT L)"
  defines "b' \<equiv> put_flag (has_sidetable_rc_f L) True (bf_put (extra_rc_f L) (RC_HALF L) (fst (addc (isa_of obj st) (RC_ONE L) 0)))"
  shows "\<exists>st'. sidetable_addExtraRC_nolock c obj (RC_HALF L) (set_isa obj b' (set_lock c obj True st)) = Some (False, st')
      \<and> side_locked c obj st' \<and> retained obj st (set_lock c obj False st')"
proof -
  let ?b = "isa_of obj st"
  note sp = spilled_isa [OF n, folded b'_def]
  note m = same_metaD [OF sp(3)]
  define v where "v = (case refcnt_at c obj st of None \<Rightarrow> 0 | Some w \<Rightarrow> w)"
  have np: "nonpointer L ?b" using r by (simp add: running_def object_ok_def rc_ok_def)
  have v: "unat v < 2 ^ 62" "4 * H dvd unat v" "has_sidetable_rc L ?b \<or> v = 0" "\<not> has_sidetable_rc L ?b \<or> refcnt_at c obj st = Some v"
    using r by (auto simp: running_def object_ok_def rc_ok_def v_def split: option.splits if_splits)
  have "4 dvd unat v" using v(2) by (rule dvd_mult_left)
  then have add: "sidetable_addExtraRC_nolock c obj (RC_HALF L) (set_isa obj b' (set_lock c obj True st)) =
     Some (False, set_refcnt c obj (Some (v + push_bit 2 (RC_HALF L))) (set_isa obj b' (set_lock c obj True st)))"
    using addExtraRC_ok [of obj "set_isa obj b' (set_lock c obj True st)" v] m(1) np v(1)
    by (simp add: rt_frame v_def)
  note u = unat_add_half [OF v(1)]
  have cnt: "(unat v + 4 * H) div 4 = unat v div 4 + H" by simp
  have "v + push_bit 2 (RC_HALF L) \<noteq> 0" using u(1) half_shape(2) by (simp add: word_unat_eq_iff)
  moreover have "4 * H dvd unat v + 4 * H" using v(2) by simp
  moreover have "unat v + 4 * H < 2 ^ 63" using v(1) half_shape(3) by simp
  moreover have "RC_HALF L \<noteq> 0" using half_shape(2) by auto
  moreover have "uint (extra_rc L ?b) + 1 = 2 * uint (RC_HALF L)"
    using arg_cong [OF sp(4), of int] by simp
  ultimately have "retained obj st (set_lock c obj False
      (set_refcnt c obj (Some (v + push_bit 2 (RC_HALF L))) (set_isa obj b' (set_lock c obj True st))))"
    using sp m(1) np v(3,4) u(1) cnt
    by (auto simp: retained_def evolved_def object_ok_def rc_ok_def rt_frame net_count_def
        retain_count_def pair_count_def isDeallocating_def)
  then show ?thesis using add by (simp add: rt_frame)
qed

lemma retain_step_ok:
  assumes r: "running variant obj l sched st"
  shows "case rootRetain_step c obj False variant l (isa_of obj st) sched st of
      None \<Rightarrow> False
    | Some (Retain_overflow sched' st') \<Rightarrow> variant \<noteq> Full \<and> sched' = sched \<and> st' = st
    | Some (Retain_retry l' b' sched' st') \<Rightarrow>
        b' = isa_of obj st' \<and> running variant obj l' sched' st' \<and> evolved obj 0 st st' \<and> messages st' = messages st
    | Some (Retain_return r sched' st') \<Rightarrow> r = obj \<and> retained obj st st'"
proof -
  let ?b = "isa_of obj st"
  have np: "nonpointer L ?b" "\<not> isDeallocating L ?b" "side_locked c obj st = l" "variant \<noteq> Full \<longrightarrow> \<not> l"
    using r by (auto simp: running_def object_ok_def rc_ok_def)
  show ?thesis
  proof (cases "Suc (unat (extra_rc L ?b)) < 2 ^ (64 - RC_ONE_BIT L)")
    case True
    note a = add_RC_ONE(1) [OF True] and rs = retain_stored_inline [OF r True]
    have "set_lock c obj False (set_isa obj (?b + RC_ONE L) st) = set_isa obj (?b + RC_ONE L) st" if "\<not> l"
      using that np(3) by (intro set_lock_same) (simp add: rt_frame)
    then show ?thesis
      using np rs env_next_running [OF r]
      by (cases l) (auto simp: rootRetain_step_def a StoreExclusive_def sidetable_unlock_eq rt_frame Let_def assert_opt_def)
  next
    case False
    note carry = add_RC_ONE_carry(1) [OF False]
    show ?thesis
    proof (cases "variant = Full")
      case full: True
      have lk: "(if \<not> l then sidetable_lock c obj st else Some st) = Some (set_lock c obj True st)"
        using np(3) by (auto simp: sidetable_lock_eq set_lock_same)
      have r': "running Full obj True sched (set_lock c obj True st)"
        using r full by (auto simp: running_def rt_frame)
      have ev: "evolved obj 0 st (set_lock c obj True st)" by (simp add: evolved_def)
      show ?thesis
        using np full carry lk retain_stored_spill [OF r [unfolded full] False]
          env_next_running [OF r'] evolved_trans [OF ev] 
        by (auto simp: rootRetain_step_def StoreExclusive_def sidetable_unlock_eq rt_frame Let_def split_beta)
    qed (use np carry in \<open>auto simp: rootRetain_step_def Let_def split_beta\<close>)
  qed
qed

lemma retained_after:
  "evolved obj 0 st st1 \<Longrightarrow> messages st1 = messages st \<Longrightarrow> retained obj st1 st2 \<Longrightarrow> retained obj st st2"
  using evolved_trans [of obj 0 st st1 1 st2] by (simp add: retained_def)

lemma evolved_after: "evolved obj 0 st st1 \<Longrightarrow> evolved obj d st1 st2 \<Longrightarrow> evolved obj d st st2"
  using evolved_trans [of obj 0 st st1 d st2] by simp

lemma retain_loop_ok:
  assumes "running variant obj l sched st"
  shows "\<exists>x sched' st'. rootRetain_loop c obj False variant l (isa_of obj st) sched st = Some (x, sched', st') \<and>
    (case x of Exit_return r \<Rightarrow> r = obj \<and> retained obj st st'
     | Exit_overflow \<Rightarrow> variant \<noteq> Full \<and> running variant obj False sched' st' \<and> evolved obj 0 st st' \<and>
         messages st' = messages st)"
  using assms
proof (induction sched arbitrary: l st rule: measure_induct_rule [where f = length])
  case (less sched)
  let ?step = "rootRetain_step c obj False variant l (isa_of obj st) sched st"
  note ok = retain_step_ok [OF less.prems]
  consider (ret) r sched' st' where "?step = Some (Retain_return r sched' st')"
    | (over) "?step = Some (Retain_overflow sched st)" "variant \<noteq> Full"
    | (retry) l' b' sched' st' where "?step = Some (Retain_retry l' b' sched' st')"
    using ok by (auto split: option.splits retain_next.splits)
  then show ?case
  proof cases
    case ret
    then show ?thesis using ok by (subst rootRetain_loop.simps) simp
  next
    case over
    then have "\<not> l" using less.prems by (simp add: running_def)
    then show ?thesis using over less.prems by (subst rootRetain_loop.simps) (simp add: evolved_def)
  next
    case retry
    then have r: "b' = isa_of obj st'" "running variant obj l' sched' st'" "evolved obj 0 st st'"
      "messages st' = messages st" using ok by auto
    have "length sched' < length sched" by (rule rootRetain_step_shorter [OF retry])
    from less.IH [OF this r(2)] show ?thesis
      using retry r(1) retained_after [OF r(3,4)] evolved_after [OF r(3)] r(4)
      by (subst rootRetain_loop.simps) (fastforce split: retain_exit.splits)
  qed
qed

definition may_retain :: "RRVariant \<Rightarrow> u64 \<Rightarrow> interference list \<Rightarrow> objc_rt \<Rightarrow> bool" where
  "may_retain variant obj sched st \<longleftrightarrow>
     object_ok (2 ^ 62) c obj st \<and> \<not> isDeallocating L (isa_of obj st) \<and> \<not> side_locked c obj st \<and>
     \<not> isTaggedPointer (tag_l c) obj \<and> rely c sched \<and>
     (variant = FastOrMsgSend \<longrightarrow> \<not> hasCustomRR (class_of c obj st))"

lemma no_custom_rr_env:
  assumes "may_retain FastOrMsgSend obj sched st"
  shows "\<not> hasCustomRR (class_of c obj (env_next c obj sched st))"
  using assms
  by (cases "(c, obj, sched, st)" rule: env_next.cases)
     (auto simp: may_retain_def class_of_def env_step_def rely_def Let_def rt_frame)

lemma retain_body_ok:
  assumes "may_retain variant obj sched st"
  shows "\<exists>x st'. rootRetain_body c obj False variant sched st = Some (x, st') \<and>
    (case x of Inl r \<Rightarrow> r = Retained obj \<and> retained obj st st'
     | Inr sched' \<Rightarrow> variant \<noteq> Full \<and> may_retain Full obj sched' st' \<and> evolved obj 0 st st' \<and>
         messages st' = messages st)"
proof -
  let ?st = "env_next c obj sched st"
  have r: "running variant obj False sched st" using assms by (simp add: may_retain_def running_def)
  note e = env_next_running [OF r]
  have np: "nonpointer L (isa_of obj ?st)" using e(1) by (simp add: running_def object_ok_def rc_ok_def)
  have cr: "variant = FastOrMsgSend \<longrightarrow> \<not> hasCustomRR (classes c (getDecodedClass L (isa_of obj ?st)))"
    using no_custom_rr_env assms by (auto simp: class_of_def)
  have t: "\<not> isTaggedPointer (tag_l c) obj" using assms by (simp add: may_retain_def)
  obtain x sched' st' where l: "rootRetain_loop c obj False variant False (isa_of obj ?st) (tl sched) ?st = Some (x, sched', st')"
    and x: "case x of Exit_return r \<Rightarrow> r = obj \<and> retained obj ?st st'
     | Exit_overflow \<Rightarrow> variant \<noteq> Full \<and> running variant obj False sched' st' \<and> evolved obj 0 ?st st' \<and>
         messages st' = messages ?st"
    using retain_loop_ok [OF e(1)] by blast
  show ?thesis
    using l x t np cr e(3) retained_after [OF e(2,3)] evolved_after [OF e(2)]
    by (cases x) (auto simp: rootRetain_body_def LoadExclusive_def Let_def may_retain_def running_def)
qed

lemma rootRetain_ok:
  assumes "may_retain variant obj sched st"
  shows "\<exists>st'. rootRetain c obj False variant sched st = Some (Retained obj, st') \<and> retained obj st st'"
proof -
  obtain x st1 where b: "rootRetain_body c obj False variant sched st = Some (x, st1)"
    and x: "case x of Inl r \<Rightarrow> r = Retained obj \<and> retained obj st st1
     | Inr sched' \<Rightarrow> variant \<noteq> Full \<and> may_retain Full obj sched' st1 \<and> evolved obj 0 st st1 \<and>
         messages st1 = messages st"
    using retain_body_ok [OF assms] by blast
  show ?thesis
  proof (cases x)
    case (Inl r)
    then show ?thesis using b x by (simp add: rootRetain_def)
  next
    case (Inr sched')
    then have m: "may_retain Full obj sched' st1" "evolved obj 0 st st1" "messages st1 = messages st"
      using x by auto
    obtain y st2 where y: "rootRetain_body c obj False Full sched' st1 = Some (y, st2)"
      "case y of Inl r \<Rightarrow> r = Retained obj \<and> retained obj st1 st2
       | Inr sched' \<Rightarrow> Full \<noteq> Full \<and> may_retain Full obj sched' st2 \<and> evolved obj 0 st1 st2 \<and>
           messages st2 = messages st1"
      using retain_body_ok [OF m(1)] by blast
    then show ?thesis using b Inr retained_after [OF m(2,3)]
      by (cases y) (simp_all add: rootRetain_def rootRetain_overflow_def)
  qed
qed

lemma add_RC_many:
  assumes "n < 2 ^ (64 - RC_ONE_BIT L)"
  shows "snd (addc b (RC_ONE L * of_nat n) 0) \<longleftrightarrow> 2 ^ (64 - RC_ONE_BIT L) \<le> unat (extra_rc L b) + n"
    and "\<not> snd (addc b (RC_ONE L * of_nat n) 0) \<Longrightarrow>
      unat (extra_rc L (fst (addc b (RC_ONE L * of_nat n) 0))) = unat (extra_rc L b) + n \<and>
      take_bit (RC_ONE_BIT L) (fst (addc b (RC_ONE L * of_nat n) 0)) = take_bit (RC_ONE_BIT L) b"
proof -
  let ?K = "2 ^ RC_ONE_BIT L :: nat" and ?M = "2 ^ (64 - RC_ONE_BIT L) :: nat"
  have r: "2 ^ 64 = ?M * ?K" by (rule rc_range)
  have "?K * n < ?K * ?M" using assms by simp
  then have kn: "?K * n < 2 ^ 64" unfolding r by (simp add: mult.commute)
  have "n < 2 ^ 64" using assms power_increasing [of "64 - RC_ONE_BIT L" 64 "2 :: nat"] by simp
  then have un: "unat (of_nat n :: u64) = n" by (simp add: unat_of_nat take_bit_nat_eq_self)
  have u: "unat (RC_ONE L * of_nat n) = ?K * n"
    using kn unat_mult_lem [of "RC_ONE L" "of_nat n"] by (simp add: unat_RC_ONE un)
  have d: "(unat b + ?K * n) div ?K = unat b div ?K + n" by (simp add: div_mult_self2)
  have "2 ^ 64 \<le> unat b + ?K * n \<longleftrightarrow> ?M \<le> (unat b + ?K * n) div ?K"
    unfolding r by (rule less_eq_div_iff_mult_less_eq [symmetric]) simp
  then show s: "snd (addc b (RC_ONE L * of_nat n) 0) \<longleftrightarrow> ?M \<le> unat (extra_rc L b) + n"
    by (simp add: addc_def u unat_extra_rc d)
  assume "\<not> snd (addc b (RC_ONE L * of_nat n) 0)"
  then have "unat b + ?K * n < 2 ^ 64" by (simp add: addc_def u)
  then have "unat (b + RC_ONE L * of_nat n) = unat b + ?K * n"
    using unat_add_lem [of b "RC_ONE L * of_nat n"] by (simp add: u)
  then show "unat (extra_rc L (fst (addc b (RC_ONE L * of_nat n) 0))) = unat (extra_rc L b) + n \<and>
      take_bit (RC_ONE_BIT L) (fst (addc b (RC_ONE L * of_nat n) 0)) = take_bit (RC_ONE_BIT L) b"
    by (simp add: addc_def unat_extra_rc d word_unat_eq_iff unat_low)
qed

lemma env_next_locked:
  assumes "side_locked c obj st" "rely c sched" "nonpointer L (isa_of obj st)" "\<not> isDeallocating L (isa_of obj st)"
  defines "st' \<equiv> env_next c obj sched st"
  shows "nonpointer L (isa_of obj st')" "has_sidetable_rc L (isa_of obj st') = has_sidetable_rc L (isa_of obj st)"
    "\<not> isDeallocating L (isa_of obj st')" "refcnt_at c obj st' = refcnt_at c obj st" "side_locked c obj st'"
    "others_same c obj st st'" "net_count c obj st' = net_count c obj st" "messages st' = messages st" "rely c (tl sched)"
proof -
  show "rely c (tl sched)" using assms(2) by (cases sched) (auto simp: rely_def)
  show "net_count c obj st' = net_count c obj st"
    unfolding st'_def by (cases "(c, obj, sched, st)" rule: env_next.cases) (simp_all add: net_count_env_step)
  show "nonpointer L (isa_of obj st')" "has_sidetable_rc L (isa_of obj st') = has_sidetable_rc L (isa_of obj st)"
    "\<not> isDeallocating L (isa_of obj st')" "refcnt_at c obj st' = refcnt_at c obj st" "side_locked c obj st'"
    "others_same c obj st st'" "messages st' = messages st"
    using assms(1-4) unfolding st'_def
    by (cases "(c, obj, sched, st)" rule: env_next.cases; auto simp: env_step_def Let_def rt_frame rely_def)+
qed

definition released :: "bool \<Rightarrow> u64 \<Rightarrow> bool \<Rightarrow> objc_rt \<Rightarrow> objc_rt \<Rightarrow> bool" where
  "released perform obj b st st' \<longleftrightarrow>
     object_ok (2 ^ 62) c obj st' \<and> \<not> side_locked c obj st' \<and> evolved obj (- 1) st st' \<and>
     (b \<longleftrightarrow> retain_count c obj st' = 0) \<and> (b \<longleftrightarrow> isDeallocating L (isa_of obj st')) \<and>
     messages st' = messages st @
       (if b \<and> perform then
          [if hasCustomDeallocInitiation (class_of c obj st') then Msg_initiateDealloc obj else Msg_dealloc obj]
        else [])"

lemma performDealloc_frame [simp]:
  "isa_of x (performDealloc c obj st) = isa_of x st" "refcnt_at c' x (performDealloc c obj st) = refcnt_at c' x st"
  "side_locked c' x (performDealloc c obj st) = side_locked c' x st"
  "others_delta (performDealloc c obj st) = others_delta st"
  "others_same c' x st' (performDealloc c obj st) = others_same c' x st' st"
  by (simp_all add: performDealloc_def isa_of_def refcnt_at_def table_of_def side_locked_def others_same_def)

lemma count_zero:
  assumes "rc_ok B L b e"
  shows "pair_count L b e = 0 \<longleftrightarrow> isDeallocating L b"
proof (cases "has_sidetable_rc L b")
  case True
  then obtain v where v: "e = Some v" "v \<noteq> 0" "4 * H dvd unat v"
    using assms by (auto simp: rc_ok_def split: option.splits)
  have "4 * H \<le> unat v" using v by (intro dvd_imp_le) (simp_all add: word_unat_eq_iff)
  then have "1 \<le> unat v div 4" using half_shape(2) by simp
  then show ?thesis using True v(1) by (simp add: pair_count_def isDeallocating_def)
qed (simp add: pair_count_def isDeallocating_def word_unat_eq_iff)

lemma live_not_deallocating:
  "object_ok B c obj st \<Longrightarrow> 0 < retain_count c obj st \<Longrightarrow> \<not> isDeallocating L (isa_of obj st)"
  using count_zero [of B "isa_of obj st" "refcnt_at c obj st"] by (simp add: object_ok_def retain_count_def)

lemma released_intro:
  assumes "object_ok (2 ^ 62) c obj st'" "\<not> side_locked c obj st'" "evolved obj (- 1) st st'"
    "messages st' = messages st" "b = isDeallocating L (isa_of obj st')"
  shows "released perform obj b st (if b \<and> perform then performDealloc c obj st' else st')"
proof -
  have "retain_count c obj st' = 0 \<longleftrightarrow> b"
    using assms(1,5) by (simp add: retain_count_def object_ok_def count_zero)
  moreover have "messages (performDealloc c obj st') = messages st' @
     [if hasCustomDeallocInitiation (class_of c obj st') then Msg_initiateDealloc obj else Msg_dealloc obj]"
    "class_of c obj (performDealloc c obj st') = class_of c obj st'"
    by (simp_all add: performDealloc_def class_of_def isa_of_def)
  ultimately show ?thesis using assms
    by (auto simp: released_def evolved_def net_count_def retain_count_def object_ok_def)
qed

lemma release_inline_state:
  assumes r: "running variant obj l sched st" and n: "extra_rc L (isa_of obj st) \<noteq> 0"
  defines "st1 \<equiv> set_lock c obj False (set_isa obj (isa_of obj st - RC_ONE L) st)"
  shows "object_ok (2 ^ 62) c obj st1" "\<not> side_locked c obj st1" "evolved obj (- 1) st st1" "messages st1 = messages st"
proof -
  let ?b = "isa_of obj st" and ?n = "isa_of obj st - RC_ONE L" and ?e = "refcnt_at c obj st"
  note a = sub_RC_ONE [OF n]
  note lo = low_bits [OF a(3)]
  note m = same_metaD [OF lo(1)]
  have "rc_ok (2 ^ 62) L ?b ?e" using r by (simp add: running_def object_ok_def)
  then have "rc_ok (2 ^ 62) L ?n ?e" by (simp add: rc_ok_def m(1) lo(2))
  then show "object_ok (2 ^ 62) c obj st1" by (simp add: st1_def object_ok_def rt_frame)
  have "unat (extra_rc L ?b) \<noteq> 0" using n by (simp add: word_unat_eq_iff)
  then have "int (pair_count L ?n ?e) = int (pair_count L ?b ?e) - 1"
    using a(2) lo(2) unfolding pair_count_def by (simp del: of_nat_unat)
  then show "evolved obj (- 1) st st1"
    by (simp add: evolved_def net_count_def retain_count_def st1_def rt_frame)
  show "\<not> side_locked c obj st1" "messages st1 = messages st" by (simp_all add: st1_def rt_frame)
qed

lemma release_step_inline:
  assumes r: "running variant obj l sched st" and n: "extra_rc L (isa_of obj st) \<noteq> 0"
  defines "d \<equiv> isDeallocating L (isa_of obj st - RC_ONE L)"
    and "st1 \<equiv> set_lock c obj False (set_isa obj (isa_of obj st - RC_ONE L) st)"
  shows "rootRelease_step c obj perform variant l (isa_of obj st) sched st =
      (if interferes sched then Some (Release_retry l (isa_of obj (env_next c obj sched st)) (tl sched) (env_next c obj sched st))
       else Some (Release_return d (tl sched) (if d \<and> perform then performDealloc c obj st1 else st1)))"
proof -
  have np: "nonpointer L (isa_of obj st)" "\<not> isDeallocating L (isa_of obj st)" "side_locked c obj st = l" "variant \<noteq> Full \<longrightarrow> \<not> l"
    using r by (auto simp: running_def object_ok_def rc_ok_def)
  let ?st = "set_isa obj (isa_of obj st - RC_ONE L) st"
  have ul: "(if l then sidetable_unlock c obj ?st else Some ?st) = Some st1"
    using np(3) by (auto simp: st1_def sidetable_unlock_eq rt_frame intro!: set_lock_same [symmetric])
  have ul': "\<not> l \<Longrightarrow> ?st = st1" using ul by simp
  show ?thesis
    unfolding rootRelease_step_def StoreExclusive_def Let_def sub_RC_ONE(1) [OF n] release_deallocate_def
    using np ul ul' by (auto simp: assert_opt_def rt_frame d_def)
qed

text \<open>
  The states in the middle of a borrow: the side table is locked and \<open>RC_HALF\<close> counts have
  been taken out of the entry, which was \<open>v\<close>, but are not in the isa word yet.
\<close>

definition borrowing :: "u64 \<Rightarrow> u64 \<Rightarrow> objc_rt \<Rightarrow> objc_rt \<Rightarrow> bool" where
  "borrowing obj v st s \<longleftrightarrow>
     side_locked c obj s \<and> nonpointer L (isa_of obj s) \<and> has_sidetable_rc L (isa_of obj s) \<and>
     refcnt_at c obj s = Some (v - push_bit 2 (RC_HALF L)) \<and>
     4 * H dvd unat v \<and> 4 * H \<le> unat v \<and> unat v < 2 ^ 62 \<and>
     net_count c obj s = net_count c obj st - int H \<and> others_same c obj st s \<and> messages s = messages st"

lemma unat_sub_half: "4 * H \<le> unat v \<Longrightarrow> unat (v - push_bit 2 (RC_HALF L)) = unat v - 4 * H"
  using half_shape(4) by (simp add: unat_sub word_le_nat_alt)

lemma quarter_split: "4 * h \<le> (n :: nat) \<Longrightarrow> n div 4 = (n - 4 * h) div 4 + h"
  by (auto simp: le_iff_add)

lemma borrow_env:
  assumes "borrowing obj v st s" "rely c sched"
  shows "borrowing obj v st (env_next c obj sched s)" "rely c (tl sched)"
proof -
  have "\<not> isDeallocating L (isa_of obj s)" using assms(1) by (simp add: borrowing_def isDeallocating_def)
  note e = env_next_locked [of obj s sched, OF _ assms(2) _ this]
  show "borrowing obj v st (env_next c obj sched s)" "rely c (tl sched)"
    using assms(1) e others_same_trans by (auto simp: borrowing_def)
qed

lemma borrow_put_back:
  assumes b: "borrowing obj v st s" "rely c sched"
  shows "\<exists>s'. sidetable_addExtraRC_nolock c obj (RC_HALF L) s = Some (False, s') \<and>
     running Full obj True sched s' \<and> evolved obj 0 st s' \<and> messages s' = messages st"
proof -
  let ?r = "v - push_bit 2 (RC_HALF L)"
  note d = b(1) [unfolded borrowing_def]
  have u: "unat ?r = unat v - 4 * H" using d unat_sub_half by simp
  have lt: "unat ?r < 2 ^ 62" unfolding u using d less_imp_diff_less by blast
  have "4 * H dvd unat v - 4 * H" using d by simp
  then have "4 dvd unat ?r" unfolding u by (rule dvd_mult_left)
  then have "sidetable_addExtraRC_nolock c obj (RC_HALF L) s = Some (False, set_refcnt c obj (Some v) s)"
    using addExtraRC_ok [of obj s ?r] d lt by simp
  moreover have "unat v div 4 = (unat v - 4 * H) div 4 + H" using d quarter_split by blast
  then have "int (retain_count c obj (set_refcnt c obj (Some v) s)) = int (retain_count c obj s) + int H"
    using d u by (simp add: retain_count_def pair_count_def rt_frame del: of_nat_unat)
  then have "evolved obj 0 st (set_refcnt c obj (Some v) s)"
    using d by (simp add: evolved_def net_count_def rt_frame)
  moreover have "v \<noteq> 0" using d half_shape(2) by (auto simp: word_unat_eq_iff)
  then have "running Full obj True sched (set_refcnt c obj (Some v) s)"
    using d b(2) by (simp add: running_def object_ok_def rc_ok_def rt_frame isDeallocating_def)
  ultimately show ?thesis using d by (simp add: rt_frame)
qed

lemma borrow_finish:
  assumes b: "borrowing obj v st s"
    and n: "nonpointer L n'" "unat (extra_rc L n') = unat (extra_rc L (isa_of obj s)) + H - 1"
      "has_sidetable_rc L n' \<longleftrightarrow> unat v \<noteq> 4 * H"
  shows "\<exists>s4 s5. (if unat v = 4 * H then sidetable_clearExtraRC_nolock c obj (set_isa obj n' s) else Some (set_isa obj n' s)) = Some s4 \<and>
    sidetable_unlock c obj s4 = Some s5 \<and> released perform obj False st s5"
proof -
  note d = b [unfolded borrowing_def]
  have u: "unat (v - push_bit 2 (RC_HALF L)) = unat v - 4 * H" using d unat_sub_half by simp
  let ?s4 = "if unat v = 4 * H then set_refcnt c obj None (set_isa obj n' s) else set_isa obj n' s"
  let ?s5 = "set_lock c obj False ?s4"
  have "(if unat v = 4 * H then sidetable_clearExtraRC_nolock c obj (set_isa obj n' s) else Some (set_isa obj n' s)) = Some ?s4"
    using d n(1) by (simp add: sidetable_clearExtraRC_nolock_def assert_opt_def rt_frame)
  moreover have "sidetable_unlock c obj ?s4 = Some ?s5" using d by (simp add: sidetable_unlock_eq rt_frame)
  moreover have "released perform obj False st ?s5"
  proof -
    have x: "int (unat (extra_rc L n')) = int (unat (extra_rc L (isa_of obj s))) + int H - 1" "extra_rc L n' \<noteq> 0"
      using n(2) half_shape(2) by (auto simp: word_unat_eq_iff simp del: of_nat_unat)
    have dv: "4 * H dvd unat v - 4 * H" using d by simp
    have z: "v - push_bit 2 (RC_HALF L) \<noteq> 0 \<longleftrightarrow> unat v \<noteq> 4 * H" using d u by (auto simp: word_unat_eq_iff)
    have lt: "unat v - 4 * H < 2 ^ 62" using d less_imp_diff_less by blast
    have ok: "object_ok (2 ^ 62) c obj ?s5"
      using d n(1,3) z dv u lt by (simp add: object_ok_def rc_ok_def rt_frame)
    have "int (retain_count c obj ?s5) = int (retain_count c obj s) + int H - 1"
      using d n(3) x(1) u by (simp add: retain_count_def pair_count_def rt_frame del: of_nat_unat)
    then have "evolved obj (- 1) st ?s5" using d by (simp add: evolved_def net_count_def rt_frame)
    moreover have "\<not> isDeallocating L (isa_of obj ?s5)" using x(2) by (simp add: isDeallocating_def rt_frame)
    ultimately show ?thesis
      using released_intro [OF ok, of st False perform] d by (simp add: rt_frame)
  qed
  ultimately show ?thesis by blast
qed

lemma borrow_step_ok:
  assumes r: "running Full obj True sched st" and x: "extra_rc L (isa_of obj st) = 0"
  shows "case release_borrow c obj perform (isa_of obj st) sched st of
      None \<Rightarrow> False | Some (Release_underflow _ _) \<Rightarrow> False
    | Some (Release_retry l' b' sched' st') \<Rightarrow>
        b' = isa_of obj st' \<and> running Full obj l' sched' st' \<and> evolved obj 0 st st' \<and> messages st' = messages st
    | Some (Release_return b sched' st') \<Rightarrow> released perform obj b st st'"
proof -
  let ?b = "isa_of obj st"
  have d: "nonpointer L ?b" "side_locked c obj st" "rely c sched" "has_sidetable_rc L ?b"
    and "rc_ok (2 ^ 62) L ?b (refcnt_at c obj st)"
    using r x by (auto simp: running_def object_ok_def rc_ok_def isDeallocating_def)
  then obtain v where v: "refcnt_at c obj st = Some v" and ok: "rc_ok (2 ^ 62) L ?b (Some v)"
    by (auto simp: rc_ok_def split: option.splits)
  have le: "(2 :: nat) ^ 62 \<le> 2 ^ 63" by simp
  note e = entry_facts [OF ok le] and sub = subExtraRC_ok [OF ok le v]
  let ?s1 = "set_refcnt c obj (Some (v - push_bit 2 (RC_HALF L))) st"
  let ?n1 = "put_flag (has_sidetable_rc_f L) (unat v \<noteq> 4 * H) (bf_put (extra_rc_f L) (RC_HALF L - 1) ?b)"
  have dv: "unat v div 4 = (unat v - 4 * H) div 4 + H" using e(5) by (rule quarter_split)
  have b1: "borrowing obj v st ?s1"
    using d v e dv sub(2) r by (simp add: borrowing_def rt_frame net_count_def retain_count_def pair_count_def)
  have h1: "unat (RC_HALF L - 1) = H - 1" using half_shape(2) by (simp add: unat_sub word_le_nat_alt)
  have t1: "take_bit (64 - RC_ONE_BIT L) (RC_HALF L - 1) = RC_HALF L - 1"
    by (rule take_bit_small) (use h1 half_shape(1,2) in simp)
  have n1: "nonpointer L ?n1" "unat (extra_rc L ?n1) = unat (extra_rc L (isa_of obj ?s1)) + H - 1"
    "has_sidetable_rc L ?n1 \<longleftrightarrow> unat v \<noteq> 4 * H"
    using d(1) x h1 t1 same_metaD(1) [OF put_has_sidetable_rc(3)] same_metaD(1) [OF put_extra_rc(3)]
    by (simp_all add: put_has_sidetable_rc put_extra_rc rt_frame)
  have H0: "0 < RC_HALF L" using half_shape(2) by (simp add: word_less_nat_alt)
  show ?thesis
  proof (cases "interferes sched")
    case False
    obtain s4 s5 where f: "(if unat v = 4 * H then sidetable_clearExtraRC_nolock c obj (set_isa obj ?n1 ?s1) else Some (set_isa obj ?n1 ?s1)) = Some s4"
      "sidetable_unlock c obj s4 = Some s5" "released perform obj False st s5"
      using borrow_finish [OF b1 n1] by blast
    then show ?thesis using sub(1,3) H0 False
      by (cases "unat v = 4 * H") (simp_all add: release_borrow_def StoreExclusive_def Let_def split_beta)
  next
    case True
    let ?s2 = "env_next c obj sched ?s1"
    note b2 = borrow_env [OF b1 d(3)]
    let ?w = "isa_of obj ?s2"
    let ?n2 = "put_flag (has_sidetable_rc_f L) (unat v \<noteq> 4 * H) (fst (addc ?w (RC_ONE L * (RC_HALF L - 1)) 0))"
    have np: "nonpointer L ?w" using b2 by (simp add: borrowing_def)
    have "of_nat (unat (RC_HALF L - 1)) = RC_HALF L - 1" by simp
    then have hn: "RC_HALF L - 1 = of_nat (H - 1)" unfolding h1 by simp
    have "H - 1 < 2 ^ (64 - RC_ONE_BIT L)" using half_shape(1,2) by simp
    note am = add_RC_many [OF this, of ?w, folded hn]
    have retry: ?thesis
      if "release_borrow c obj perform ?b sched st = do {
            (_, st4) \<leftarrow> sidetable_addExtraRC_nolock c obj (RC_HALF L) s;
            let (oldisa', sched3, st5) = LoadExclusive c obj sc st4;
            Some (Release_retry True oldisa' sched3 st5) }" and s: "borrowing obj v st s" "rely c sc" for s sc
    proof -
      obtain s' where s': "sidetable_addExtraRC_nolock c obj (RC_HALF L) s = Some (False, s')"
        "running Full obj True sc s'" "evolved obj 0 st s'" "messages s' = messages st"
        using borrow_put_back [OF s] by blast
      show ?thesis using that(1) s' env_next_running [OF s'(2)] evolved_after [OF s'(3)]
        by (simp add: LoadExclusive_def Let_def)
    qed
    show ?thesis
    proof (cases "snd (addc ?w (RC_ONE L * (RC_HALF L - 1)) 0)")
      case over: True
      show ?thesis
        by (rule retry [OF _ b2]) (use sub(1,3) H0 True over np in \<open>simp add: release_borrow_def StoreExclusive_def Let_def split_beta\<close>)
    next
      case fits: False
      note am = am(2) [OF fits]
      show ?thesis
      proof (cases "interferes (tl sched)")
        case again: True
        show ?thesis
          by (rule retry [OF _ borrow_env [OF b2]])
            (use sub(1,3) H0 True again fits np in \<open>simp add: release_borrow_def StoreExclusive_def Let_def split_beta\<close>)
      next
        case False
        have n2: "nonpointer L ?n2" "unat (extra_rc L ?n2) = unat (extra_rc L ?w) + H - 1"
          "has_sidetable_rc L ?n2 \<longleftrightarrow> unat v \<noteq> 4 * H"
          using am np half_shape(2) same_metaD(1) [OF put_has_sidetable_rc(3)]
            same_metaD(1) [OF low_bits(1) [OF conjunct2 [OF am]]]
          by (simp_all add: put_has_sidetable_rc)
        have "extra_rc L ?n2 \<noteq> 0" using n2(2) half_shape(2) by (auto simp: word_unat_eq_iff)
        then have nd: "\<not> isDeallocating L ?n2" by (simp add: isDeallocating_def)
        obtain s4 s5 where f: "(if unat v = 4 * H then sidetable_clearExtraRC_nolock c obj (set_isa obj ?n2 ?s2) else Some (set_isa obj ?n2 ?s2)) = Some s4"
          "sidetable_unlock c obj s4 = Some s5" "released perform obj False st s5"
          using borrow_finish [OF b2(1) n2] by blast
        then show ?thesis using sub(1,3) H0 True False fits np nd
          by (cases "unat v = 4 * H") (simp_all add: release_borrow_def StoreExclusive_def Let_def split_beta)
      qed
    qed
  qed
qed

lemma release_step_ok:
  assumes r: "running variant obj l sched st"
  shows "case rootRelease_step c obj perform variant l (isa_of obj st) sched st of
      None \<Rightarrow> False
    | Some (Release_underflow sched' st') \<Rightarrow> variant \<noteq> Full \<and> sched' = sched \<and> st' = st
    | Some (Release_retry l' b' sched' st') \<Rightarrow>
        b' = isa_of obj st' \<and> running variant obj l' sched' st' \<and> evolved obj 0 st st' \<and> messages st' = messages st
    | Some (Release_return b sched' st') \<Rightarrow> released perform obj b st st'"
proof (cases "extra_rc L (isa_of obj st) = 0")
  case False
  note st1 = release_inline_state [OF r False]
  have "isDeallocating L (isa_of obj st - RC_ONE L) =
      isDeallocating L (isa_of obj (set_lock c obj False (set_isa obj (isa_of obj st - RC_ONE L) st)))"
    by (simp add: rt_frame)
  from released_intro [OF st1 this] show ?thesis
    using release_step_inline [OF r False, of perform] env_next_running [OF r]
    by (cases "interferes sched") simp_all
next
  case True
  have np: "nonpointer L (isa_of obj st)" "\<not> isDeallocating L (isa_of obj st)" "side_locked c obj st = l"
    "has_sidetable_rc L (isa_of obj st)"
    using r True by (auto simp: running_def object_ok_def rc_ok_def isDeallocating_def)
  have carry: "snd (subc (isa_of obj st) (RC_ONE L) 0)" by (rule sub_RC_ONE_borrow [OF True])
  consider "variant \<noteq> Full" | "variant = Full" "\<not> l" | "variant = Full" "l" by blast
  then show ?thesis
  proof cases
    case 1
    then show ?thesis using np carry by (simp add: rootRelease_step_def Let_def split_beta)
  next
    case 2
    then have r': "running Full obj True sched (set_lock c obj True st)"
      using r running_set_lock by simp
    note e = env_next_running [OF r']
    have "evolved obj 0 st (set_lock c obj True st)" by (simp add: evolved_def)
    then have "evolved obj 0 st (env_next c obj sched (set_lock c obj True st))" by (rule evolved_after [OF _ e(2)])
    then show ?thesis using 2 np carry e
      by (simp add: rootRelease_step_def Let_def split_beta LoadExclusive_def sidetable_lock_eq rt_frame)
  next
    case 3
    then have r3: "running Full obj True sched st" using r by simp
    have "rootRelease_step c obj perform variant l (isa_of obj st) sched st =
        release_borrow c obj perform (isa_of obj st) sched st"
      using 3 np carry by (simp add: rootRelease_step_def Let_def split_beta)
    then show ?thesis using 3 borrow_step_ok [OF r3 True, of perform]
      by (cases "release_borrow c obj perform (isa_of obj st) sched st")
         (simp_all split: release_next.splits)
  qed
qed

lemma released_after:
  "evolved obj 0 st st1 \<Longrightarrow> messages st1 = messages st \<Longrightarrow> released p obj b st1 st2 \<Longrightarrow> released p obj b st st2"
  using evolved_trans [of obj 0 st st1 "- 1" st2] by (auto simp: released_def)

lemma release_loop_ok:
  assumes "running variant obj l sched st"
  shows "\<exists>x sched' st'. rootRelease_loop c obj perform variant l (isa_of obj st) sched st = Some (x, sched', st') \<and>
    (case x of Exit_released b \<Rightarrow> released perform obj b st st'
     | Exit_underflow \<Rightarrow> variant \<noteq> Full \<and> running variant obj False sched' st' \<and> evolved obj 0 st st' \<and>
         messages st' = messages st)"
  using assms
proof (induction "(sched, l)" arbitrary: sched l st
    rule: wf_induct_rule [OF wf_measures [of "[\<lambda>(s, l). length s, \<lambda>(s, l). if l then 0 else 1]"]])
  case less: (1 sched l)
  let ?step = "rootRelease_step c obj perform variant l (isa_of obj st) sched st"
  note ok = release_step_ok [OF less.prems, of perform]
  consider (ret) b sched' st' where "?step = Some (Release_return b sched' st')"
    | (under) "?step = Some (Release_underflow sched st)" "variant \<noteq> Full"
    | (retry) l' b' sched' st' where "?step = Some (Release_retry l' b' sched' st')"
    using ok by (auto split: option.splits release_next.splits)
  then show ?case
  proof cases
    case ret
    then show ?thesis using ok by (subst rootRelease_loop.simps) simp
  next
    case under
    then have "\<not> l" using less.prems by (simp add: running_def)
    then show ?thesis using under less.prems by (subst rootRelease_loop.simps) (simp add: evolved_def)
  next
    case retry
    then have r: "b' = isa_of obj st'" "running variant obj l' sched' st'" "evolved obj 0 st st'"
      "messages st' = messages st" using ok by auto
    have "((sched', l'), (sched, l)) \<in> measures [\<lambda>(s, l). length s, \<lambda>(s, l). if l then 0 else 1]"
      using rootRelease_step_shorter [OF retry] by auto
    from less.hyps [OF this r(2)] obtain x s t where
      h: "rootRelease_loop c obj perform variant l' (isa_of obj st') sched' st' = Some (x, s, t)"
        "case x of Exit_released b \<Rightarrow> released perform obj b st' t
         | Exit_underflow \<Rightarrow> variant \<noteq> Full \<and> running variant obj False s t \<and> evolved obj 0 st' t \<and>
             messages t = messages st'" by blast
    have "rootRelease_loop c obj perform variant l (isa_of obj st) sched st = Some (x, s, t)"
      using retry r(1) h(1) by (subst rootRelease_loop.simps) simp
    moreover have "case x of Exit_released b \<Rightarrow> released perform obj b st t
         | Exit_underflow \<Rightarrow> variant \<noteq> Full \<and> running variant obj False s t \<and> evolved obj 0 st t \<and>
             messages t = messages st"
      using h(2) released_after [OF r(3,4)] evolved_after [OF r(3)] r(4) by (cases x) simp_all
    ultimately show ?thesis by blast
  qed
qed

lemma release_body_ok:
  assumes "may_retain variant obj sched st"
  shows "\<exists>x st'. rootRelease_body c obj perform variant sched st = Some (x, st') \<and>
    (case x of Inl r \<Rightarrow> \<exists>b. r = Released b \<and> released perform obj b st st'
     | Inr sched' \<Rightarrow> variant \<noteq> Full \<and> may_retain Full obj sched' st' \<and> evolved obj 0 st st' \<and>
         messages st' = messages st)"
proof -
  let ?st = "env_next c obj sched st"
  have r: "running variant obj False sched st" using assms by (simp add: may_retain_def running_def)
  note e = env_next_running [OF r]
  have np: "nonpointer L (isa_of obj ?st)" using e(1) by (simp add: running_def object_ok_def rc_ok_def)
  have cr: "variant = FastOrMsgSend \<longrightarrow> \<not> hasCustomRR (classes c (getDecodedClass L (isa_of obj ?st)))"
    using no_custom_rr_env assms by (auto simp: class_of_def)
  have t: "\<not> isTaggedPointer (tag_l c) obj" using assms by (simp add: may_retain_def)
  obtain x sched' st' where l: "rootRelease_loop c obj perform variant False (isa_of obj ?st) (tl sched) ?st = Some (x, sched', st')"
    and x: "case x of Exit_released b \<Rightarrow> released perform obj b ?st st'
     | Exit_underflow \<Rightarrow> variant \<noteq> Full \<and> running variant obj False sched' st' \<and> evolved obj 0 ?st st' \<and>
         messages st' = messages ?st"
    using release_loop_ok [OF e(1)] by blast
  have "rootRelease_body c obj perform variant sched st =
      Some (case x of Exit_released r \<Rightarrow> Inl (Released r) | Exit_underflow \<Rightarrow> Inr sched', st')"
    using l t np cr by (auto simp: rootRelease_body_def LoadExclusive_def Let_def)
  moreover have "case (case x of Exit_released r \<Rightarrow> Inl (Released r) | Exit_underflow \<Rightarrow> Inr sched') of
      Inl r \<Rightarrow> \<exists>b. r = Released b \<and> released perform obj b st st'
     | Inr sched' \<Rightarrow> variant \<noteq> Full \<and> may_retain Full obj sched' st' \<and> evolved obj 0 st st' \<and>
         messages st' = messages st"
    using x t e(3) released_after [OF e(2,3)] evolved_after [OF e(2)]
    by (cases x) (simp_all add: may_retain_def running_def)
  ultimately show ?thesis by blast
qed

lemma rootRelease_ok:
  assumes "may_retain variant obj sched st"
  shows "\<exists>b st'. rootRelease c obj perform variant sched st = Some (Released b, st') \<and> released perform obj b st st'"
proof -
  obtain x st1 where b: "rootRelease_body c obj perform variant sched st = Some (x, st1)"
    and x: "case x of Inl r \<Rightarrow> \<exists>b. r = Released b \<and> released perform obj b st st1
     | Inr sched' \<Rightarrow> variant \<noteq> Full \<and> may_retain Full obj sched' st1 \<and> evolved obj 0 st st1 \<and>
         messages st1 = messages st"
    using release_body_ok [OF assms] by blast
  show ?thesis
  proof (cases x)
    case (Inl r)
    then show ?thesis using b x by (auto simp: rootRelease_def)
  next
    case (Inr sched')
    then have m: "may_retain Full obj sched' st1" "evolved obj 0 st st1" "messages st1 = messages st"
      using x by auto
    obtain y st2 where y: "rootRelease_body c obj perform Full sched' st1 = Some (y, st2)"
      "case y of Inl r \<Rightarrow> \<exists>b. r = Released b \<and> released perform obj b st1 st2
       | Inr sched' \<Rightarrow> Full \<noteq> Full \<and> may_retain Full obj sched' st2 \<and> evolved obj 0 st1 st2 \<and>
           messages st2 = messages st1"
      using release_body_ok [OF m(1)] by blast
    then show ?thesis using b Inr released_after [OF m(2,3)]
      by (cases y) (auto simp: rootRelease_def rootRelease_underflow_def)
  qed
qed

end

section \<open>Configurations\<close>

text \<open>The configurations of an arm64 device, an arm64 simulator and a 64-bit Intel Mac.\<close>

definition device_cfg :: "(u64 \<Rightarrow> class_info) \<Rightarrow> objc_cfg" where
  "device_cfg cl = \<lparr>isa_l = isa_arm64, tag_l = tag_split, StripeCount = 8, classes = cl, DisableNonpointerIsa = False\<rparr>"

definition simulator_cfg :: "(u64 \<Rightarrow> class_info) \<Rightarrow> objc_cfg" where
  "simulator_cfg cl = \<lparr>isa_l = isa_arm64e, tag_l = tag_split, StripeCount = 64, classes = cl, DisableNonpointerIsa = False\<rparr>"

definition mac_cfg :: "(u64 \<Rightarrow> class_info) \<Rightarrow> objc_cfg" where
  "mac_cfg cl = \<lparr>isa_l = isa_x86_64, tag_l = tag_lsb, StripeCount = 64, classes = cl, DisableNonpointerIsa = False\<rparr>"

interpretation device: refcounting "device_cfg cl"
  by unfold_locales (simp add: device_cfg_def arm64.wf)

interpretation simulator: refcounting "simulator_cfg cl"
  by unfold_locales (simp add: simulator_cfg_def arm64e.wf)

interpretation mac: refcounting "mac_cfg cl"
  by unfold_locales (simp add: mac_cfg_def x86_64.wf)

definition plain_class :: class_info where
  "plain_class = \<lparr>hasCustomRR = False, canCallSwiftRR = False, isMetaClass = False, class_hasCxxDtor = False,
     instancesRequireRawIsa = False, isFuture = False, hasCustomDeallocInitiation = False,
     implements_noteAssociatedObjects = False\<rparr>"

definition rt_with_isa :: "u64 \<Rightarrow> objc_rt" where
  "rt_with_isa b = \<lparr>isa_mem = (\<lambda>_. b),
     SideTables = (\<lambda>_. \<lparr>slock = False, refcnts = Map.empty, weak_table = Map.empty\<rparr>),
     weak_vars = (\<lambda>_. 0), messages = [], others_delta = 0\<rparr>"

lemma packed_layouts: "isa_l c \<in> {isa_arm64, isa_arm64e, isa_x86_64} \<Longrightarrow> refcounting c"
  unfolding refcounting_def packed_isa_def using arm64.wf arm64e.wf x86_64.wf by auto

lemmas witness_simps =
  device_cfg_def rt_with_isa_def plain_class_def isTaggedPointer_def tag_split_sel isa_arm64_def
  object_ok_def rc_ok_def retain_count_def pair_count_def side_locked_def table_of_def isa_of_def
  refcnt_at_def rely_def isDeallocating_def nonpointer_def has_sidetable_rc_def extra_rc_def
  bf_get_def getDecodedClass_def class_of_def

text \<open>A sample object at address 0x1000 with an inline count of five, for the witnesses.\<close>

definition sample_cfg :: objc_cfg where
  "sample_cfg = device_cfg (\<lambda>_. plain_class)"

lemma sample_object:
  "isa_l sample_cfg \<in> {isa_arm64, isa_arm64e, isa_x86_64}" "\<not> isTaggedPointer (tag_l sample_cfg) 0x1000"
  "object_ok (2 ^ 62) sample_cfg 0x1000 (rt_with_isa 0x0000a1a000002001)"
  "0 < retain_count sample_cfg 0x1000 (rt_with_isa 0x0000a1a000002001)"
  "\<not> side_locked sample_cfg 0x1000 (rt_with_isa 0x0000a1a000002001)"
  "retain_count sample_cfg 0x1000 (rt_with_isa 0x0000a1a000002001) = 5"
  "others_delta (rt_with_isa 0x0000a1a000002001) = 0"
  "\<not> hasCustomRR (class_of sample_cfg 0x1000 (rt_with_isa 0x0000a1a000002001))"
  by (simp_all add: sample_cfg_def witness_simps)

lemma sample_rely: "rely sample_cfg [Quiet, Interfere 0xffffe1a000002001 None]"
  by (simp add: sample_cfg_def witness_simps)

section \<open>Properties\<close>

text \<open>
  C1: Retain adds one. For a live object with a packed isa, \<open>rootRetain\<close> of every variant, run
  against any interference of other threads that keeps the object alive, does not abort and
  returns the object; the logical count (inline plus side table) changes by what the others
  contributed and one more, even when the inline count overflows and half of it is moved to
  the side table; the invariant holds again, the side table is unlocked, no message is sent
  and no other object is touched.
\<close>

theorem retain_adds_one:
  assumes "isa_l c \<in> {isa_arm64, isa_arm64e, isa_x86_64}" "\<not> isTaggedPointer (tag_l c) obj"
    and "object_ok (2 ^ 62) c obj st" "0 < retain_count c obj st" "\<not> side_locked c obj st"
    and "rely c sched" "variant = FastOrMsgSend \<longrightarrow> \<not> hasCustomRR (class_of c obj st)"
  shows "\<exists>st'. rootRetain c obj False variant sched st = Some (Retained obj, st') \<and>
    int (retain_count c obj st') = int (retain_count c obj st) + (others_delta st' - others_delta st) + 1 \<and>
    object_ok (2 ^ 63) c obj st' \<and> \<not> side_locked c obj st' \<and>
    messages st' = messages st \<and> others_same c obj st st'"
proof -
  have rr: "refcounting c" by (rule packed_layouts [OF assms(1)])
  have "\<not> isDeallocating (isa_l c) (isa_of obj st)"
    by (rule refcounting.live_not_deallocating [OF rr assms(3,4)])
  then have "refcounting.may_retain c variant obj sched st"
    using assms by (simp add: refcounting.may_retain_def [OF rr])
  from refcounting.rootRetain_ok [OF rr this] show ?thesis
    by (auto simp: refcounting.retained_def [OF rr] refcounting.evolved_def [OF rr] net_count_def)
qed

theorem retain_adds_one_witness:
  "\<exists>st'. rootRetain sample_cfg 0x1000 False Fast [Quiet, Interfere 0xffffe1a000002001 None]
       (rt_with_isa 0x0000a1a000002001) = Some (Retained 0x1000, st') \<and>
     int (retain_count sample_cfg 0x1000 st') = 5 + others_delta st' + 1"
  using retain_adds_one [OF sample_object(1-5) sample_rely, of Fast] sample_object(6,7) by auto



end
