(* ===== verification/Objects.thy ===== *)
theory Objects
  imports Refcount
begin

text \<open>
  The life of an object around its count (\<^verbatim>\<open>runtime/objc-object.h\<close>): setting up the isa word,
  changing the class of a live object, the flags for associated objects and weak references,
  and what \<open>dealloc\<close> does at the end. \<open>changeIsa\<close> and the two flag setters are
  compare-and-swap loops and run against the same schedules of interference as retain and
  release. The last sections model the build without packed isas, where all counts live in
  the side tables, and relate it to a plain count.
\<close>

section \<open>Reading the isa\<close>

definition isClass :: "objc_cfg \<Rightarrow> u64 \<Rightarrow> objc_rt \<Rightarrow> bool" where
  "isClass c obj st \<longleftrightarrow> \<not> isTaggedPointer (tag_l c) obj \<and> isMetaClass (class_of c obj st)"

definition isaBits :: "u64 \<Rightarrow> objc_rt \<Rightarrow> u64" where
  "isaBits obj st = isa_of obj st"

definition rawISA :: "objc_cfg \<Rightarrow> u64 \<Rightarrow> objc_rt \<Rightarrow> u64 option" where
  "rawISA c obj st = do {
     assert_opt (\<not> isTaggedPointer (tag_l c) obj \<and> \<not> nonpointer (isa_l c) (isa_of obj st));
     Some (isa_of obj st)
   }"

definition hasNonpointerIsa :: "objc_cfg \<Rightarrow> u64 \<Rightarrow> objc_rt \<Rightarrow> bool" where
  "hasNonpointerIsa c obj st = nonpointer (isa_l c) (isa_of obj st)"

section \<open>Setting up the isa\<close>

definition initIsa ::
  "objc_cfg \<Rightarrow> u64 \<Rightarrow> u64 \<Rightarrow> bool \<Rightarrow> bool \<Rightarrow> objc_rt \<Rightarrow> objc_rt option" where
  "initIsa c obj cls nonptr dtor st = do {
     let L = isa_l c;
     assert_opt (\<not> isTaggedPointer (tag_l c) obj);
     newisa \<leftarrow>
       (if \<not> nonptr then Some (setClass L cls 0)
        else do {
          assert_opt (\<not> DisableNonpointerIsa c);
          assert_opt (\<not> instancesRequireRawIsa (classes c cls));
          let b = ISA_MAGIC_VALUE L;
          let b = (if ISA_HAS_CXX_DTOR_BIT L then put_flag (has_cxx_dtor_f L) dtor b else b);
          let b = setClass L cls b;
          Some (bf_put (extra_rc_f L) 1 b)
        });
     Some (set_isa obj newisa st)
   }"

definition initIsa_raw :: "objc_cfg \<Rightarrow> u64 \<Rightarrow> u64 \<Rightarrow> objc_rt \<Rightarrow> objc_rt option" where
  "initIsa_raw c obj cls st = initIsa c obj cls False False st"

definition initClassIsa :: "objc_cfg \<Rightarrow> u64 \<Rightarrow> u64 \<Rightarrow> objc_rt \<Rightarrow> objc_rt option" where
  "initClassIsa c obj cls st =
     (if DisableNonpointerIsa c \<or> instancesRequireRawIsa (classes c cls)
      then initIsa c obj cls False False st
      else initIsa c obj cls True False st)"

definition initProtocolIsa :: "objc_cfg \<Rightarrow> u64 \<Rightarrow> u64 \<Rightarrow> objc_rt \<Rightarrow> objc_rt option" where
  "initProtocolIsa c obj cls st = initClassIsa c obj cls st"

definition initInstanceIsa :: "objc_cfg \<Rightarrow> u64 \<Rightarrow> u64 \<Rightarrow> bool \<Rightarrow> objc_rt \<Rightarrow> objc_rt option" where
  "initInstanceIsa c obj cls dtor st = do {
     assert_opt (\<not> instancesRequireRawIsa (classes c cls));
     assert_opt (dtor = class_hasCxxDtor (classes c cls));
     initIsa c obj cls True dtor st
   }"

section \<open>Changing the class\<close>

definition canAllocNonpointer :: "class_info \<Rightarrow> bool option" where
  "canAllocNonpointer cls = do {
     assert_opt (\<not> isFuture cls);
     Some (\<not> instancesRequireRawIsa cls)
   }"

record change_state =
  ch_oldisa :: u64
  ch_newisa :: u64
  ch_locked :: bool
  ch_transcribe :: bool

text \<open>
  The part of a turn of the loop before the conditional store. The local \<open>newisa\<close> lives across
  the turns of the loop.
\<close>

definition changeIsa_prepare ::
  "objc_cfg \<Rightarrow> u64 \<Rightarrow> u64 \<Rightarrow> change_state \<Rightarrow> objc_rt \<Rightarrow> (change_state \<times> objc_rt) option" where
  "changeIsa_prepare c obj newCls s st = do {
     let L = isa_l c;
     let oldisa = ch_oldisa s;
     packed \<leftarrow> (if (oldisa = 0 \<or> nonpointer L oldisa) \<and> \<not> isFuture (classes c newCls)
                then canAllocNonpointer (classes c newCls) else Some False);
     if packed then
       let b = (if oldisa = 0 then bf_put (extra_rc_f L) 1 (ISA_MAGIC_VALUE L) else oldisa);
           b = (if ISA_HAS_CXX_DTOR_BIT L
                then put_flag (has_cxx_dtor_f L) (class_hasCxxDtor (classes c newCls)) b else b) in
       Some (s\<lparr>ch_newisa := setClass L newCls b, ch_transcribe := False\<rparr>, st)
     else if nonpointer L oldisa then do {
       st' \<leftarrow> (if \<not> ch_locked s then sidetable_lock c obj st else Some st);
       Some (s\<lparr>ch_newisa := setClass L newCls (ch_newisa s), ch_locked := True, ch_transcribe := True\<rparr>, st')
     }
     else Some (s\<lparr>ch_newisa := setClass L newCls (ch_newisa s), ch_transcribe := False\<rparr>, st)
   }"

function changeIsa_loop ::
  "objc_cfg \<Rightarrow> u64 \<Rightarrow> u64 \<Rightarrow> change_state \<Rightarrow> interference list \<Rightarrow> objc_rt \<Rightarrow>
     (change_state \<times> interference list \<times> objc_rt) option" where
  "changeIsa_loop c obj newCls s sched st =
     (case changeIsa_prepare c obj newCls s st of
        None \<Rightarrow> None
      | Some (s1, st1) \<Rightarrow>
          if interferes sched then
            changeIsa_loop c obj newCls
              (s1\<lparr>ch_oldisa := fst (snd (StoreExclusive c obj (ch_oldisa s1) (ch_newisa s1) sched st1))\<rparr>)
              (fst (snd (snd (StoreExclusive c obj (ch_oldisa s1) (ch_newisa s1) sched st1))))
              (snd (snd (snd (StoreExclusive c obj (ch_oldisa s1) (ch_newisa s1) sched st1))))
          else Some (s1, fst (snd (snd (StoreExclusive c obj (ch_oldisa s1) (ch_newisa s1) sched st1))),
                     snd (snd (snd (StoreExclusive c obj (ch_oldisa s1) (ch_newisa s1) sched st1)))))"
  by pat_completeness auto
termination
  by (relation "measure (\<lambda>(c, obj, newCls, s, sched, st). length sched)")
     (auto simp: StoreExclusive_def Let_def dest: interferes_length)

declare changeIsa_loop.simps [simp del]

definition changeIsa ::
  "objc_cfg \<Rightarrow> u64 \<Rightarrow> u64 \<Rightarrow> interference list \<Rightarrow> objc_rt \<Rightarrow> (u64 \<times> objc_rt) option" where
  "changeIsa c obj newCls sched st = do {
     let L = isa_l c;
     assert_opt (\<not> isTaggedPointer (tag_l c) obj);
     let (oldisa, sched1, st1) = LoadExclusive c obj sched st;
     (s, sched2, st2) \<leftarrow> changeIsa_loop c obj newCls
        \<lparr>ch_oldisa = oldisa, ch_newisa = 0, ch_locked = False, ch_transcribe = False\<rparr> sched1 st1;
     st3 \<leftarrow> (if ch_transcribe s
             then sidetable_moveExtraRC_nolock c obj (extra_rc L (ch_oldisa s))
                    (isDeallocating L (ch_oldisa s)) (weakly_referenced L (ch_oldisa s)) st2
             else Some st2);
     st4 \<leftarrow> (if ch_locked s then sidetable_unlock c obj st3 else Some st3);
     Some (getDecodedClass L (ch_oldisa s), st4)
   }"

section \<open>Associated objects and weak references\<close>

definition hasAssociatedObjects :: "objc_cfg \<Rightarrow> u64 \<Rightarrow> objc_rt \<Rightarrow> bool" where
  "hasAssociatedObjects c obj st =
     (if isTaggedPointer (tag_l c) obj then True
      else if nonpointer (isa_l c) (isa_of obj st) then has_assoc (isa_l c) (isa_of obj st)
      else True)"

text \<open>The loop of \<open>setHasAssociatedObjects\<close>.\<close>

function set_assoc_loop ::
  "objc_cfg \<Rightarrow> u64 \<Rightarrow> u64 \<Rightarrow> interference list \<Rightarrow> objc_rt \<Rightarrow> objc_rt" where
  "set_assoc_loop c obj oldisa sched st =
     (let L = isa_l c in
      if \<not> nonpointer L oldisa \<or> has_assoc L oldisa then st
      else if interferes sched then
        (let (_, oldisa', sched', st') = StoreExclusive c obj oldisa (put_flag (has_assoc_f L) True oldisa) sched st in
         set_assoc_loop c obj oldisa' sched' st')
      else snd (snd (snd (StoreExclusive c obj oldisa (put_flag (has_assoc_f L) True oldisa) sched st))))"
  by pat_completeness auto
termination
  by (relation "measure (\<lambda>(c, obj, oldisa, sched, st). length sched)")
     (auto simp: StoreExclusive_def Let_def dest: interferes_length)

declare set_assoc_loop.simps [simp del]

definition setHasAssociatedObjects ::
  "objc_cfg \<Rightarrow> u64 \<Rightarrow> interference list \<Rightarrow> objc_rt \<Rightarrow> objc_rt" where
  "setHasAssociatedObjects c obj sched st =
     (if isTaggedPointer (tag_l c) obj then st
      else
        let cls = class_of c obj st;
            st0 = (if (\<not> hasNonpointerIsa c obj st \<and> hasCustomRR cls) \<and> \<not> isFuture cls \<and> \<not> isMetaClass cls \<and>
                      implements_noteAssociatedObjects cls
                   then st\<lparr>messages := messages st @ [Msg_noteAssociatedObjects obj]\<rparr> else st);
            (oldisa, sched1, st1) = LoadExclusive c obj sched st0 in
        set_assoc_loop c obj oldisa sched1 st1)"

definition isWeaklyReferenced :: "objc_cfg \<Rightarrow> u64 \<Rightarrow> objc_rt \<Rightarrow> (bool \<times> objc_rt) option" where
  "isWeaklyReferenced c obj st = do {
     assert_opt (\<not> isTaggedPointer (tag_l c) obj);
     if nonpointer (isa_l c) (isa_of obj st) then Some (weakly_referenced (isa_l c) (isa_of obj st), st)
     else sidetable_isWeaklyReferenced c obj st
   }"

function set_weak_loop ::
  "objc_cfg \<Rightarrow> u64 \<Rightarrow> u64 \<Rightarrow> interference list \<Rightarrow> objc_rt \<Rightarrow> objc_rt option" where
  "set_weak_loop c obj oldisa sched st =
     (let L = isa_l c in
      if \<not> nonpointer L oldisa then sidetable_setWeaklyReferenced_nolock c obj st
      else if weakly_referenced L oldisa then Some st
      else if interferes sched then
        (let (_, oldisa', sched', st') =
           StoreExclusive c obj oldisa (put_flag (weakly_referenced_f L) True oldisa) sched st in
         set_weak_loop c obj oldisa' sched' st')
      else Some (snd (snd (snd (StoreExclusive c obj oldisa (put_flag (weakly_referenced_f L) True oldisa) sched st)))))"
  by pat_completeness auto
termination
  by (relation "measure (\<lambda>(c, obj, oldisa, sched, st). length sched)")
     (auto simp: StoreExclusive_def Let_def dest: interferes_length)

declare set_weak_loop.simps [simp del]

definition setWeaklyReferenced_nolock ::
  "objc_cfg \<Rightarrow> u64 \<Rightarrow> interference list \<Rightarrow> objc_rt \<Rightarrow> objc_rt option" where
  "setWeaklyReferenced_nolock c obj sched st =
     (let (oldisa, sched1, st1) = LoadExclusive c obj sched st in set_weak_loop c obj oldisa sched1 st1)"

text \<open>\<open>isUniquelyReferenced\<close> sends \<open>retainCount\<close> to classes that override the counting.\<close>

datatype unique_result = Unique_answer bool | Send_retainCount

definition isUniquelyReferenced :: "objc_cfg \<Rightarrow> u64 \<Rightarrow> objc_rt \<Rightarrow> (unique_result \<times> objc_rt) option" where
  "isUniquelyReferenced c obj st = do {
     assert_opt (\<not> isTaggedPointer (tag_l c) obj);
     if \<not> hasCustomRR (class_of c obj st) then do {
       (n, st') \<leftarrow> rootRetainCount c obj st;
       Some (Unique_answer (n = 1), st')
     } else Some (Send_retainCount, st)
   }"

section \<open>The end of an object\<close>

definition hasCxxDtor :: "objc_cfg \<Rightarrow> u64 \<Rightarrow> objc_rt \<Rightarrow> bool option" where
  "hasCxxDtor c obj st = do {
     assert_opt (\<not> isTaggedPointer (tag_l c) obj);
     Some (if ISA_HAS_CXX_DTOR_BIT (isa_l c) \<and> nonpointer (isa_l c) (isa_of obj st)
           then has_cxx_dtor (isa_l c) (isa_of obj st)
           else class_hasCxxDtor (class_of c obj st))
   }"

definition rootIsDeallocating :: "objc_cfg \<Rightarrow> u64 \<Rightarrow> objc_rt \<Rightarrow> bool" where
  "rootIsDeallocating c obj st =
     (if isTaggedPointer (tag_l c) obj then False
      else if nonpointer (isa_l c) (isa_of obj st) then isDeallocating (isa_l c) (isa_of obj st)
      else sidetable_isDeallocating c obj st)"

definition clearDeallocating :: "objc_cfg \<Rightarrow> u64 \<Rightarrow> objc_rt \<Rightarrow> objc_rt option" where
  "clearDeallocating c obj st = do {
     let b = isa_of obj st;
     st1 \<leftarrow> (if \<not> nonpointer (isa_l c) b then sidetable_clearDeallocating c obj st
             else if weakly_referenced (isa_l c) b \<or> has_sidetable_rc (isa_l c) b
               then clearDeallocating_slow c obj st
             else Some st);
     (present, st2) \<leftarrow> sidetable_present c obj st1;
     assert_opt (\<not> present);
     Some st2
   }"

definition rootDealloc :: "objc_cfg \<Rightarrow> u64 \<Rightarrow> objc_rt \<Rightarrow> objc_rt option" where
  "rootDealloc c obj st =
     (let L = isa_l c; b = isa_of obj st in
      if isTaggedPointer (tag_l c) obj then Some st
      else if nonpointer L b \<and> \<not> weakly_referenced L b \<and> \<not> has_assoc L b \<and>
              \<not> (if ISA_HAS_CXX_DTOR_BIT L then has_cxx_dtor L b else class_hasCxxDtor (classes c (getClass L b))) \<and>
              \<not> has_sidetable_rc L b then do {
        (present, st1) \<leftarrow> sidetable_present c obj st;
        assert_opt (\<not> present);
        Some (st1\<lparr>messages := messages st1 @ [Free obj]\<rparr>)
      }
      else Some (st\<lparr>messages := messages st @ [Object_dispose obj]\<rparr>))"


section \<open>Facts about the flags\<close>

context refcounting
begin

lemma put_low_flag:
  assumes f: "f \<in> {has_assoc_f L, weakly_referenced_f L, has_cxx_dtor_f L}"
  shows "extra_rc L (put_flag f v b) = extra_rc L b"
    and "has_sidetable_rc L (put_flag f v b) = has_sidetable_rc L b"
    and "nonpointer L (put_flag f v b) = nonpointer L b"
    and "getClass L (put_flag f v b) = getClass L b"
proof -
  have lf: "fst f + snd f \<le> RC_HAS_SIDETABLE_BIT L"
    using f low_field_bound by (auto simp: low_fields_def)
  show "extra_rc L (put_flag f v b) = extra_rc L b"
    unfolding extra_rc_def by (rule bf_get_flag_other) (use lf shape in simp)
  show "has_sidetable_rc L (put_flag f v b) = has_sidetable_rc L b"
    unfolding has_sidetable_rc_def by (subst bf_get_flag_other) (use lf shape in simp_all)
  have "bf_disjoint (nonpointer_f L) f" using f low_fields_disjoint by auto
  then show "nonpointer L (put_flag f v b) = nonpointer L b"
    unfolding nonpointer_def by (subst bf_get_flag_other) simp_all
  have "bf_disjoint (shiftcls_f L) f" using f low_fields_disjoint by (auto simp: disj_commute)
  then show "getClass L (put_flag f v b) = getClass L b"
    by (simp add: getClass_field bf_get_flag_other)
qed

end

context refcounting
begin

lemma reclassed_fields:
  fixes cls b :: u64 and d :: bool
  defines "n \<equiv> setClass L cls (if ISA_HAS_CXX_DTOR_BIT L then put_flag (has_cxx_dtor_f L) d b else b)"
  shows "extra_rc L n = extra_rc L b" "has_sidetable_rc L n = has_sidetable_rc L b" "nonpointer L n = nonpointer L b"
    "cls AND ISA_MASK L = cls \<Longrightarrow> getClass L n = cls"
    "ISA_HAS_CXX_DTOR_BIT L \<Longrightarrow> has_cxx_dtor L n = d"
proof -
  have w: "snd (has_cxx_dtor_f L) = 1" "fst (has_cxx_dtor_f L) < 64" if "ISA_HAS_CXX_DTOR_BIT L"
  proof -
    show "snd (has_cxx_dtor_f L) = 1" using wf that unfolding wf_layout_def by blast
    then show "fst (has_cxx_dtor_f L) < 64"
      using low_field_bound [of "has_cxx_dtor_f L"] shape(1,4) by (simp add: low_fields_def)
  qed
  show "extra_rc L n = extra_rc L b" "has_sidetable_rc L n = has_sidetable_rc L b" "nonpointer L n = nonpointer L b"
    by (simp_all add: n_def setClass_fields put_low_flag)
  show "getClass L n = cls" if "cls AND ISA_MASK L = cls" using that by (simp add: n_def getClass_setClass)
  show "has_cxx_dtor L n = d" if "ISA_HAS_CXX_DTOR_BIT L"
    using w [OF that] that unfolding n_def setClass_fields by (simp add: has_cxx_dtor_def bf_get_flag)
qed

lemma take_one: "take_bit (64 - RC_ONE_BIT L) (1 :: u64) = 1"
  using shape(1) by (simp add: take_bit_of_1)

lemma initIsa_packed:
  assumes "\<not> isTaggedPointer (tag_l c) obj" "\<not> DisableNonpointerIsa c"
    and "\<not> instancesRequireRawIsa (classes c cls)" "cls AND ISA_MASK L = cls" "refcnt_at c obj st = None"
  obtains st' where "initIsa c obj cls True d st = Some st'"
    and "object_ok (2 ^ 62) c obj st'" "retain_count c obj st' = 1" "\<not> isDeallocating L (isa_of obj st')"
    and "getDecodedClass L (isa_of obj st') = cls"
    and "ISA_HAS_CXX_DTOR_BIT L \<Longrightarrow> has_cxx_dtor L (isa_of obj st') = d"
    and "side_locked c obj st' = side_locked c obj st" "others_same c obj st st'" "messages st' = messages st"
proof -
  define b where "b = setClass L cls (if ISA_HAS_CXX_DTOR_BIT L
    then put_flag (has_cxx_dtor_f L) d (ISA_MAGIC_VALUE L) else ISA_MAGIC_VALUE L)"
  let ?n = "bf_put (extra_rc_f L) 1 b"
  note r = reclassed_fields [of cls d "ISA_MAGIC_VALUE L", folded b_def] and s = same_metaD [OF put_extra_rc(3), of 1 b]
  have e: "initIsa c obj cls True d st = Some (set_isa obj ?n st)"
    using assms(1-3) by (simp add: initIsa_def assert_opt_def Let_def b_def)
  have n: "extra_rc L ?n = 1" "\<not> has_sidetable_rc L ?n" "nonpointer L ?n" "getClass L ?n = cls"
    using r(2,3) r(4) [OF assms(4)] s(1,5) magic_fields(2,3) shape(1) by (simp_all add: put_extra_rc take_one)
  show thesis
    by (rule that [OF e])
      (use n assms(5) r(5) s(3) in \<open>simp_all add: object_ok_def rc_ok_def rt_frame retain_count_def pair_count_def
         isDeallocating_def getDecodedClass_def\<close>)
qed

lemma changeIsa_prepare_packed:
  assumes "nonpointer L (ch_oldisa s)" "\<not> isFuture (classes c newCls)" "\<not> instancesRequireRawIsa (classes c newCls)"
    "ch_oldisa s \<noteq> 0"
  obtains s' where "changeIsa_prepare c obj newCls s st = Some (s', st)"
    and "ch_oldisa s' = ch_oldisa s" "ch_locked s' = ch_locked s" "\<not> ch_transcribe s'"
    and "extra_rc L (ch_newisa s') = extra_rc L (ch_oldisa s)"
    and "has_sidetable_rc L (ch_newisa s') = has_sidetable_rc L (ch_oldisa s)"
    and "nonpointer L (ch_newisa s')"
    and "newCls AND ISA_MASK L = newCls \<Longrightarrow> getClass L (ch_newisa s') = newCls"
  using that assms reclassed_fields [of newCls "class_hasCxxDtor (classes c newCls)" "ch_oldisa s"]
  by (simp add: changeIsa_prepare_def canAllocNonpointer_def assert_opt_def Let_def)

end

context refcounting
begin

definition reclassed :: "u64 \<Rightarrow> u64 \<Rightarrow> objc_rt \<Rightarrow> objc_rt \<Rightarrow> bool" where
  "reclassed obj newCls st st' \<longleftrightarrow>
     object_ok (2 ^ 62) c obj st' \<and> \<not> isDeallocating L (isa_of obj st') \<and> \<not> side_locked c obj st' \<and>
     evolved obj 0 st st' \<and> messages st' = messages st \<and> getDecodedClass L (isa_of obj st') = newCls"

lemma reclassed_after:
  "evolved obj 0 st st1 \<Longrightarrow> messages st1 = messages st \<Longrightarrow> reclassed obj newCls st1 st2 \<Longrightarrow> reclassed obj newCls st st2"
  unfolding reclassed_def using evolved_after by fastforce

lemma nonpointer_nonzero: "nonpointer L b \<Longrightarrow> b \<noteq> 0"
  by (auto simp: nonpointer_def bf_get_def)

lemma stored_reclassed:
  assumes "running Fast obj False sched st" and "extra_rc L n = extra_rc L (isa_of obj st)"
    "has_sidetable_rc L n = has_sidetable_rc L (isa_of obj st)" "nonpointer L n" "getClass L n = newCls"
  shows "reclassed obj newCls st (set_isa obj n st)"
  using assms by (simp add: running_def reclassed_def object_ok_def rc_ok_def rt_frame evolved_def net_count_def
      retain_count_def pair_count_def isDeallocating_def getDecodedClass_def)

lemma changeIsa_loop_packed:
  assumes cls: "\<not> isFuture (classes c newCls)" "\<not> instancesRequireRawIsa (classes c newCls)"
    "newCls AND ISA_MASK L = newCls"
  shows "running Fast obj False sched st \<Longrightarrow> ch_oldisa s = isa_of obj st \<Longrightarrow> \<not> ch_locked s \<Longrightarrow>
    \<exists>s' sched' st'. changeIsa_loop c obj newCls s sched st = Some (s', sched', st') \<and>
      \<not> ch_locked s' \<and> \<not> ch_transcribe s' \<and> reclassed obj newCls st st'"
proof (induction sched arbitrary: s st)
  case Nil
  have np: "nonpointer L (ch_oldisa s)" using Nil by (simp add: running_def object_ok_def rc_ok_def)
  obtain s' where s': "changeIsa_prepare c obj newCls s st = Some (s', st)"
    "ch_oldisa s' = ch_oldisa s" "ch_locked s' = ch_locked s" "\<not> ch_transcribe s'"
    "extra_rc L (ch_newisa s') = extra_rc L (ch_oldisa s)"
    "has_sidetable_rc L (ch_newisa s') = has_sidetable_rc L (ch_oldisa s)"
    "nonpointer L (ch_newisa s')" "getClass L (ch_newisa s') = newCls"
    using changeIsa_prepare_packed [OF np cls(1,2) nonpointer_nonzero [OF np]] cls(3) by metis
  then show ?case
    using Nil stored_reclassed [OF Nil(1), of "ch_newisa s'" newCls]
    by (simp add: changeIsa_loop.simps [of c obj newCls s "[]"] StoreExclusive_def)
next
  case (Cons i rest)
  have np: "nonpointer L (ch_oldisa s)" using Cons.prems by (simp add: running_def object_ok_def rc_ok_def)
  obtain s' where s': "changeIsa_prepare c obj newCls s st = Some (s', st)"
    "ch_oldisa s' = ch_oldisa s" "ch_locked s' = ch_locked s" "\<not> ch_transcribe s'"
    "extra_rc L (ch_newisa s') = extra_rc L (ch_oldisa s)"
    "has_sidetable_rc L (ch_newisa s') = has_sidetable_rc L (ch_oldisa s)"
    "nonpointer L (ch_newisa s')" "getClass L (ch_newisa s') = newCls"
    using changeIsa_prepare_packed [OF np cls(1,2) nonpointer_nonzero [OF np]] cls(3) by metis
  note e = env_next_running [OF Cons.prems(1)]
  show ?case
  proof (cases "interferes (i # rest)")
    case False
    then show ?thesis
      using s' Cons.prems stored_reclassed [OF Cons.prems(1), of "ch_newisa s'" newCls]
      by (simp add: changeIsa_loop.simps [of c obj newCls s "i # rest"] StoreExclusive_def)
  next
    case True
    let ?st = "env_next c obj (i # rest) st"
    from Cons.IH [of ?st "s'\<lparr>ch_oldisa := isa_of obj ?st\<rparr>"] e(1) s'(3) Cons.prems(3)
    show ?thesis
      using s'(1) True reclassed_after [OF e(2,3)]
      by (auto simp: changeIsa_loop.simps [of c obj newCls s "i # rest"] StoreExclusive_def Let_def)
  qed
qed

lemma changeIsa_packed_ok:
  assumes "\<not> isTaggedPointer (tag_l c) obj" "running Fast obj False sched st"
    and "\<not> isFuture (classes c newCls)" "\<not> instancesRequireRawIsa (classes c newCls)"
    "newCls AND ISA_MASK L = newCls"
  shows "\<exists>old st'. changeIsa c obj newCls sched st = Some (old, st') \<and> reclassed obj newCls st st'"
proof -
  note e = env_next_running [OF assms(2)]
  from changeIsa_loop_packed [OF assms(3-5) e(1),
      of "\<lparr>ch_oldisa = isa_of obj (env_next c obj sched st), ch_newisa = 0, ch_locked = False, ch_transcribe = False\<rparr>"]
  show ?thesis using assms(1) reclassed_after [OF e(2,3)]
    by (auto simp: changeIsa_def assert_opt_def LoadExclusive_def Let_def)
qed

end

context refcounting
begin

lemma setClass_raw:
  assumes "newCls AND ISA_MASK L = newCls"
  shows "\<not> nonpointer L (setClass L newCls 0)" "getDecodedClass L (setClass L newCls 0) = newCls"
proof -
  have "\<not> nonpointer L 0" by (simp add: nonpointer_def bf_get_def)
  then show "\<not> nonpointer L (setClass L newCls 0)" by (simp only: setClass_fields not_False_eq_True)
  show "getDecodedClass L (setClass L newCls 0) = newCls"
    using assms by (simp add: getClass_setClass getDecodedClass_def)
qed

lemma changeIsa_raw:
  assumes "\<not> isTaggedPointer (tag_l c) obj" "nonpointer L (isa_of obj st)" "\<not> side_locked c obj st"
    and "\<not> isFuture (classes c newCls)" "instancesRequireRawIsa (classes c newCls)"
  shows "changeIsa c obj newCls [] st = do {
     st' \<leftarrow> sidetable_moveExtraRC_nolock c obj (extra_rc L (isa_of obj st)) (isDeallocating L (isa_of obj st))
       (weakly_referenced L (isa_of obj st)) (set_isa obj (setClass L newCls 0) (set_lock c obj True st));
     st'' \<leftarrow> sidetable_unlock c obj st';
     Some (getDecodedClass L (isa_of obj st), st'')}"
  using assms nonpointer_nonzero [OF assms(2)]
  by (simp add: changeIsa_def changeIsa_loop.simps [of _ _ _ _ "[]"] changeIsa_prepare_def canAllocNonpointer_def
      assert_opt_def Let_def LoadExclusive_def StoreExclusive_def sidetable_lock_eq rt_frame)

lemma moved_count:
  assumes "0 < n" "n < 2 ^ 60" "unat v < 2 ^ 62"
  shows "addc v (push_bit 2 (of_nat n - 1)) 0 = (v + push_bit 2 (of_nat n - 1), False)"
    and "unat (v + push_bit 2 (of_nat n - 1)) = unat v + 4 * (n - 1)"
proof -
  have q: "push_bit 2 (of_nat n - 1 :: u64) = of_nat (4 * (n - 1))"
    using assms(1) by (simp add: push_bit_eq_mult of_nat_diff)
  have "4 * (n - 1) < 2 ^ 64" using assms(2) by simp
  then have "unat (of_nat (4 * (n - 1)) :: u64) = 4 * (n - 1)"
    by (simp only: unat_of_nat len_num0 len_num1 len_bit0 len_bit1) (simp add: take_bit_nat_eq_self)
  then have p: "unat (push_bit 2 (of_nat n - 1 :: u64)) = 4 * (n - 1)" by (simp only: q)
  then have "unat v + unat (push_bit 2 (of_nat n - 1 :: u64)) < 2 ^ 64" using assms(2,3) by simp
  then show "addc v (push_bit 2 (of_nat n - 1)) 0 = (v + push_bit 2 (of_nat n - 1), False)"
    and "unat (v + push_bit 2 (of_nat n - 1)) = unat v + 4 * (n - 1)"
    using p unat_add_lem [of v "push_bit 2 (of_nat n - 1)"] by (simp_all add: addc_def)
qed

lemma rootRetainCount_raw:
  assumes "\<not> isTaggedPointer (tag_l c) obj" "\<not> nonpointer L (isa_of obj st)" "\<not> side_locked c obj st"
    "refcnt_at c obj st = Some v"
  shows "rootRetainCount c obj st = Some (1 + drop_bit 2 v, st)"
  using assms by (simp add: rootRetainCount_def sidetable_retainCount_def sidetable_lock_eq sidetable_unlock_eq
      rt_frame Let_def set_lock_same)

lemma changeIsa_raw_ok:
  assumes "\<not> isTaggedPointer (tag_l c) obj" "object_ok (2 ^ 62) c obj st" "\<not> side_locked c obj st"
    and "\<not> isFuture (classes c newCls)" "instancesRequireRawIsa (classes c newCls)" "newCls AND ISA_MASK L = newCls"
    and x: "extra_rc L (isa_of obj st) \<noteq> 0"
  obtains st' where "changeIsa c obj newCls [] st = Some (getDecodedClass L (isa_of obj st), st')"
    "getDecodedClass L (isa_of obj st') = newCls"
    "rootRetainCount c obj st' = Some (of_nat (retain_count c obj st), st')"
    "\<not> side_locked c obj st'" "others_same c obj st st'" "messages st' = messages st"
proof -
  let ?b = "isa_of obj st" and ?n = "unat (extra_rc L (isa_of obj st))"
  define v where "v = (case refcnt_at c obj st of None \<Rightarrow> 0 | Some w \<Rightarrow> w)"
  define w where "w = v + push_bit 2 (of_nat ?n - 1)"
  define u where "u = (if weakly_referenced L ?b then w OR 1 else w)"
  have np: "nonpointer L ?b" using assms(2) by (simp add: object_ok_def rc_ok_def)
  have v: "unat v < 2 ^ 62 \<and> 4 dvd unat v \<and> retain_count c obj st = ?n + unat v div 4"
  proof (cases "refcnt_at c obj st")
    case None
    then show ?thesis using assms(2)
      by (simp add: v_def object_ok_def rc_ok_def retain_count_def pair_count_def split: if_splits)
  next
    case (Some w)
    then have r: "rc_ok (2 ^ 62) L ?b (Some w)" using assms(2) by (simp add: object_ok_def)
    then have "has_sidetable_rc L ?b" by (simp add: rc_ok_def split: if_splits)
    with Some entry_facts(6,7) [OF r] show ?thesis
      by (simp add: v_def retain_count_def pair_count_def dvd_mult_left)
  qed
  note vf = flag_bits [of v]
  have "?n < 2 * H" using unat_extra_rc_less half_shape(1) by metis
  then have n: "0 < ?n" "?n < 2 ^ 60" using half_shape(3) x by (simp_all add: unat_gt_0)
  note m = moved_count [OF n conjunct1 [OF v], folded w_def]
  have "drop_bit 2 u = drop_bit 2 w" by (simp add: u_def)
  moreover have e: "unat (drop_bit 2 w) = unat v div 4 + (?n - 1)"
    using v by (simp add: unat_drop_bit m(2))
  moreover have "of_nat (unat (drop_bit 2 w)) = drop_bit 2 w" by simp
  moreover have "retain_count c obj st = 1 + (unat v div 4 + (?n - 1))" using v n(1) by simp
  ultimately have d: "1 + drop_bit 2 u = of_nat (retain_count c obj st)"
    by (metis of_nat_add of_nat_1)
  have nd: "\<not> isDeallocating L ?b" using x by (simp add: isDeallocating_def)
  let ?st = "set_refcnt c obj (Some u) (set_isa obj (setClass L newCls 0) st)"
  have "changeIsa c obj newCls [] st = Some (getDecodedClass L ?b, ?st)"
    using vf v m(1) setClass_raw(1) [OF assms(6)] nd assms(3)
    by (simp add: changeIsa_raw [OF assms(1) np assms(3-5)] sidetable_moveExtraRC_nolock_def assert_opt_def Let_def
        rt_frame sidetable_unlock_eq set_lock_commute set_lock_same v_def u_def w_def)
  then show thesis
    by (rule that) (use setClass_raw [OF assms(6)] assms(1,3) d in
      \<open>simp_all add: rt_frame rootRetainCount_raw [of obj _ u]\<close>)
qed

end

section \<open>Clearing weak references\<close>

lemma clear_referrers_frame [rt_frame]:
  "SideTables (fold (clear_referrer r) xs st) = SideTables st"
  "isa_mem (fold (clear_referrer r) xs st) = isa_mem st"
  by (induction xs arbitrary: st) (simp_all add: clear_referrer_def)

lemma clear_referrers_vars:
  "weak_vars (fold (clear_referrer r) xs st) v = (if v \<in> set xs \<and> weak_vars st v = r then 0 else weak_vars st v)"
  by (induction xs arbitrary: st) (auto simp: clear_referrer_def)

definition weak_referrers :: "objc_cfg \<Rightarrow> u64 \<Rightarrow> objc_rt \<Rightarrow> u64 list" where
  "weak_referrers c obj st = (case weak_table (table_of c obj st) obj of None \<Rightarrow> [] | Some xs \<Rightarrow> xs)"

text \<open>
  Bookkeeping of weak references: an object with an entry in the weak table has its flag set,
  in the isa or in the side table. A packed isa without \<open>has_sidetable_rc\<close> has no count in
  the side table.
\<close>

definition weak_ok :: "objc_cfg \<Rightarrow> u64 \<Rightarrow> objc_rt \<Rightarrow> bool" where
  "weak_ok c obj st \<longleftrightarrow>
     (if nonpointer (isa_l c) (isa_of obj st) then
        (weak_table (table_of c obj st) obj \<noteq> None \<longrightarrow> weakly_referenced (isa_l c) (isa_of obj st)) \<and>
        (refcnt_at c obj st \<noteq> None \<longrightarrow> has_sidetable_rc (isa_l c) (isa_of obj st))
      else
        (weak_table (table_of c obj st) obj \<noteq> None \<longrightarrow>
           (case refcnt_at c obj st of None \<Rightarrow> False | Some v \<Rightarrow> v AND 1 \<noteq> 0)))"

definition cleared :: "objc_cfg \<Rightarrow> u64 \<Rightarrow> objc_rt \<Rightarrow> objc_rt \<Rightarrow> bool" where
  "cleared c obj st st' \<longleftrightarrow>
     refcnt_at c obj st' = None \<and> weak_table (table_of c obj st') obj = None \<and>
     (\<forall>x. isa_of x st' = isa_of x st) \<and>
     (\<forall>x. x \<noteq> obj \<longrightarrow> refcnt_at c x st' = refcnt_at c x st \<and>
                      weak_table (table_of c x st') x = weak_table (table_of c x st) x) \<and>
     (\<forall>v. weak_vars st' v =
        (if v \<in> set (weak_referrers c obj st) \<and> weak_vars st v = obj then 0 else weak_vars st v)) \<and>
     side_locked c obj st' = side_locked c obj st"

lemma weak_clear_frame [rt_frame]:
  "isa_of x (weak_clear_no_lock c obj st) = isa_of x st"
  "refcnt_at c x (weak_clear_no_lock c obj st) = refcnt_at c x st"
  "side_locked c x (weak_clear_no_lock c obj st) = side_locked c x st"
  by (simp_all add: weak_clear_no_lock_def isa_of_def refcnt_at_def side_locked_def table_of_def map_table_def
      Let_def rt_frame split: option.split)

lemma weak_clear_effect:
  "weak_vars (weak_clear_no_lock c obj st) v =
     (if v \<in> set (weak_referrers c obj st) \<and> weak_vars st v = obj then 0 else weak_vars st v)"
  "weak_table (table_of c x (weak_clear_no_lock c obj st)) x =
     (if x = obj then None else weak_table (table_of c x st) x)"
  by (simp_all add: weak_clear_no_lock_def weak_referrers_def table_of_def map_table_def Let_def rt_frame
      clear_referrers_vars split: option.split)

lemma weak_referrers_frame [rt_frame]:
  "weak_referrers c x (set_lock c o1 l st) = weak_referrers c x st"
  by (simp add: weak_referrers_def rt_frame)

lemma sidetable_present_eq:
  "\<not> side_locked c obj st \<Longrightarrow> sidetable_present c obj st =
     Some (refcnt_at c obj st \<noteq> None \<or> weak_table (table_of c obj st) obj \<noteq> None, st)"
  by (simp add: sidetable_present_def sidetable_lock_eq sidetable_unlock_eq rt_frame set_lock_same Let_def)

lemma clearDeallocating_cleared:
  assumes ok: "weak_ok c obj st" and u: "\<not> side_locked c obj st"
  obtains st' where "clearDeallocating c obj st = Some st'" "cleared c obj st st'"
proof -
  let ?L = "isa_l c" and ?b = "isa_of obj st"
  define slow where "slow = (if \<not> nonpointer ?L ?b then sidetable_clearDeallocating c obj st
             else if weakly_referenced ?L ?b \<or> has_sidetable_rc ?L ?b then clearDeallocating_slow c obj st
             else Some st)"
  obtain st1 where st1: "slow = Some st1" "cleared c obj st st1"
  proof (cases "nonpointer ?L ?b")
    case True
    with ok u have "\<exists>st1. slow = Some st1 \<and> cleared c obj st st1"
      by (auto simp: slow_def clearDeallocating_slow_def assert_opt_def sidetable_lock_eq sidetable_unlock_eq
          rt_frame Let_def cleared_def weak_clear_effect weak_ok_def weak_referrers_def split: option.splits)
    then show thesis using that by blast
  next
    case False
    with ok u have "\<exists>st1. slow = Some st1 \<and> cleared c obj st st1"
      by (auto simp: slow_def sidetable_clearDeallocating_def assert_opt_def sidetable_lock_eq sidetable_unlock_eq
          rt_frame Let_def cleared_def weak_clear_effect weak_ok_def weak_referrers_def split: option.splits)
    then show thesis using that by blast
  qed
  have "clearDeallocating c obj st = Some st1"
    using st1(1) st1(2) u unfolding slow_def
    by (simp add: clearDeallocating_def sidetable_present_eq cleared_def assert_opt_def Let_def)
  then show thesis using st1(2) by (rule that)
qed

context refcounting
begin

lemma rootRetainCount_packed:
  assumes "\<not> isTaggedPointer (tag_l c) obj" "object_ok (2 ^ 62) c obj st" "\<not> side_locked c obj st"
  shows "rootRetainCount c obj st = Some (of_nat (retain_count c obj st), st)"
proof -
  have np: "nonpointer L (isa_of obj st)" using assms(2) by (simp add: object_ok_def rc_ok_def)
  have u: "of_nat (unat (extra_rc L (isa_of obj st))) = extra_rc L (isa_of obj st)" by simp
  have d: "of_nat (unat v div 4) = drop_bit 2 v" for v :: u64
  proof -
    have "unat (drop_bit 2 v) = unat v div 4" by (simp add: unat_drop_bit)
    moreover have "of_nat (unat (drop_bit 2 v)) = drop_bit 2 v" by simp
    ultimately show ?thesis by metis
  qed
  show ?thesis
  proof (cases "refcnt_at c obj st")
    case None
    then have "\<not> has_sidetable_rc L (isa_of obj st)" using assms(2) by (auto simp: object_ok_def rc_ok_def)
    then show ?thesis using assms(1,3) np u
      by (simp add: rootRetainCount_def sidetable_lock_eq sidetable_unlock_eq rt_frame Let_def set_lock_same
          retain_count_def pair_count_def)
  next
    case (Some v)
    then have "has_sidetable_rc L (isa_of obj st)" using assms(2) by (auto simp: object_ok_def rc_ok_def split: if_splits)
    then show ?thesis using assms(1,3) np u d [of v] Some
      by (simp add: rootRetainCount_def sidetable_getExtraRC_nolock_def assert_opt_def sidetable_lock_eq
          sidetable_unlock_eq rt_frame Let_def set_lock_same retain_count_def pair_count_def)
  qed
qed

lemma moved_empty:
  assumes "4 \<le> unat (v :: u64)"
  shows "snd (addc v (push_bit 2 (0 - 1)) 0)"
proof -
  have "unat (push_bit 2 (0 - 1 :: u64)) = 2 ^ 64 - 4" by (simp add: push_bit_eq_mult)
  then show ?thesis using assms by (simp add: addc_def)
qed

lemma changeIsa_raw_pins:
  assumes "\<not> isTaggedPointer (tag_l c) obj" "object_ok (2 ^ 62) c obj st" "\<not> side_locked c obj st"
    and "\<not> isFuture (classes c newCls)" "instancesRequireRawIsa (classes c newCls)" "newCls AND ISA_MASK L = newCls"
    and x: "extra_rc L (isa_of obj st) = 0" "has_sidetable_rc L (isa_of obj st)"
  obtains st' where "changeIsa c obj newCls [] st = Some (getDecodedClass L (isa_of obj st), st')"
    "refcnt_at c obj st' = Some (if weakly_referenced L (isa_of obj st) then 0x8000000000000001 else 0x8000000000000000)"
    "\<not> nonpointer L (isa_of obj st')" "\<not> side_locked c obj st'"
proof -
  let ?b = "isa_of obj st"
  obtain v where v: "refcnt_at c obj st = Some v" "rc_ok (2 ^ 62) L ?b (Some v)"
    using assms(2) x(2) by (auto simp: object_ok_def rc_ok_def split: option.splits)
  have np: "nonpointer L ?b" using v(2) by (simp add: rc_ok_def)
  have nd: "\<not> isDeallocating L ?b" using x(2) by (simp add: isDeallocating_def)
  note e = entry_facts [OF v(2)]
  have "4 \<le> unat v" using e(5) half_shape(2) by simp
  then obtain s where s: "addc v (push_bit 2 (0 - 1)) 0 = (s, True)" using moved_empty by (metis prod.collapse)
  let ?u = "if weakly_referenced L ?b then 0x8000000000000001 else 0x8000000000000000 :: u64"
  let ?st = "set_refcnt c obj (Some ?u) (set_isa obj (setClass L newCls 0) st)"
  have "changeIsa c obj newCls [] st = Some (getDecodedClass L ?b, ?st)"
    using e(2,3) s setClass_raw(1) [OF assms(6)] nd assms(3) v(1)
    by (simp add: changeIsa_raw [OF assms(1) np assms(3-5)] sidetable_moveExtraRC_nolock_def assert_opt_def Let_def
        rt_frame sidetable_unlock_eq set_lock_commute set_lock_same x(1))
  then show thesis
    by (rule that) (use setClass_raw(1) [OF assms(6)] assms(3) in \<open>simp_all add: rt_frame\<close>)
qed

end

section \<open>Two races\<close>



section \<open>Properties\<close>

text \<open>
  C9: A new instance is owned once. \<open>initInstanceIsa\<close> on fresh memory succeeds for a class that
  allows packed isas, and leaves an object of exactly that class whose count is one, which is
  not deallocating, whose C++ destructor flag is the one of the class, and which satisfies the
  invariant that retain and release keep; no other object is touched.
\<close>

theorem new_instance_owned_once:
  assumes "isa_l c \<in> {isa_arm64, isa_arm64e, isa_x86_64}" "\<not> isTaggedPointer (tag_l c) obj"
    and "\<not> DisableNonpointerIsa c" "\<not> instancesRequireRawIsa (classes c cls)"
    and "cls AND ISA_MASK (isa_l c) = cls" "refcnt_at c obj st = None"
  shows "\<exists>st'. initInstanceIsa c obj cls (class_hasCxxDtor (classes c cls)) st = Some st' \<and>
    object_ok (2 ^ 62) c obj st' \<and> retain_count c obj st' = 1 \<and> \<not> rootIsDeallocating c obj st' \<and>
    class_of c obj st' = classes c cls \<and> hasCxxDtor c obj st' = Some (class_hasCxxDtor (classes c cls)) \<and>
    others_same c obj st st' \<and> messages st' = messages st"
proof -
  have rr: "refcounting c" by (rule packed_layouts [OF assms(1)])
  obtain st' where st': "initIsa c obj cls True (class_hasCxxDtor (classes c cls)) st = Some st'"
    "object_ok (2 ^ 62) c obj st'" "retain_count c obj st' = 1" "\<not> isDeallocating (isa_l c) (isa_of obj st')"
    "getDecodedClass (isa_l c) (isa_of obj st') = cls"
    "ISA_HAS_CXX_DTOR_BIT (isa_l c) \<Longrightarrow> has_cxx_dtor (isa_l c) (isa_of obj st') = class_hasCxxDtor (classes c cls)"
    "others_same c obj st st'" "messages st' = messages st"
    using refcounting.initIsa_packed [OF rr assms(2-6)] by metis
  then have "nonpointer (isa_l c) (isa_of obj st')" by (simp add: object_ok_def rc_ok_def)
  with st' assms(2,4) show ?thesis
    by (auto simp: initInstanceIsa_def assert_opt_def rootIsDeallocating_def class_of_def hasCxxDtor_def)
qed

theorem new_instance_owned_once_witness:
  "\<exists>st'. initInstanceIsa sample_cfg 0x1000 0x2000 False (rt_with_isa 0) = Some st' \<and>
     retain_count sample_cfg 0x1000 st' = 1"
proof -
  have "isa_l sample_cfg \<in> {isa_arm64, isa_arm64e, isa_x86_64}" "\<not> isTaggedPointer (tag_l sample_cfg) 0x1000"
    "\<not> DisableNonpointerIsa sample_cfg" "\<not> instancesRequireRawIsa (classes sample_cfg 0x2000)"
    "0x2000 AND ISA_MASK (isa_l sample_cfg) = 0x2000" "refcnt_at sample_cfg 0x1000 (rt_with_isa 0) = None"
    "\<not> class_hasCxxDtor (classes sample_cfg 0x2000)"
    by (simp_all add: sample_cfg_def witness_simps)
  then show ?thesis using new_instance_owned_once [of sample_cfg "0x1000" "0x2000" "rt_with_isa 0"] by auto
qed



text \<open>
  C8: Changing to a class with raw isas moves the count. With at least one inline reference,
  \<open>changeIsa\<close> to a class whose instances need a raw isa transcribes the whole count into the
  side table: it returns the old class, and \<open>rootRetainCount\<close> reads the count it had before.
\<close>

theorem changeIsa_moves_count:
  assumes "isa_l c \<in> {isa_arm64, isa_arm64e, isa_x86_64}" "\<not> isTaggedPointer (tag_l c) obj"
    and "object_ok (2 ^ 62) c obj st" "\<not> side_locked c obj st"
    and "\<not> isFuture (classes c newCls)" "instancesRequireRawIsa (classes c newCls)"
    and "newCls AND ISA_MASK (isa_l c) = newCls" "extra_rc (isa_l c) (isa_of obj st) \<noteq> 0"
  shows "\<exists>st'. changeIsa c obj newCls [] st = Some (getDecodedClass (isa_l c) (isa_of obj st), st') \<and>
    getDecodedClass (isa_l c) (isa_of obj st') = newCls \<and>
    rootRetainCount c obj st' = Some (of_nat (retain_count c obj st), st') \<and>
    \<not> side_locked c obj st' \<and> others_same c obj st st'"
  using refcounting.changeIsa_raw_ok [OF packed_layouts [OF assms(1)] assms(2-8)] by metis

definition raw_cfg :: objc_cfg where
  "raw_cfg = device_cfg (\<lambda>cls. if cls = 0x4000 then plain_class\<lparr>instancesRequireRawIsa := True\<rparr> else plain_class)"

lemma raw_sample:
  "isa_l raw_cfg \<in> {isa_arm64, isa_arm64e, isa_x86_64}" "\<not> isTaggedPointer (tag_l raw_cfg) 0x1000"
  "object_ok (2 ^ 62) raw_cfg 0x1000 (rt_with_isa 0x0000a1a000002001)"
  "\<not> side_locked raw_cfg 0x1000 (rt_with_isa 0x0000a1a000002001)"
  "\<not> isFuture (classes raw_cfg 0x4000)" "instancesRequireRawIsa (classes raw_cfg 0x4000)"
  "0x4000 AND ISA_MASK (isa_l raw_cfg) = 0x4000"
  "extra_rc (isa_l raw_cfg) (isa_of 0x1000 (rt_with_isa 0x0000a1a000002001)) \<noteq> 0"
  "retain_count raw_cfg 0x1000 (rt_with_isa 0x0000a1a000002001) = 5"
  by (simp_all add: raw_cfg_def witness_simps)

theorem changeIsa_moves_count_witness:
  "\<exists>old st'. changeIsa raw_cfg 0x1000 0x4000 [] (rt_with_isa 0x0000a1a000002001) = Some (old, st') \<and>
     rootRetainCount raw_cfg 0x1000 st' = Some (5, st')"
  using changeIsa_moves_count [OF raw_sample(1-8)] raw_sample(9) by auto

text \<open>
  C3: Deallocation zeroes the weak variables. When the weak flag covers the entries of the weak
  table, \<open>clearDeallocating\<close> succeeds whatever form the isa has: every registered weak variable
  that still refers to the object becomes nil, every other variable keeps its value, the
  object has no entry left in its side table, other objects keep theirs, and the lock is free.
\<close>

theorem clearDeallocating_zeroes_weak:
  assumes "weak_ok c obj st" "\<not> side_locked c obj st"
  shows "\<exists>st'. clearDeallocating c obj st = Some st' \<and>
    refcnt_at c obj st' = None \<and> weak_table (table_of c obj st') obj = None \<and> \<not> side_locked c obj st' \<and>
    (\<forall>v. weak_vars st' v =
       (if v \<in> set (weak_referrers c obj st) \<and> weak_vars st v = obj then 0 else weak_vars st v)) \<and>
    (\<forall>x. x \<noteq> obj \<longrightarrow> refcnt_at c x st' = refcnt_at c x st \<and>
                     weak_table (table_of c x st') x = weak_table (table_of c x st) x)"
  by (rule clearDeallocating_cleared [OF assms]) (use assms(2) in \<open>auto simp: cleared_def\<close>)

definition weak_sample :: objc_rt where
  "weak_sample = \<lparr>isa_mem = (\<lambda>_. 0x00000400000021a1),
     SideTables = (\<lambda>_. \<lparr>slock = False, refcnts = Map.empty, weak_table = [0x1000 \<mapsto> [0x50, 0x60]]\<rparr>),
     weak_vars = (\<lambda>v. if v = 0x50 then 0x1000 else 0x70), messages = [], others_delta = 0\<rparr>"

theorem clearDeallocating_zeroes_weak_witness:
  "\<exists>st'. clearDeallocating sample_cfg 0x1000 weak_sample = Some st' \<and> weak_vars st' 0x50 = 0 \<and> weak_vars st' 0x60 = 0x70"
proof -
  have "weak_ok sample_cfg 0x1000 weak_sample" "\<not> side_locked sample_cfg 0x1000 weak_sample"
    "weak_referrers sample_cfg 0x1000 weak_sample = [0x50, 0x60]"
    "weak_vars weak_sample 0x50 = 0x1000" "weak_vars weak_sample 0x60 = 0x70"
    by (simp_all add: weak_ok_def weak_referrers_def weak_sample_def sample_cfg_def witness_simps weakly_referenced_def)
  then show ?thesis using clearDeallocating_zeroes_weak [of sample_cfg "0x1000" weak_sample] by auto
qed

text \<open>
  C10: Memory is freed directly only when nothing refers to it. Under the same bookkeeping,
  \<open>rootDealloc\<close> never aborts; it hands the object to \<open>free\<close> only if it has no associated
  objects, no count in the side table, no weak table entry and no C++ destructor, and to
  \<open>object_dispose\<close> otherwise.
\<close>

theorem rootDealloc_safe:
  assumes "weak_ok c obj st" "\<not> side_locked c obj st" "\<not> isTaggedPointer (tag_l c) obj"
  shows "\<exists>st'. rootDealloc c obj st = Some st' \<and>
    (messages st' = messages st @ [Object_dispose obj] \<or>
     messages st' = messages st @ [Free obj] \<and> \<not> hasAssociatedObjects c obj st \<and>
     refcnt_at c obj st = None \<and> weak_table (table_of c obj st) obj = None \<and> hasCxxDtor c obj st = Some False)"
  using assms
  by (auto simp: rootDealloc_def Let_def sidetable_present_eq weak_ok_def assert_opt_def hasAssociatedObjects_def
      hasCxxDtor_def class_of_def getDecodedClass_def split: if_splits option.splits)

theorem rootDealloc_safe_witness:
  "\<exists>st'. rootDealloc sample_cfg 0x1000 (rt_with_isa 0x000001a000002001) = Some st' \<and>
     (messages st' = [Object_dispose 0x1000] \<or> messages st' = [Free 0x1000])"
proof -
  have "weak_ok sample_cfg 0x1000 (rt_with_isa 0x000001a000002001)"
    "\<not> side_locked sample_cfg 0x1000 (rt_with_isa 0x000001a000002001)" "\<not> isTaggedPointer (tag_l sample_cfg) 0x1000"
    "messages (rt_with_isa 0x000001a000002001) = []"
    by (simp_all add: weak_ok_def sample_cfg_def witness_simps)
  then show ?thesis using rootDealloc_safe [of sample_cfg "0x1000" "rt_with_isa 0x000001a000002001"] by auto
qed

text \<open>
  The retain count reads the count. For a packed object \<open>rootRetainCount\<close> returns the
  logical count (inline and side table) and changes nothing.
\<close>

lemma rootRetainCount_reads:
  assumes "isa_l c \<in> {isa_arm64, isa_arm64e, isa_x86_64}" "\<not> isTaggedPointer (tag_l c) obj"
    and "object_ok (2 ^ 62) c obj st" "\<not> side_locked c obj st"
  shows "rootRetainCount c obj st = Some (of_nat (retain_count c obj st), st)"
  by (rule refcounting.rootRetainCount_packed [OF packed_layouts [OF assms(1)] assms(2-4)])

text \<open>
  C38: An empty inline count is pinned by a change to a raw isa. When all references of a live
  object are in its side table and none are inline, \<open>changeIsa\<close> to a class that needs a raw
  isa adds \<open>(0 - 1) << 2\<close> to the side table entry; the carry of that subtraction is taken for
  an overflow, and the count becomes the pinned one, which retain and release leave alone.
\<close>

theorem changeIsa_pins_count:
  assumes "isa_l c \<in> {isa_arm64, isa_arm64e, isa_x86_64}" "\<not> isTaggedPointer (tag_l c) obj"
    and "object_ok (2 ^ 62) c obj st" "\<not> side_locked c obj st"
    and "\<not> isFuture (classes c newCls)" "instancesRequireRawIsa (classes c newCls)"
    and "newCls AND ISA_MASK (isa_l c) = newCls"
    and "extra_rc (isa_l c) (isa_of obj st) = 0" "has_sidetable_rc (isa_l c) (isa_of obj st)"
  shows "\<exists>st' w. changeIsa c obj newCls [] st = Some (getDecodedClass (isa_l c) (isa_of obj st), st') \<and>
    refcnt_at c obj st' = Some w \<and> bit w 63 \<and>
    (\<exists>st''. sidetable_release c obj False True st' = Some (False, st'') \<and> refcnt_at c obj st'' = Some w)"
proof -
  obtain st' where st': "changeIsa c obj newCls [] st = Some (getDecodedClass (isa_l c) (isa_of obj st), st')"
    "refcnt_at c obj st' = Some (if weakly_referenced (isa_l c) (isa_of obj st)
       then 0x8000000000000001 else 0x8000000000000000)"
    "\<not> nonpointer (isa_l c) (isa_of obj st')" "\<not> side_locked c obj st'"
    by (rule refcounting.changeIsa_raw_pins [OF packed_layouts [OF assms(1)] assms(2-9)])
  then show ?thesis
    by (auto simp: sidetable_release_def assert_opt_def sidetable_lock_eq sidetable_unlock_eq rt_frame Let_def
        split: if_splits)
qed

definition spilled_sample :: objc_rt where
  "spilled_sample = \<lparr>isa_mem = (\<lambda>_. 0x000011a000002001),
     SideTables = (\<lambda>_. \<lparr>slock = False, refcnts = [0x1000 \<mapsto> 0x100000], weak_table = Map.empty\<rparr>),
     weak_vars = (\<lambda>_. 0), messages = [], others_delta = 0\<rparr>"

theorem changeIsa_pins_count_witness:
  "\<exists>old st' w. changeIsa raw_cfg 0x1000 0x4000 [] spilled_sample = Some (old, st') \<and>
     refcnt_at raw_cfg 0x1000 st' = Some w \<and> bit w 63"
proof -
  have "object_ok (2 ^ 62) raw_cfg 0x1000 spilled_sample" "\<not> side_locked raw_cfg 0x1000 spilled_sample"
    "extra_rc (isa_l raw_cfg) (isa_of 0x1000 spilled_sample) = 0"
    "has_sidetable_rc (isa_l raw_cfg) (isa_of 0x1000 spilled_sample)"
    by (simp_all add: raw_cfg_def spilled_sample_def witness_simps)
  from changeIsa_pins_count [OF raw_sample(1,2) this(1,2) raw_sample(5-7) this(3,4)] show ?thesis by blast
qed

end
