(* ===== verification/RawObjects.thy ===== *)
theory RawObjects
  imports Objects
begin

text \<open>
  The build without packed isas (the last branch of \<^verbatim>\<open>runtime/objc-object.h\<close>): the isa word is
  the class pointer, all counts are in the side tables, and there are no tagged pointers. Which
  classes have instances with associated objects is part of the state. Words have 64 bits as in
  the rest of the development. The locale \<open>counter\<close>
  is the contract of reference counting: sequences of retains and releases behave like a
  number. It is interpreted on the operations of this build.
\<close>

section \<open>The isa is the class\<close>

text \<open>With this layout no word counts as packed, and the class of a word is the word.\<close>

definition isa_unpacked :: isa_layout where
  "isa_unpacked = \<lparr>ISA_MASK = - 1, ISA_MAGIC_MASK = 0, ISA_MAGIC_VALUE = 0, ISA_HAS_CXX_DTOR_BIT = False,
     nonpointer_f = (0, 0), has_assoc_f = (0, 0), has_cxx_dtor_f = (0, 0), shiftcls_f = (0, 64),
     weakly_referenced_f = (0, 0), has_sidetable_rc_f = (0, 0), extra_rc_f = (0, 0),
     RC_HAS_SIDETABLE_BIT = 0, RC_HALF = 0\<rparr>"

definition raw_cfg_of :: "nat \<Rightarrow> (u64 \<Rightarrow> class_info) \<Rightarrow> objc_cfg" where
  "raw_cfg_of stripes cl =
     \<lparr>isa_l = isa_unpacked, tag_l = tag_lsb, StripeCount = stripes, classes = cl, DisableNonpointerIsa = True\<rparr>"

record raw_rt =
  rt :: objc_rt
  assoc_classes :: "u64 \<Rightarrow> bool"

definition raw_isTaggedPointer :: "u64 \<Rightarrow> bool" where
  "raw_isTaggedPointer obj = False"

definition raw_isBasicTaggedPointer :: "u64 \<Rightarrow> bool" where
  "raw_isBasicTaggedPointer obj = False"

definition raw_isExtTaggedPointer :: "u64 \<Rightarrow> bool" where
  "raw_isExtTaggedPointer obj = False"

definition raw_setClass :: "u64 \<Rightarrow> u64" where
  "raw_setClass cls = cls"

definition raw_getClass :: "u64 \<Rightarrow> u64" where
  "raw_getClass bits = bits"

definition raw_getDecodedClass :: "u64 \<Rightarrow> u64" where
  "raw_getDecodedClass bits = raw_getClass bits"

definition raw_ISA :: "u64 \<Rightarrow> objc_rt \<Rightarrow> u64 option" where
  "raw_ISA obj st = do { assert_opt (\<not> raw_isTaggedPointer obj); Some (raw_getClass (isa_of obj st)) }"

definition raw_getIsa :: "u64 \<Rightarrow> objc_rt \<Rightarrow> u64 option" where
  "raw_getIsa obj st = raw_ISA obj st"

definition raw_rawISA :: "u64 \<Rightarrow> objc_rt \<Rightarrow> u64 option" where
  "raw_rawISA obj st = raw_ISA obj st"

definition raw_hasNonpointerIsa :: "u64 \<Rightarrow> bool" where
  "raw_hasNonpointerIsa obj = False"

definition raw_initIsa :: "u64 \<Rightarrow> u64 \<Rightarrow> objc_rt \<Rightarrow> objc_rt option" where
  "raw_initIsa obj cls st = do { assert_opt (\<not> raw_isTaggedPointer obj); Some (set_isa obj (raw_setClass cls) st) }"

definition raw_initClassIsa :: "u64 \<Rightarrow> u64 \<Rightarrow> objc_rt \<Rightarrow> objc_rt option" where
  "raw_initClassIsa obj cls st = raw_initIsa obj cls st"

definition raw_initProtocolIsa :: "u64 \<Rightarrow> u64 \<Rightarrow> objc_rt \<Rightarrow> objc_rt option" where
  "raw_initProtocolIsa obj cls st = raw_initIsa obj cls st"

definition raw_initInstanceIsa :: "u64 \<Rightarrow> u64 \<Rightarrow> bool \<Rightarrow> objc_rt \<Rightarrow> objc_rt option" where
  "raw_initInstanceIsa obj cls dtor st = raw_initIsa obj cls st"

definition raw_initIsa3 :: "u64 \<Rightarrow> u64 \<Rightarrow> bool \<Rightarrow> bool \<Rightarrow> objc_rt \<Rightarrow> objc_rt option" where
  "raw_initIsa3 obj cls nonptr dtor st = raw_initIsa obj cls st"

definition raw_changeIsa :: "u64 \<Rightarrow> u64 \<Rightarrow> raw_rt \<Rightarrow> (u64 \<times> raw_rt) option" where
  "raw_changeIsa obj cls s = do {
     assert_opt (\<not> raw_isTaggedPointer obj);
     let oldcls = raw_getDecodedClass (isa_of obj (rt s));
     let s1 = s\<lparr>rt := set_isa obj (raw_setClass cls) (rt s)\<rparr>;
     Some (oldcls,
       if oldcls \<noteq> 0 \<and> assoc_classes s1 oldcls
       then s1\<lparr>assoc_classes := (assoc_classes s1)(cls := True)\<rparr> else s1)
   }"

definition raw_hasAssociatedObjects :: "u64 \<Rightarrow> raw_rt \<Rightarrow> bool option" where
  "raw_hasAssociatedObjects obj s = do { cls \<leftarrow> raw_getIsa obj (rt s); Some (assoc_classes s cls) }"

definition raw_setHasAssociatedObjects :: "u64 \<Rightarrow> raw_rt \<Rightarrow> raw_rt option" where
  "raw_setHasAssociatedObjects obj s = do {
     cls \<leftarrow> raw_getIsa obj (rt s);
     Some (s\<lparr>assoc_classes := (assoc_classes s)(cls := True)\<rparr>)
   }"

section \<open>Counting in the side table\<close>

definition raw_isWeaklyReferenced :: "objc_cfg \<Rightarrow> u64 \<Rightarrow> objc_rt \<Rightarrow> (bool \<times> objc_rt) option" where
  "raw_isWeaklyReferenced c obj st = do {
     assert_opt (\<not> raw_isTaggedPointer obj); sidetable_isWeaklyReferenced c obj st }"

definition raw_setWeaklyReferenced_nolock :: "objc_cfg \<Rightarrow> u64 \<Rightarrow> objc_rt \<Rightarrow> objc_rt option" where
  "raw_setWeaklyReferenced_nolock c obj st = do {
     assert_opt (\<not> raw_isTaggedPointer obj); sidetable_setWeaklyReferenced_nolock c obj st }"

definition raw_rootRetainCount :: "objc_cfg \<Rightarrow> u64 \<Rightarrow> objc_rt \<Rightarrow> (u64 \<times> objc_rt) option" where
  "raw_rootRetainCount c obj st =
     (if raw_isTaggedPointer obj then Some (obj, st) else sidetable_retainCount c obj st)"

definition raw_isUniquelyReferenced :: "objc_cfg \<Rightarrow> u64 \<Rightarrow> objc_rt \<Rightarrow> (unique_result \<times> objc_rt) option" where
  "raw_isUniquelyReferenced c obj st = do {
     assert_opt (\<not> raw_isTaggedPointer obj);
     cls \<leftarrow> raw_ISA obj st;
     if \<not> hasCustomRR (classes c cls) then do {
       (n, st') \<leftarrow> raw_rootRetainCount c obj st;
       Some (Unique_answer (n = 1), st')
     } else Some (Send_retainCount, st)
   }"

definition raw_hasCxxDtor :: "objc_cfg \<Rightarrow> u64 \<Rightarrow> objc_rt \<Rightarrow> bool option" where
  "raw_hasCxxDtor c obj st = do {
     assert_opt (\<not> raw_isTaggedPointer obj);
     Some (class_hasCxxDtor (classes c (raw_getClass (isa_of obj st))))
   }"

definition raw_rootIsDeallocating :: "objc_cfg \<Rightarrow> u64 \<Rightarrow> objc_rt \<Rightarrow> bool" where
  "raw_rootIsDeallocating c obj st = (if raw_isTaggedPointer obj then False else sidetable_isDeallocating c obj st)"

definition raw_clearDeallocating :: "objc_cfg \<Rightarrow> u64 \<Rightarrow> objc_rt \<Rightarrow> objc_rt option" where
  "raw_clearDeallocating c obj st = sidetable_clearDeallocating c obj st"

definition raw_rootDealloc :: "u64 \<Rightarrow> objc_rt \<Rightarrow> objc_rt" where
  "raw_rootDealloc obj st =
     (if raw_isTaggedPointer obj then st else st\<lparr>messages := messages st @ [Object_dispose obj]\<rparr>)"

definition raw_retain :: "objc_cfg \<Rightarrow> u64 \<Rightarrow> objc_rt \<Rightarrow> (retain_result \<times> objc_rt) option" where
  "raw_retain c obj st = do {
     assert_opt (\<not> raw_isTaggedPointer obj);
     cls \<leftarrow> raw_ISA obj st;
     if \<not> hasCustomRR (classes c cls) then do {
       (r, st') \<leftarrow> sidetable_retain c obj False st;
       Some (Retained r, st')
     } else Some (Send_retain, st)
   }"

definition raw_rootRetain :: "objc_cfg \<Rightarrow> u64 \<Rightarrow> objc_rt \<Rightarrow> (u64 \<times> objc_rt) option" where
  "raw_rootRetain c obj st = (if raw_isTaggedPointer obj then Some (obj, st) else sidetable_retain c obj False st)"

definition raw_release :: "objc_cfg \<Rightarrow> u64 \<Rightarrow> objc_rt \<Rightarrow> (release_result \<times> objc_rt) option" where
  "raw_release c obj st = do {
     assert_opt (\<not> raw_isTaggedPointer obj);
     cls \<leftarrow> raw_ISA obj st;
     if \<not> hasCustomRR (classes c cls) then do {
       (b, st') \<leftarrow> sidetable_release c obj False True st;
       Some (Released b, st')
     } else Some (Send_release, st)
   }"

definition raw_rootRelease :: "objc_cfg \<Rightarrow> u64 \<Rightarrow> objc_rt \<Rightarrow> (bool \<times> objc_rt) option" where
  "raw_rootRelease c obj st = (if raw_isTaggedPointer obj then Some (False, st) else sidetable_release c obj False True st)"

definition raw_rootReleaseShouldDealloc :: "objc_cfg \<Rightarrow> u64 \<Rightarrow> objc_rt \<Rightarrow> (bool \<times> objc_rt) option" where
  "raw_rootReleaseShouldDealloc c obj st =
     (if raw_isTaggedPointer obj then Some (False, st) else sidetable_release c obj False False st)"

definition raw_rootTryRetain :: "objc_cfg \<Rightarrow> u64 \<Rightarrow> objc_rt \<Rightarrow> (bool \<times> objc_rt) option" where
  "raw_rootTryRetain c obj st = (if raw_isTaggedPointer obj then Some (True, st) else sidetable_tryRetain c obj st)"

section \<open>The contract of reference counting\<close>

text \<open>A sequence of operations, \<open>True\<close> for retain and \<open>False\<close> for release, with the answers of the releases.\<close>

fun run_ops ::
  "('s \<Rightarrow> ('r \<times> 's) option) \<Rightarrow> ('s \<Rightarrow> (bool \<times> 's) option) \<Rightarrow> bool list \<Rightarrow> 's \<Rightarrow> (bool list \<times> 's) option" where
  "run_ops ret rel [] s = Some ([], s)"
| "run_ops ret rel (op # ops) s =
     (if op then do { (_, s') \<leftarrow> ret s; run_ops ret rel ops s' }
      else do { (b, s') \<leftarrow> rel s; (bs, s'') \<leftarrow> run_ops ret rel ops s'; Some (b # bs, s'') })"

text \<open>The specification: a number, which nobody may touch once it has reached zero.\<close>

fun spec_ops :: "bool list \<Rightarrow> nat \<Rightarrow> (bool list \<times> nat) option" where
  "spec_ops [] n = Some ([], n)"
| "spec_ops (op # ops) n =
     (if n = 0 then None
      else if op then spec_ops ops (Suc n)
      else do { (bs, m) \<leftarrow> spec_ops ops (n - 1); Some ((n = 1) # bs, m) })"

locale counter =
  fixes ret :: "'s \<Rightarrow> ('r \<times> 's) option" and rel :: "'s \<Rightarrow> (bool \<times> 's) option"
    and cnt :: "'s \<Rightarrow> nat" and room :: "nat \<Rightarrow> 's \<Rightarrow> bool"
  assumes room_mono: "room (Suc n) s \<Longrightarrow> room n s"
    and retain_law: "room (Suc n) s \<Longrightarrow> 0 < cnt s \<Longrightarrow> \<exists>r s'. ret s = Some (r, s') \<and> cnt s' = Suc (cnt s) \<and> room n s'"
    and release_law: "room n s \<Longrightarrow> 0 < cnt s \<Longrightarrow>
      \<exists>s'. rel s = Some (cnt s = 1, s') \<and> cnt s' = cnt s - 1 \<and> room n s'"
begin

lemma ops_refine:
  assumes "room (length ops) s" "spec_ops ops (cnt s) = Some (bs, m)"
  shows "\<exists>s'. run_ops ret rel ops s = Some (bs, s') \<and> cnt s' = m"
  using assms
proof (induction ops arbitrary: s bs m)
  case (Cons op ops)
  then have p: "0 < cnt s" by (auto split: if_splits)
  show ?case
  proof (cases op)
    case True
    obtain r s' where "ret s = Some (r, s')" "cnt s' = Suc (cnt s)" "room (length ops) s'"
      using retain_law [of "length ops" s] Cons.prems(1) p by auto
    then show ?thesis using Cons.IH [of s' bs m] Cons.prems(2) p True by auto
  next
    case False
    obtain s' where s': "rel s = Some (cnt s = 1, s')" "cnt s' = cnt s - 1" "room (length ops) s'"
      using release_law [of "length ops" s] room_mono Cons.prems(1) p by auto
    obtain bs' where "spec_ops ops (cnt s - 1) = Some (bs', m)" "bs = (cnt s = 1) # bs'"
      using Cons.prems(2) p False by (auto simp: Option.bind_eq_Some_conv)
    then show ?thesis using Cons.IH [of s' bs' m] s' False by auto
  qed
qed simp

end

definition raw_count :: "objc_cfg \<Rightarrow> u64 \<Rightarrow> objc_rt \<Rightarrow> nat" where
  "raw_count c obj st =
     (case refcnt_at c obj st of None \<Rightarrow> 1 | Some v \<Rightarrow> if 2 \<le> unat v mod 4 then 0 else unat v div 4 + 1)"

definition raw_room :: "objc_cfg \<Rightarrow> u64 \<Rightarrow> nat \<Rightarrow> objc_rt \<Rightarrow> bool" where
  "raw_room c obj n st \<longleftrightarrow>
     isa_l c = isa_unpacked \<and> \<not> side_locked c obj st \<and>
     (case refcnt_at c obj st of None \<Rightarrow> 4 * n < 2 ^ 63 | Some v \<Rightarrow> unat v + 4 * n < 2 ^ 63)"

lemma unpacked_raw [simp]: "\<not> nonpointer isa_unpacked b"
  by (simp add: nonpointer_def isa_unpacked_def bf_get_def)

lemma unat_add_four: "unat (v :: u64) + 4 < 2 ^ 64 \<Longrightarrow> unat (v + 4) = unat v + 4"
  using unat_add_lem [of v 4] by simp

lemma unat_or_two: "v < 2 \<Longrightarrow> unat ((v :: u64) OR 2) = unat v + 2"
proof -
  assume "v < 2"
  then have "unat v < 2" by (simp add: word_less_nat_alt)
  then have "unat v = 0 \<or> unat v = 1" by auto
  then have "v = 0 \<or> v = 1" by (auto simp: word_unat_eq_iff)
  then show ?thesis by auto
qed

lemma performDealloc_side [simp]:
  "refcnt_at c x (performDealloc c obj st) = refcnt_at c x st"
  "side_locked c x (performDealloc c obj st) = side_locked c x st"
  by (simp_all add: performDealloc_def refcnt_at_def side_locked_def table_of_def)

lemma raw_retain_law:
  assumes "raw_room c obj (Suc n) st" "0 < raw_count c obj st"
  shows "\<exists>r st'. raw_rootRetain c obj st = Some (r, st') \<and> raw_count c obj st' = Suc (raw_count c obj st) \<and>
    raw_room c obj n st'"
proof -
  define v where "v = (case refcnt_at c obj st of None \<Rightarrow> 0 | Some w \<Rightarrow> w)"
  have v: "unat v + 4 * Suc n < 2 ^ 63" "unat v mod 4 < 2" "raw_count c obj st = unat v div 4 + 1"
    using assms by (auto simp: raw_room_def raw_count_def v_def split: option.splits if_splits)
  have u: "unat (v + 4) = unat v + 4" using v(1) by (intro unat_add_four) simp
  have np: "v AND 0x8000000000000000 = 0" using v(1) by (intro not_pinned) simp
  have "raw_rootRetain c obj st = Some (obj, set_refcnt c obj (Some (v + 4)) st)"
    using assms(1) np
    by (simp add: raw_rootRetain_def raw_isTaggedPointer_def sidetable_retain_def assert_opt_def raw_room_def
        sidetable_lock_eq sidetable_unlock_eq rt_frame Let_def v_def set_lock_commute set_lock_same)
  then show ?thesis using assms(1) u v by (auto simp: raw_room_def raw_count_def rt_frame)
qed

lemma raw_release_law:
  assumes "raw_room c obj n st" "0 < raw_count c obj st"
  shows "\<exists>st'. raw_rootRelease c obj st = Some (raw_count c obj st = 1, st') \<and>
    raw_count c obj st' = raw_count c obj st - 1 \<and> raw_room c obj n st'"
proof -
  have c: "isa_l c = isa_unpacked" "\<not> side_locked c obj st" using assms(1) by (simp_all add: raw_room_def)
  note unfold = raw_rootRelease_def raw_isTaggedPointer_def sidetable_release_def assert_opt_def
    sidetable_lock_eq sidetable_unlock_eq rt_frame Let_def set_lock_commute set_lock_same
  show ?thesis
  proof (cases "refcnt_at c obj st")
    case None
    then show ?thesis using assms c by (simp add: unfold raw_count_def raw_room_def)
  next
    case (Some v)
    then have v: "unat v + 4 * n < 2 ^ 63" "unat v mod 4 < 2" "raw_count c obj st = unat v div 4 + 1"
      using assms by (auto simp: raw_room_def raw_count_def split: if_splits)
    show ?thesis
    proof (cases "v < 2")
      case True
      then have "unat v < 2" by (simp add: word_less_nat_alt)
      then have "unat v div 4 = 0" "(unat v + 2) mod 4 = unat v + 2" by simp_all
      moreover have "n < 2 ^ 61" using v(1) by simp
      then have "unat v + 2 + 4 * n < 2 ^ 63" using \<open>unat v < 2\<close> by simp
      ultimately show ?thesis using Some True v c unat_or_two [OF True] \<open>unat v < 2\<close>
        by (simp add: unfold raw_count_def raw_room_def)
    next
      case False
      then have "2 \<le> unat v" by (simp add: word_less_nat_alt)
      then have f: "4 \<le> unat v" using v(2) by (cases "unat v < 4") simp_all
      then have u: "unat (v - 4) = unat v - 4" by (simp add: unat_sub word_le_nat_alt)
      have "(unat v - 4) mod 4 = unat v mod 4" "(unat v - 4) div 4 = unat v div 4 - 1" "unat v div 4 \<noteq> 0"
        using f by (simp_all add: le_mod_geq [symmetric] le_div_geq)
      moreover have "v AND 0x8000000000000000 = 0" using v(1) by (intro not_pinned) simp
      moreover have "unat v - 4 + 4 * n < 2 ^ 63" using v(1) by linarith
      ultimately show ?thesis using Some False v c u f
        by (simp add: unfold raw_count_def raw_room_def del: Nat.add_diff_assoc2 Nat.diff_add_assoc2)
    qed
  qed
qed

interpretation raw: counter "raw_rootRetain c obj" "raw_rootRelease c obj" "raw_count c obj" "raw_room c obj"
proof
  show "raw_room c obj (Suc n) s \<Longrightarrow> raw_room c obj n s" for n s
    by (auto simp: raw_room_def split: option.splits)
qed (rule raw_retain_law raw_release_law; assumption)+

section \<open>Properties\<close>

text \<open>
  C29: Without packed isas, reference counting is a number. Any sequence of \<open>rootRetain\<close> and
  \<open>rootRelease\<close> on an object that does not touch it after its count has reached zero, and that
  is short enough for the side table entry not to overflow, runs without failure; each release
  answers that the object is to be deallocated exactly when the specification's counter goes
  from one to zero, and the count at the end is the counter's.
\<close>

theorem raw_refcount_refines_counter:
  assumes "isa_l c = isa_unpacked" "\<not> side_locked c obj st"
    and "(case refcnt_at c obj st of None \<Rightarrow> 0 | Some v \<Rightarrow> unat v) + 4 * length ops < 2 ^ 63"
    and "spec_ops ops (raw_count c obj st) = Some (answers, m)"
  shows "\<exists>st'. run_ops (raw_rootRetain c obj) (raw_rootRelease c obj) ops st = Some (answers, st') \<and>
    raw_count c obj st' = m"
  using assms by (intro raw.ops_refine) (auto simp: raw_room_def split: option.splits)

theorem raw_refcount_refines_counter_witness:
  "\<exists>st'. run_ops (raw_rootRetain (raw_cfg_of 8 (\<lambda>_. plain_class)) 0x1000)
       (raw_rootRelease (raw_cfg_of 8 (\<lambda>_. plain_class)) 0x1000) [True, False, False] (rt_with_isa 0x4000) =
     Some ([False, True], st')"
proof -
  let ?c = "raw_cfg_of 8 (\<lambda>_. plain_class)" and ?st = "rt_with_isa 0x4000"
  have r: "refcnt_at ?c 0x1000 ?st = None" "\<not> side_locked ?c 0x1000 ?st" "isa_l ?c = isa_unpacked"
    by (simp_all add: refcnt_at_def side_locked_def table_of_def rt_with_isa_def raw_cfg_of_def)
  then have "spec_ops [True, False, False] (raw_count ?c 0x1000 ?st) = Some ([False, True], 0)"
    by (simp add: raw_count_def)
  then show ?thesis
    using raw_refcount_refines_counter [of ?c "0x1000" ?st "[True, False, False]" "[False, True]" 0] r by auto
qed

end
