(* ===== verification/MathExtras.thy ===== *)
theory MathExtras
  imports Prelude "HOL-Library.Signed_Division"
begin

text \<open>
  The bit arithmetic the hash tables rest on (\<^verbatim>\<open>runtime/llvm-MathExtras.h\<close>). Where the source
  has a compiler builtin and a portable fallback, both are modelled: the name of the source is
  the branch with the builtin, and the suffix \<open>_portable\<close> marks the fallback. The builtins
  \<open>__builtin_clz\<close>, \<open>__builtin_ctz\<close> and \<open>__builtin_popcount\<close> scan the bits of the word.
  Signed values are words read with \<open>sint\<close>. Conversions between integers and floating point
  are not modelled.
\<close>

section \<open>Halves and ranges\<close>

definition Hi_32 :: "u64 \<Rightarrow> u32" where
  "Hi_32 Value = ucast (drop_bit 32 Value)"

definition Lo_32 :: "u64 \<Rightarrow> u32" where
  "Lo_32 Value = ucast Value"

definition isInt :: "nat \<Rightarrow> u64 \<Rightarrow> bool" where
  "isInt N x \<longleftrightarrow> N \<ge> 64 \<or> (- (2 ^ (N - 1)) \<le> sint x \<and> sint x < 2 ^ (N - 1))"

definition isInt_8 :: "u64 \<Rightarrow> bool" where
  "isInt_8 x \<longleftrightarrow> sint (ucast x :: 8 word) = sint x"

definition isInt_16 :: "u64 \<Rightarrow> bool" where
  "isInt_16 x \<longleftrightarrow> sint (ucast x :: 16 word) = sint x"

definition isInt_32 :: "u64 \<Rightarrow> bool" where
  "isInt_32 x \<longleftrightarrow> sint (ucast x :: 32 word) = sint x"

text \<open>The factor \<open>1<<S\<close> is an \<open>int\<close>, so \<open>S\<close> is below 31.\<close>

definition isShiftedInt :: "nat \<Rightarrow> nat \<Rightarrow> u64 \<Rightarrow> bool" where
  "isShiftedInt N S x \<longleftrightarrow> isInt (N + S) x \<and> sint x smod 2 ^ S = 0"

definition isUInt :: "nat \<Rightarrow> u64 \<Rightarrow> bool" where
  "isUInt N x \<longleftrightarrow> N \<ge> 64 \<or> x < push_bit N 1"

definition isUInt_8 :: "u64 \<Rightarrow> bool" where
  "isUInt_8 x \<longleftrightarrow> ucast (ucast x :: 8 word) = x"

definition isUInt_16 :: "u64 \<Rightarrow> bool" where
  "isUInt_16 x \<longleftrightarrow> ucast (ucast x :: 16 word) = x"

definition isUInt_32 :: "u64 \<Rightarrow> bool" where
  "isUInt_32 x \<longleftrightarrow> ucast (ucast x :: 32 word) = x"

definition isShiftedUInt :: "nat \<Rightarrow> nat \<Rightarrow> u64 \<Rightarrow> bool" where
  "isShiftedUInt N S x \<longleftrightarrow> isUInt (N + S) x \<and> x mod push_bit S 1 = 0"

definition isUIntN :: "nat \<Rightarrow> u64 \<Rightarrow> bool" where
  "isUIntN N x \<longleftrightarrow> x = x AND drop_bit (64 - N) (- 1)"

definition isIntN :: "nat \<Rightarrow> u64 \<Rightarrow> bool" where
  "isIntN N x \<longleftrightarrow> N \<ge> 64 \<or> (- (2 ^ (N - 1)) \<le> sint x \<and> sint x < 2 ^ (N - 1))"

section \<open>Masks and powers of two\<close>

definition isMask_32 :: "u32 \<Rightarrow> bool" where
  "isMask_32 Value \<longleftrightarrow> Value \<noteq> 0 \<and> (Value + 1) AND Value = 0"

definition isMask_64 :: "u64 \<Rightarrow> bool" where
  "isMask_64 Value \<longleftrightarrow> Value \<noteq> 0 \<and> (Value + 1) AND Value = 0"

definition isShiftedMask_32 :: "u32 \<Rightarrow> bool" where
  "isShiftedMask_32 Value = isMask_32 ((Value - 1) OR Value)"

definition isShiftedMask_64 :: "u64 \<Rightarrow> bool" where
  "isShiftedMask_64 Value = isMask_64 ((Value - 1) OR Value)"

definition isPowerOf2_32 :: "u32 \<Rightarrow> bool" where
  "isPowerOf2_32 Value \<longleftrightarrow> Value \<noteq> 0 \<and> Value AND (Value - 1) = 0"

definition isPowerOf2_64 :: "u64 \<Rightarrow> bool" where
  "isPowerOf2_64 Value \<longleftrightarrow> Value \<noteq> 0 \<and> Value AND (Value - 1) = 0"

definition IsPowerOf2 :: "u64 \<Rightarrow> bool" where
  "IsPowerOf2 x \<longleftrightarrow> (x - 1) AND x = 0"

section \<open>Counting bits\<close>

definition builtin_clz :: "'a::len word \<Rightarrow> nat" where
  "builtin_clz w = length (takeWhile (\<lambda>i. \<not> bit w i) (rev [0..<LENGTH('a)]))"

definition builtin_ctz :: "'a::len word \<Rightarrow> nat" where
  "builtin_ctz w = length (takeWhile (\<lambda>i. \<not> bit w i) [0..<LENGTH('a)])"

definition builtin_popcount :: "'a::len word \<Rightarrow> nat" where
  "builtin_popcount w = length (filter (bit w) [0..<LENGTH('a)])"

text \<open>The loop of the bisection method, for both widths.\<close>

fun clz_loop :: "nat \<Rightarrow> 'a::len word \<Rightarrow> nat \<Rightarrow> nat" where
  "clz_loop Shift Value Count =
     (if Shift = 0 then Count
      else let Tmp = drop_bit Shift Value in
        if Tmp \<noteq> 0 then clz_loop (Shift div 2) Tmp Count
        else clz_loop (Shift div 2) Value (Count OR Shift))"

declare clz_loop.simps [simp del]

definition CountLeadingZeros_32 :: "u32 \<Rightarrow> nat" where
  "CountLeadingZeros_32 Value = (if Value = 0 then 32 else builtin_clz Value)"

definition CountLeadingZeros_32_portable :: "u32 \<Rightarrow> nat" where
  "CountLeadingZeros_32_portable Value = (if Value = 0 then 32 else clz_loop (32 div 2) Value 0)"

definition CountLeadingOnes_32 :: "u32 \<Rightarrow> nat" where
  "CountLeadingOnes_32 Value = CountLeadingZeros_32 (NOT Value)"

definition CountLeadingZeros_64 :: "u64 \<Rightarrow> nat" where
  "CountLeadingZeros_64 Value = (if Value = 0 then 64 else builtin_clz Value)"

text \<open>The fallback depends on the size of \<open>long\<close>.\<close>

definition CountLeadingZeros_64_portable :: "bool \<Rightarrow> u64 \<Rightarrow> nat" where
  "CountLeadingZeros_64_portable long64 Value =
     (if long64 then if Value = 0 then 64 else clz_loop (64 div 2) Value 0
      else
        let Hi = Hi_32 Value in
        if Hi \<noteq> 0 then CountLeadingZeros_32_portable Hi
        else CountLeadingZeros_32_portable (Lo_32 Value) + 32)"

definition CountLeadingOnes_64 :: "u64 \<Rightarrow> nat" where
  "CountLeadingOnes_64 Value = CountLeadingZeros_64 (NOT Value)"

definition Mod37BitPosition :: "nat list" where
  "Mod37BitPosition =
     [32, 0, 1, 26, 2, 23, 27, 0, 3, 16, 24, 30, 28, 11, 0, 13,
      4, 7, 17, 0, 25, 22, 31, 15, 29, 10, 12, 6, 0, 21, 14, 9,
      5, 20, 8, 19, 18]"

definition CountTrailingZeros_32 :: "u32 \<Rightarrow> nat" where
  "CountTrailingZeros_32 Value = (if Value \<noteq> 0 then builtin_ctz Value else 32)"

definition CountTrailingZeros_32_portable :: "u32 \<Rightarrow> nat" where
  "CountTrailingZeros_32_portable Value = Mod37BitPosition ! unat ((- Value AND Value) mod 37)"

definition CountTrailingOnes_32 :: "u32 \<Rightarrow> nat" where
  "CountTrailingOnes_32 Value = CountTrailingZeros_32 (NOT Value)"

definition Mod67Position :: "nat list" where
  "Mod67Position =
     [64, 0, 1, 39, 2, 15, 40, 23, 3, 12, 16, 59, 41, 19, 24, 54,
      4, 64, 13, 10, 17, 62, 60, 28, 42, 30, 20, 51, 25, 44, 55,
      47, 5, 32, 65, 38, 14, 22, 11, 58, 18, 53, 63, 9, 61, 27,
      29, 50, 43, 46, 31, 37, 21, 57, 52, 8, 26, 49, 45, 36, 56,
      7, 48, 35, 6, 34, 33, 0]"

definition CountTrailingZeros_64 :: "u64 \<Rightarrow> nat" where
  "CountTrailingZeros_64 Value = (if Value \<noteq> 0 then builtin_ctz Value else 64)"

definition CountTrailingZeros_64_portable :: "u64 \<Rightarrow> nat" where
  "CountTrailingZeros_64_portable Value = Mod67Position ! unat ((- Value AND Value) mod 67)"

definition CountTrailingOnes_64 :: "u64 \<Rightarrow> nat" where
  "CountTrailingOnes_64 Value = CountTrailingZeros_64 (NOT Value)"

definition CountPopulation_32 :: "u32 \<Rightarrow> nat" where
  "CountPopulation_32 Value = builtin_popcount Value"

definition CountPopulation_32_portable :: "u32 \<Rightarrow> nat" where
  "CountPopulation_32_portable Value =
     (let v = Value - (drop_bit 1 Value AND 0x55555555);
          v = (v AND 0x33333333) + (drop_bit 2 v AND 0x33333333) in
      unat (drop_bit 24 (((v + drop_bit 4 v) AND 0xF0F0F0F) * 0x1010101)))"

definition CountPopulation_64 :: "u64 \<Rightarrow> nat" where
  "CountPopulation_64 Value = builtin_popcount Value"

definition CountPopulation_64_portable :: "u64 \<Rightarrow> nat" where
  "CountPopulation_64_portable Value =
     (let v = Value - (drop_bit 1 Value AND 0x5555555555555555);
          v = (v AND 0x3333333333333333) + (drop_bit 2 v AND 0x3333333333333333);
          v = (v + drop_bit 4 v) AND 0x0F0F0F0F0F0F0F0F in
      unat (drop_bit 56 (v * 0x0101010101010101)))"

text \<open>The logarithms are \<open>unsigned\<close> and wrap around for zero.\<close>

definition Log2_32 :: "u32 \<Rightarrow> u32" where
  "Log2_32 Value = 31 - of_nat (CountLeadingZeros_32 Value)"

definition Log2_64 :: "u64 \<Rightarrow> u32" where
  "Log2_64 Value = 63 - of_nat (CountLeadingZeros_64 Value)"

definition Log2_32_Ceil :: "u32 \<Rightarrow> u32" where
  "Log2_32_Ceil Value = 32 - of_nat (CountLeadingZeros_32 (Value - 1))"

definition Log2_64_Ceil :: "u64 \<Rightarrow> u32" where
  "Log2_64_Ceil Value = 64 - of_nat (CountLeadingZeros_64 (Value - 1))"

section \<open>Arithmetic\<close>

function GreatestCommonDivisor64 :: "u64 \<Rightarrow> u64 \<Rightarrow> u64" where
  "GreatestCommonDivisor64 A B = (if B = 0 then A else GreatestCommonDivisor64 B (A mod B))"
  by pat_completeness auto
termination
  by (relation "measure (\<lambda>(A, B). unat B)")
     (simp_all add: unat_mod_distrib mod_less_divisor unat_gt_0)

declare GreatestCommonDivisor64.simps [simp del]

definition MinAlign :: "u64 \<Rightarrow> u64 \<Rightarrow> u64" where
  "MinAlign A B = (A OR B) AND - (A OR B)"

definition NextPowerOf2 :: "u64 \<Rightarrow> u64" where
  "NextPowerOf2 A =
     (let A = A OR drop_bit 1 A;
          A = A OR drop_bit 2 A;
          A = A OR drop_bit 4 A;
          A = A OR drop_bit 8 A;
          A = A OR drop_bit 16 A;
          A = A OR drop_bit 32 A in
      A + 1)"

definition NextPowerOf2_32 :: "u32 \<Rightarrow> u32" where
  "NextPowerOf2_32 A =
     (let A = A OR drop_bit 1 A;
          A = A OR drop_bit 2 A;
          A = A OR drop_bit 4 A;
          A = A OR drop_bit 8 A;
          A = A OR drop_bit 16 A in
      A + 1)"

definition RoundUpToAlignment :: "u64 \<Rightarrow> u64 \<Rightarrow> u64" where
  "RoundUpToAlignment Value Align = ((Value + Align - 1) div Align) * Align"

definition OffsetToAlignment :: "u64 \<Rightarrow> u64 \<Rightarrow> u64" where
  "OffsetToAlignment Value Align = RoundUpToAlignment Value Align - Value"

text \<open>Negating the least signed number overflows, which C leaves undefined.\<close>

definition abs64 :: "u64 \<Rightarrow> u64 option" where
  "abs64 x = (if sint x < 0 then if sint x = - (2 ^ 63) then None else Some (- x) else Some x)"

definition SignExtend32 :: "u32 \<Rightarrow> nat \<Rightarrow> u32" where
  "SignExtend32 X B = signed_drop_bit (32 - B) (push_bit (32 - B) X)"

definition SignExtend64 :: "u64 \<Rightarrow> nat \<Rightarrow> u64" where
  "SignExtend64 X B = signed_drop_bit (64 - B) (push_bit (64 - B) X)"

section \<open>The highest and the lowest bit\<close>

definition top_bit :: "'a::len word \<Rightarrow> nat \<Rightarrow> bool" where
  "top_bit w h \<longleftrightarrow> bit w h \<and> (\<forall>j>h. \<not> bit w j)"

definition low_bit :: "'a::len word \<Rightarrow> nat \<Rightarrow> bool" where
  "low_bit w l \<longleftrightarrow> bit w l \<and> (\<forall>j<l. \<not> bit w j)"

lemma bit_nonzero: "w \<noteq> 0 \<longleftrightarrow> (\<exists>n. bit w n)" for w :: "'a::len word"
  by (auto simp: bit_eq_iff dest: bit_imp_le_length)

lemma upt_split: "i < n \<Longrightarrow> [0..<n] = [0..<i] @ i # [Suc i..<n]"
  using upt_add_eq_append [of 0 i "n - i"] upt_conv_Cons [of i n] by simp

lemma top_bit_exists:
  fixes w :: "'a::len word"
  assumes "w \<noteq> 0"
  obtains h where "top_bit w h" "h < LENGTH('a)"
proof -
  have f: "finite {n. bit w n}" by (rule finite_subset [of _ "{..<LENGTH('a)}"]) (auto dest: bit_imp_le_length)
  obtain n where "bit w n" using assms bit_nonzero by auto
  then have m: "bit w (Max {n. bit w n})" using Max_in [OF f] by auto
  moreover have "\<not> bit w j" if "Max {n. bit w n} < j" for j
    using Max_ge [OF f, of j] that by (auto simp: not_le [symmetric])
  ultimately have "top_bit w (Max {n. bit w n})" unfolding top_bit_def by blast
  then show thesis by (rule that) (rule bit_imp_le_length [OF m])
qed

lemma low_bit_exists:
  fixes w :: "'a::len word"
  assumes "w \<noteq> 0"
  obtains l where "low_bit w l" "l < LENGTH('a)"
proof -
  obtain n where "bit w n" using assms bit_nonzero by auto
  then have "low_bit w (LEAST n. bit w n)" unfolding low_bit_def using LeastI not_less_Least by metis
  then show thesis using that by (auto simp: low_bit_def dest: bit_imp_le_length)
qed

lemma builtin_clz_top:
  fixes w :: "'a::len word"
  assumes "top_bit w h"
  shows "builtin_clz w = LENGTH('a) - 1 - h"
proof -
  have h: "h < LENGTH('a)" using assms by (auto simp: top_bit_def dest: bit_imp_le_length)
  then have "[0..<LENGTH('a)] = [0..<h] @ h # [Suc h..<LENGTH('a)]"
    by (rule upt_split)
  moreover have "takeWhile (\<lambda>i. \<not> bit w i) (rev [Suc h..<LENGTH('a)] @ h # rev [0..<h]) = rev [Suc h..<LENGTH('a)]"
    using assms by (subst takeWhile_append2) (auto simp: top_bit_def)
  ultimately show ?thesis by (simp add: builtin_clz_def)
qed

lemma builtin_ctz_low:
  fixes w :: "'a::len word"
  assumes "low_bit w l"
  shows "builtin_ctz w = l"
proof -
  have l: "l < LENGTH('a)" using assms by (auto simp: low_bit_def dest: bit_imp_le_length)
  then have "[0..<LENGTH('a)] = [0..<l] @ l # [Suc l..<LENGTH('a)]"
    by (rule upt_split)
  moreover have "takeWhile (\<lambda>i. \<not> bit w i) ([0..<l] @ l # [Suc l..<LENGTH('a)]) = [0..<l]"
    using assms by (subst takeWhile_append2) (auto simp: low_bit_def)
  ultimately show ?thesis by (simp add: builtin_ctz_def)
qed

lemma or_power_add: "2 ^ Suc k dvd n \<Longrightarrow> n OR 2 ^ k = n + 2 ^ k" for n :: nat
proof -
  assume "2 ^ Suc k dvd n"
  then obtain m where "n = 2 ^ Suc k * m" ..
  then have "n = push_bit (Suc k) m" by (simp add: push_bit_eq_mult)
  then have "\<not> bit n k" by (simp only: bit_push_bit_iff) simp
  then have "\<not> bit n j \<or> \<not> bit (2 ^ k :: nat) j" for j
    by (auto simp: bit_exp_iff)
  from disjunctive_add [OF this] show ?thesis by simp
qed

lemma clz_loop_top:
  fixes v :: "'a::len word"
  assumes "top_bit v h" "h < 2 ^ Suc k" "2 ^ Suc k dvd cnt"
  shows "clz_loop (2 ^ k) v cnt = cnt + (2 ^ Suc k - 1 - h)"
  using assms
proof (induction k arbitrary: v h cnt)
  case 0
  have z: "drop_bit 1 v \<noteq> 0 \<longleftrightarrow> h \<noteq> 0"
  proof (cases "h = 0")
    case True
    then have "drop_bit 1 v = 0" using 0(1) by (intro bit_word_eqI) (simp add: bit_drop_bit_eq top_bit_def)
    then show ?thesis using True by simp
  next
    case False
    then have "bit (drop_bit 1 v) 0" using 0(1,2) by (auto simp: bit_drop_bit_eq top_bit_def less_2_cases_iff)
    then show ?thesis using False by auto
  qed
  have "h = 0 \<or> h = 1" using 0 by auto
  then show ?case using z or_power_add [of 0 cnt] 0(3) by (auto simp: clz_loop.simps [of "Suc 0"] clz_loop.simps [of 0] Let_def)
next
  case (Suc k)
  let ?t = "drop_bit (2 ^ Suc k) v"
  have c: "clz_loop (2 ^ Suc k) v cnt = (if ?t \<noteq> 0 then clz_loop (2 ^ k) ?t cnt else clz_loop (2 ^ k) v (cnt OR 2 ^ Suc k))"
    by (subst clz_loop.simps) simp
  have d: "2 ^ Suc k dvd cnt" using Suc.prems(3) by (rule dvd_trans [OF le_imp_power_dvd, rotated]) simp
  show ?case
  proof (cases "2 ^ Suc k \<le> h")
    case True
    then have t: "top_bit ?t (h - 2 ^ Suc k)"
      using Suc.prems(1) by (auto simp: top_bit_def bit_drop_bit_eq simp del: power_Suc)
    then have "?t \<noteq> 0" by (auto simp: top_bit_def)
    then have "clz_loop (2 ^ Suc k) v cnt = cnt + (2 ^ Suc k - 1 - (h - 2 ^ Suc k))"
      using Suc.IH [OF t _ d] Suc.prems(2) True unfolding c by simp
    then show ?thesis using True by simp
  next
    case False
    then have "?t = 0" using Suc.prems(1)
      by (intro bit_word_eqI) (simp add: bit_drop_bit_eq top_bit_def del: power_Suc)
    moreover have "2 ^ Suc k dvd cnt + 2 ^ Suc k" using d by simp
    ultimately have "clz_loop (2 ^ Suc k) v cnt = cnt + 2 ^ Suc k + (2 ^ Suc k - 1 - h)"
      using Suc.IH [OF Suc.prems(1)] False or_power_add [OF Suc.prems(3)] unfolding c by simp
    then show ?thesis using False by simp
  qed
qed

lemma clz_loop_builtin:
  fixes v :: "'a::len word"
  assumes "v \<noteq> 0" "LENGTH('a) = 2 ^ Suc k"
  shows "clz_loop (2 ^ k) v 0 = builtin_clz v"
proof -
  obtain h where h: "top_bit v h" "h < LENGTH('a)" by (rule top_bit_exists [OF assms(1)])
  show ?thesis using clz_loop_top [OF h(1), of k 0] builtin_clz_top [OF h(1)] h(2) by (simp add: assms(2))
qed

lemma odd_and_minus: "odd u \<Longrightarrow> - u AND u = 1" for u :: "'a::len word"
proof -
  assume "odd u"
  then obtain w where u: "u = 2 * w + 1" ..
  have "- u = NOT (u - 1)" by (simp add: minus_eq_not_minus_1)
  then have m: "- u = NOT (2 * w)" by (simp add: u)
  show "- u AND u = 1"
    unfolding m by (rule bit_word_eqI) (auto simp: u bit_simps even_bit_succ_iff add.commute [of _ 1])
qed

lemma low_bit_and_minus:
  fixes v :: "'a::len word"
  assumes "low_bit v l"
  shows "- v AND v = push_bit l 1"
proof -
  have l: "l < LENGTH('a)" using assms by (auto simp: low_bit_def dest: bit_imp_le_length)
  let ?u = "drop_bit l v"
  have "l \<le> n" if "bit v n" for n using assms that unfolding low_bit_def by (meson not_le)
  then have v: "v = push_bit l ?u" by (intro bit_word_eqI) (auto simp: bit_simps)
  have o: "odd ?u" using assms by (simp add: low_bit_def flip: bit_0) (simp add: bit_drop_bit_eq)
  have "- v = push_bit l (- ?u)" by (subst v) (simp add: push_bit_eq_mult)
  then have "- v AND v = push_bit l (- ?u AND ?u)" by (subst (2) v) (simp add: push_bit_and)
  then show ?thesis by (simp only: odd_and_minus [OF o])
qed

lemma and_minus_one:
  fixes v :: "'a::len word"
  assumes "v \<noteq> 0"
  shows "v AND (v - 1) = 0 \<longleftrightarrow> (\<exists>l<LENGTH('a). v = push_bit l 1)"
proof -
  obtain l where l: "low_bit v l" "l < LENGTH('a)" by (rule low_bit_exists [OF assms])
  have "- v = NOT (v - 1)" by (simp add: minus_eq_not_minus_1)
  then have "v - 1 = NOT (- v)" by simp
  then have "v AND (v - 1) = 0 \<longleftrightarrow> - v AND v = v"
    by (auto simp: word_bit_eq_iff bit_and_iff bit_not_iff dest: bit_imp_le_length)
  then have "v AND (v - 1) = 0 \<longleftrightarrow> v = push_bit l 1" using low_bit_and_minus [OF l(1)] by auto
  moreover have "l = k" if "v = push_bit k 1" "k < LENGTH('a)" for k
    using l(1) that by (auto simp: low_bit_def bit_simps)
  ultimately show ?thesis using l(2) by auto
qed

section \<open>Smearing the highest bit\<close>

lemma smear:
  fixes a b :: "'a::len word"
  assumes "\<And>n. bit b n \<longleftrightarrow> (\<exists>i<k. bit a (n + i))"
  shows "bit (b OR drop_bit k b) n \<longleftrightarrow> (\<exists>i<2 * k. bit a (n + i))"
proof -
  have "(\<exists>i<2 * k. bit a (n + i)) \<longleftrightarrow> (\<exists>i<k. bit a (n + i)) \<or> (\<exists>i<k. bit a (n + (k + i)))"
    by (metis add_less_cancel_left le_add_diff_inverse mult_2 not_le_imp_less trans_less_add1)
  then show ?thesis by (simp add: bit_or_iff bit_drop_bit_eq assms add.assoc add.left_commute)
qed

lemma smeared_mask:
  fixes a b :: "'a::len word"
  assumes "\<And>n. bit b n \<longleftrightarrow> (\<exists>i<LENGTH('a). bit a (n + i))" "top_bit a h"
  shows "b = mask (Suc h)"
proof -
  have h: "h < LENGTH('a)" using assms(2) by (auto simp: top_bit_def dest: bit_imp_le_length)
  have "bit b n \<longleftrightarrow> n \<le> h" for n
  proof
    show "bit b n \<Longrightarrow> n \<le> h"
      using assms by (auto simp: top_bit_def) (metis le_add1 le_trans not_le)
    show "n \<le> h \<Longrightarrow> bit b n"
      using assms h by (auto simp: top_bit_def intro!: exI [of _ "h - n"])
  qed
  then show ?thesis using h by (intro bit_word_eqI) (simp add: bit_mask_iff less_Suc_eq_le)
qed

lemma NextPowerOf2_top:
  assumes "top_bit A h"
  shows "NextPowerOf2 A = push_bit (Suc h) 1"
proof -
  have 0: "bit A n \<longleftrightarrow> (\<exists>i<1. bit A (n + i))" for n by simp
  note s1 = smear [OF 0] note s2 = smear [OF s1] note s3 = smear [OF s2]
  note s4 = smear [OF s3] note s5 = smear [OF s4] note s6 = smear [OF s5]
  have e: "(2 * 1 :: nat) = 2" "(2 * 2 :: nat) = 4" "(2 * 4 :: nat) = 8" "(2 * 8 :: nat) = 16" "(2 * 16 :: nat) = 32"
    "(2 * 32 :: nat) = LENGTH(64)" by simp_all
  have "NextPowerOf2 A = mask (Suc h) + 1"
    unfolding NextPowerOf2_def Let_def using smeared_mask [OF s6 [unfolded e] assms] by simp
  then show ?thesis by (simp add: mask_eq_exp_minus_1 push_bit_eq_mult)
qed

lemma top_bit_bounds:
  fixes w :: "'a::len word"
  assumes "top_bit w h"
  shows "2 ^ h \<le> unat w" "unat w < 2 ^ Suc h"
proof -
  have b: "bit w n = bit (unat w) n" for n by (rule bit_unat [symmetric])
  have "n < Suc h" if "bit w n" for n using assms that unfolding top_bit_def by (meson not_less_eq)
  then have "take_bit (Suc h) (unat w) = unat w"
    by (intro bit_eqI) (auto simp: bit_take_bit_iff simp flip: b)
  then show "unat w < 2 ^ Suc h" by (simp add: take_bit_nat_eq_self_iff)
  have "bit (unat w) h" using assms by (simp add: top_bit_def flip: b)
  then show "2 ^ h \<le> unat w" by (metis bit_iff_odd div_less even_zero not_le)
qed

lemma unat_gcd: "unat (GreatestCommonDivisor64 A B) = gcd (unat A) (unat B)"
proof (induction A B rule: GreatestCommonDivisor64.induct)
  case (1 A B)
  show ?case
  proof (cases "B = 0")
    case True
    then show ?thesis by (simp add: GreatestCommonDivisor64.simps)
  next
    case False
    then show ?thesis
      using 1 [OF False] gcd_red_nat [of "unat A" "unat B"]
      by (simp add: GreatestCommonDivisor64.simps [of A B] unat_mod_distrib)
  qed
qed

section \<open>The portable branches\<close>

lemma clz_halves:
  fixes w :: u64
  assumes "top_bit w h"
  shows "Hi_32 w \<noteq> 0 \<longleftrightarrow> 32 \<le> h"
    and "32 \<le> h \<Longrightarrow> top_bit (Hi_32 w) (h - 32)" and "h < 32 \<Longrightarrow> top_bit (Lo_32 w) h"
proof -
  have h: "h < 64" using assms by (auto simp: top_bit_def dest: bit_imp_le_length)
  have hi: "bit (Hi_32 w) n \<longleftrightarrow> n < 32 \<and> bit w (32 + n)" for n by (simp add: Hi_32_def bit_simps)
  have lo: "bit (Lo_32 w) n \<longleftrightarrow> n < 32 \<and> bit w n" for n by (simp add: Lo_32_def bit_simps)
  show "top_bit (Hi_32 w) (h - 32)" if "32 \<le> h" using assms h that by (auto simp: top_bit_def hi)
  moreover have "Hi_32 w = 0" if "h < 32"
    using assms that by (intro bit_word_eqI) (auto simp: top_bit_def hi)
  ultimately show "Hi_32 w \<noteq> 0 \<longleftrightarrow> 32 \<le> h"
    by (cases "32 \<le> h") (auto simp: top_bit_def)
  show "top_bit (Lo_32 w) h" if "h < 32" using assms that by (auto simp: top_bit_def lo)
qed

lemma CountLeadingZeros_32_portable_eq: "CountLeadingZeros_32_portable v = CountLeadingZeros_32 v"
  using clz_loop_builtin [of v 4] by (simp add: CountLeadingZeros_32_portable_def CountLeadingZeros_32_def)

lemma CountLeadingZeros_64_portable_eq: "CountLeadingZeros_64_portable long64 v = CountLeadingZeros_64 v"
proof (cases "v = 0")
  case True
  then show ?thesis
    by (simp add: CountLeadingZeros_64_portable_def CountLeadingZeros_64_def CountLeadingZeros_32_portable_eq
        CountLeadingZeros_32_def Hi_32_def Lo_32_def Let_def)
next
  case False
  then obtain h where h: "top_bit v h" "h < 64" using top_bit_exists [OF False] by auto
  have nz: "\<not> top_bit (0 :: u32) k" for k by (simp add: top_bit_def)
  show ?thesis
    using clz_loop_builtin [of v 5] False clz_halves [OF h(1)] builtin_clz_top [OF h(1)] h(2)
      builtin_clz_top [of "Hi_32 v" "h - 32"] builtin_clz_top [of "Lo_32 v" h]
    by (auto simp: CountLeadingZeros_64_portable_def CountLeadingZeros_64_def CountLeadingZeros_32_portable_eq
        CountLeadingZeros_32_def Let_def nz)
qed

lemma Mod37_table: "\<forall>l\<in>set [0..<32]. Mod37BitPosition ! (2 ^ l mod 37) = l"
  by (simp add: Mod37BitPosition_def upt_rec)

lemma Mod67_table: "\<forall>l\<in>set [0..<64]. Mod67Position ! (2 ^ l mod 67) = l"
  by (simp add: Mod67Position_def upt_rec)

lemma CountTrailingZeros_32_portable_eq: "CountTrailingZeros_32_portable v = CountTrailingZeros_32 v"
proof (cases "v = 0")
  case False
  then obtain l where l: "low_bit v l" "l < 32" using low_bit_exists [OF False] by auto
  have "unat ((- v AND v) mod 37) = 2 ^ l mod 37"
    using l(2) unat_push_bit_1 [of l, where 'a = 32] by (simp add: low_bit_and_minus [OF l(1)] unat_mod_distrib)
  then show ?thesis using False Mod37_table l(2) builtin_ctz_low [OF l(1)]
    by (simp add: CountTrailingZeros_32_portable_def CountTrailingZeros_32_def)
qed (simp add: CountTrailingZeros_32_portable_def CountTrailingZeros_32_def Mod37BitPosition_def)

lemma CountTrailingZeros_64_portable_eq: "CountTrailingZeros_64_portable v = CountTrailingZeros_64 v"
proof (cases "v = 0")
  case False
  then obtain l where l: "low_bit v l" "l < 64" using low_bit_exists [OF False] by auto
  have "unat ((- v AND v) mod 67) = 2 ^ l mod 67"
    using l(2) unat_push_bit_1 [of l, where 'a = 64] by (simp add: low_bit_and_minus [OF l(1)] unat_mod_distrib)
  then show ?thesis using False Mod67_table l(2) builtin_ctz_low [OF l(1)]
    by (simp add: CountTrailingZeros_64_portable_def CountTrailingZeros_64_def)
qed (simp add: CountTrailingZeros_64_portable_def CountTrailingZeros_64_def Mod67Position_def)

section \<open>Properties\<close>

text \<open>
  C31: The fallbacks agree with the compiler builtins. The bisection loop for leading zeros, at
  both widths and for both sizes of \<open>long\<close>, and the two perfect hash tables for trailing zeros
  (powers of two modulo 37 and 67), compute what the scanning builtins compute, for every word
  and with the value for zero.
\<close>

theorem count_zeros_portable:
  "CountLeadingZeros_32_portable v = CountLeadingZeros_32 v \<and>
   CountLeadingZeros_64_portable long64 w = CountLeadingZeros_64 w \<and>
   CountTrailingZeros_32_portable v = CountTrailingZeros_32 v \<and>
   CountTrailingZeros_64_portable w = CountTrailingZeros_64 w"
  by (simp add: CountLeadingZeros_32_portable_eq CountLeadingZeros_64_portable_eq
      CountTrailingZeros_32_portable_eq CountTrailingZeros_64_portable_eq)

text \<open>
  C30: The next power of two. \<open>NextPowerOf2\<close> of a number below \<open>2^63\<close> is the least power of two
  strictly above it; from \<open>2^63\<close> on the result overflows to zero.
\<close>

theorem NextPowerOf2_least:
  "(if unat A < 2 ^ 63 then
      \<exists>k. unat (NextPowerOf2 A) = 2 ^ k \<and> unat A < 2 ^ k \<and> (k = 0 \<or> 2 ^ (k - 1) \<le> unat A)
    else NextPowerOf2 A = 0)"
proof (cases "A = 0")
  case True
  then show ?thesis by (auto simp: NextPowerOf2_def Let_def intro!: exI [of _ 0])
next
  case False
  then obtain h where h: "top_bit A h" "h < 64" using top_bit_exists [OF False] by auto
  note b = top_bit_bounds [OF h(1)]
  show ?thesis
  proof (cases "h < 63")
    case True
    then have "unat A < 2 ^ 63" using b(2) power_increasing [of "Suc h" 63 "2 :: nat"] by simp
    moreover have "unat (NextPowerOf2 A) = 2 ^ Suc h"
      using True unat_push_bit_1 [of "Suc h", where 'a = 64] by (simp add: NextPowerOf2_top [OF h(1)])
    ultimately show ?thesis using b by (auto intro!: exI [of _ "Suc h"])
  next
    case f: False
    then have "h = 63" using h(2) by simp
    then have "NextPowerOf2 A = 0" "\<not> unat A < 2 ^ 63" using b(1) by (simp_all add: NextPowerOf2_top [OF h(1)])
    then show ?thesis by simp
  qed
qed

text \<open>
  C32: Euclid's loop ends with the greatest common divisor, for all arguments.
\<close>

theorem GreatestCommonDivisor64_gcd: "unat (GreatestCommonDivisor64 A B) = gcd (unat A) (unat B)"
  by (rule unat_gcd)

text \<open>
  The power-of-two tests. \<open>isPowerOf2_64\<close> and \<open>isPowerOf2_32\<close> accept exactly the powers of
  two; the unguarded \<open>IsPowerOf2\<close> accepts zero as well.
\<close>

lemma power_of_2_tests:
  "(isPowerOf2_64 v \<longleftrightarrow> (\<exists>k<64. v = push_bit k 1)) \<and>
   (isPowerOf2_32 w \<longleftrightarrow> (\<exists>k<32. w = push_bit k 1)) \<and>
   (IsPowerOf2 v \<longleftrightarrow> v = 0 \<or> (\<exists>k<64. v = push_bit k 1))"
proof -
  have "push_bit k 1 \<noteq> (0 :: u64)" if "k < 64" for k using that by (auto simp: bit_eq_iff bit_simps)
  moreover have "push_bit k 1 \<noteq> (0 :: u32)" if "k < 32" for k using that by (auto simp: bit_eq_iff bit_simps)
  ultimately show ?thesis
    using and_minus_one [of v] and_minus_one [of w]
    by (cases "v = 0"; cases "w = 0")
       (auto simp: isPowerOf2_64_def isPowerOf2_32_def IsPowerOf2_def and.commute [of _ v])
qed

text \<open>
  Rounding up to an alignment. When \<open>Value + Align - 1\<close> does not overflow,
  \<open>RoundUpToAlignment\<close> gives the least multiple of a nonzero alignment that is not below the
  value, and \<open>OffsetToAlignment\<close> is the distance to it, which is less than the alignment.
\<close>

lemma RoundUpToAlignment_least:
  assumes "Align \<noteq> 0" "unat Value + unat Align \<le> 2 ^ 64"
  shows "unat Align dvd unat (RoundUpToAlignment Value Align) \<and>
    unat Value \<le> unat (RoundUpToAlignment Value Align) \<and>
    unat (RoundUpToAlignment Value Align) < unat Value + unat Align \<and>
    unat (OffsetToAlignment Value Align) = unat (RoundUpToAlignment Value Align) - unat Value"
proof -
  let ?a = "unat Align" and ?v = "unat Value"
  have a: "0 < ?a" using assms(1) by (simp add: unat_gt_0)
  have s: "unat (Value + Align - 1) = ?v + ?a - 1"
  proof -
    have "unat (Align - 1) = ?a - 1" using assms(1) by (simp add: unat_minus_one)
    moreover have "?v + unat (Align - 1) < 2 ^ 64" using calculation assms(2) a by simp
    ultimately have "unat (Value + (Align - 1)) = ?v + (?a - 1)" using unat_add_lem [of Value "Align - 1"] by simp
    then show ?thesis using a by (simp add: add_diff_eq)
  qed
  let ?r = "(?v + ?a - 1) div ?a * ?a"
  have r: "?v \<le> ?r" "?r < ?v + ?a"
    using a mod_less_divisor [OF a, of "?v + ?a - 1"] div_mult_mod_eq [of "?v + ?a - 1" ?a] by linarith+
  have "?r < 2 ^ 64" using r(2) assms(2) by simp
  then have u: "unat (RoundUpToAlignment Value Align) = ?r"
    using unat_mult_lem [of "(Value + Align - 1) div Align" Align] s
    by (simp add: RoundUpToAlignment_def unat_div_distrib)
  have "Value \<le> RoundUpToAlignment Value Align" using r(1) u by (simp add: word_le_nat_alt)
  then have "unat (OffsetToAlignment Value Align) = ?r - ?v" using u by (simp add: OffsetToAlignment_def unat_sub)
  then show ?thesis using u r by simp
qed

end
