(* ===== verification/Utilities.thy ===== *)
theory Utilities
  imports MathExtras "HOL-Library.Multiset"
begin

text \<open>
  The small containers and integer helpers of the runtime: \<open>SafeRanges\<close>, the disguised
  pointers, the chained hooks, the small vectors and the hash functions of
  \<^verbatim>\<open>runtime/objc-private.h\<close>, the search of \<open>SafeRanges\<close> in \<^verbatim>\<open>runtime/objc-runtime.mm\<close>, and the
  alignment helpers of \<^verbatim>\<open>runtime/objc-os.h\<close>. Each container is related to the plain data it
  stands for: \<open>SafeRanges\<close> to a set of address ranges, a small vector to a list.
\<close>

section \<open>SafeRanges\<close>

text \<open>A range is its start and its end; the array has \<open>count\<close> elements and room for \<open>size\<close>.\<close>

type_synonym addr_range = "u64 \<times> u64"

definition Range_contains :: "addr_range \<Rightarrow> u64 \<Rightarrow> bool" where
  "Range_contains r ptr \<longleftrightarrow> fst r \<le> ptr \<and> ptr < snd r"

record SafeRanges =
  shared_cache :: addr_range
  ranges :: "addr_range list"
  sr_size :: nat
  sr_sorted :: bool

abbreviation sr_count :: "SafeRanges \<Rightarrow> nat" where
  "sr_count s \<equiv> length (ranges s)"

definition inSharedCache :: "SafeRanges \<Rightarrow> u64 \<Rightarrow> bool" where
  "inSharedCache s ptr = Range_contains (shared_cache s) ptr"

definition SafeRanges_contains :: "SafeRanges \<Rightarrow> nat \<Rightarrow> u64 \<Rightarrow> bool" where
  "SafeRanges_contains s witness ptr \<longleftrightarrow> witness < sr_count s \<and> Range_contains (ranges s ! witness) ptr"

function find_loop :: "addr_range list \<Rightarrow> u64 \<Rightarrow> nat \<Rightarrow> nat \<Rightarrow> nat option" where
  "find_loop rs ptr l r =
     (if l < r then
        let i = (l + r) div 2 in
        if ptr < fst (rs ! i) then find_loop rs ptr l i
        else if snd (rs ! i) \<le> ptr then find_loop rs ptr (i + 1) r
        else Some i
      else None)"
  by pat_completeness auto
termination
  by (relation "measure (\<lambda>(rs, ptr, l, r). r - l)") auto

declare find_loop.simps [simp del]

definition sort_ranges :: "SafeRanges \<Rightarrow> SafeRanges" where
  "sort_ranges s = (if sr_sorted s then s else s\<lparr>ranges := sort_key fst (ranges s), sr_sorted := True\<rparr>)"

definition SafeRanges_find :: "SafeRanges \<Rightarrow> u64 \<Rightarrow> nat option \<times> SafeRanges" where
  "SafeRanges_find s ptr =
     (let s' = sort_ranges s in (find_loop (ranges s') ptr 0 (sr_count s'), s'))"

definition grow_size :: "nat \<Rightarrow> nat" where
  "grow_size n = n + (if n < 16 then 4 else 2 ^ (unat (Log2_32 (of_nat n)) - 2))"

definition SafeRanges_add :: "SafeRanges \<Rightarrow> u64 \<Rightarrow> u64 \<Rightarrow> SafeRanges" where
  "SafeRanges_add s start end =
     s\<lparr>sr_size := (if sr_count s = sr_size s then grow_size (sr_size s) else sr_size s),
       ranges := ranges s @ [(start, end)], sr_sorted := False\<rparr>"

definition SafeRanges_remove :: "SafeRanges \<Rightarrow> u64 \<Rightarrow> u64 \<Rightarrow> SafeRanges option" where
  "SafeRanges_remove s start end =
     (case SafeRanges_find s start of
        (None, s') \<Rightarrow> None
      | (Some pos, s') \<Rightarrow>
          if snd (ranges s' ! pos) \<noteq> end then None
          else
            let count = sr_count s' - 1 in
            if pos < count
            then Some (s'\<lparr>ranges := take count ((ranges s')[pos := ranges s' ! count]), sr_sorted := False\<rparr>)
            else Some (s'\<lparr>ranges := take count (ranges s')\<rparr>))"

definition setSharedCacheRange :: "SafeRanges \<Rightarrow> u64 \<Rightarrow> u64 \<Rightarrow> SafeRanges" where
  "setSharedCacheRange s start end = SafeRanges_add (s\<lparr>shared_cache := (start, end)\<rparr>) start end"

section \<open>Hashes and powers\<close>

text \<open>\<open>_objc_strhash\<close>, where the characters are signed as they are on the targets of the runtime.\<close>

fun objc_strhash_loop :: "u8 list \<Rightarrow> u32 \<Rightarrow> u32" where
  "objc_strhash_loop [] hash = hash"
| "objc_strhash_loop (a # s) hash =
     (if a = 0 then hash else objc_strhash_loop s (hash + (push_bit 8 hash + scast a)))"

definition objc_strhash :: "u8 list \<Rightarrow> u32" where
  "objc_strhash s = objc_strhash_loop s 0"

function log2u :: "u64 \<Rightarrow> u64" where
  "log2u x = (if x < 2 then 0 else log2u (drop_bit 1 x) + 1)"
  by pat_completeness auto
termination
proof (relation "measure unat")
  show "(drop_bit 1 x, x) \<in> measure unat" if "\<not> x < 2" for x :: u64
  proof -
    have "2 \<le> unat x" using that by (simp add: word_less_nat_alt)
    then show ?thesis by (simp add: unat_drop_bit)
  qed
qed simp

declare log2u.simps [simp del]

definition exp2u :: "nat \<Rightarrow> u32" where
  "exp2u x = push_bit x 1"

definition exp2m1u :: "nat \<Rightarrow> u32" where
  "exp2m1u x = push_bit x 1 - 1"

text \<open>\<open>malloc\<close> is a parameter; an overflowing product is a fatal error.\<close>

definition alloc_overflow :: "(u64 \<Rightarrow> 'p) \<Rightarrow> u64 \<Rightarrow> u64 \<Rightarrow> 'p option" where
  "alloc_overflow malloc n m = (if 2 ^ 64 \<le> unat n * unat m then None else Some (malloc (n * m)))"

definition bswap64 :: "u64 \<Rightarrow> u64" where
  "bswap64 key = (\<Sum>i\<leftarrow>[0..<8]. push_bit (8 * (7 - i)) (take_bit 8 (drop_bit (8 * i) key)))"

definition ptr_hash :: "u64 \<Rightarrow> u32" where
  "ptr_hash key =
     (let key = key XOR drop_bit 4 key;
          key = key * 0x8a970be7488fda55;
          key = key XOR bswap64 key in
      ucast key)"

section \<open>Alignment\<close>

definition word_align_32 :: "u32 \<Rightarrow> u32" where
  "word_align_32 x = (x + 7) AND NOT 7"

definition word_align :: "u64 \<Rightarrow> u64" where
  "word_align x = (x + 7) AND NOT 7"

definition align16 :: "u64 \<Rightarrow> u64" where
  "align16 x = (x + 15) AND NOT 15"

text \<open>\<open>__builtin_clz\<close> of zero is undefined, and the shift asserts that the mask has no gaps.\<close>

definition mask16ShiftBits :: "u16 \<Rightarrow> nat option" where
  "mask16ShiftBits m =
     (if m = 0 then None
      else
        let maskShift = builtin_clz (ucast m :: u32) - 16 in
        if drop_bit maskShift 0xffff = (ucast m :: u32) then Some maskShift else None)"

section \<open>Disguised pointers\<close>

definition disguise :: "u64 \<Rightarrow> u64" where
  "disguise ptr = - ptr"

definition undisguise :: "u64 \<Rightarrow> u64" where
  "undisguise val = - val"

section \<open>Chained hooks\<close>

text \<open>
  A hook variable with the old-value variables of the callers of \<open>set\<close>. The loop runs against
  the values other threads install between the load and the compare-and-swap.
\<close>

record 'f hook_state =
  hook :: 'f
  old_vars :: "nat \<Rightarrow> 'f"

definition hook_get :: "'f hook_state \<Rightarrow> 'f" where
  "hook_get s = hook s"

fun hook_set_loop :: "'f \<Rightarrow> 'f \<Rightarrow> nat \<Rightarrow> 'f list \<Rightarrow> 'f hook_state \<Rightarrow> 'f hook_state" where
  "hook_set_loop oldValue newValue oldVariable [] s =
     s\<lparr>old_vars := (old_vars s)(oldVariable := oldValue), hook := newValue\<rparr>"
| "hook_set_loop oldValue newValue oldVariable (f # others) s =
     hook_set_loop f newValue oldVariable others
       (s\<lparr>old_vars := (old_vars s)(oldVariable := oldValue), hook := f\<rparr>)"

definition hook_set :: "'f \<Rightarrow> nat \<Rightarrow> 'f list \<Rightarrow> 'f hook_state \<Rightarrow> 'f hook_state" where
  "hook_set newValue oldVariable others s = hook_set_loop (hook s) newValue oldVariable others s"

section \<open>Small vectors\<close>

text \<open>
  The union of the inline elements and the heap array; reading the member that was not written
  is \<open>None\<close>, as is running out of memory, which the predicate on byte counts decides.
\<close>

datatype 'a vec_storage = Inline_elements "'a list" | Heap_elements "'a list"

record 'a GlobalSmallVector =
  vec_count :: nat
  storage :: "'a vec_storage"

definition empty_vector :: "'a GlobalSmallVector" where
  "empty_vector = \<lparr>vec_count = 0, storage = Inline_elements []\<rparr>"

definition vec_append ::
  "(nat \<Rightarrow> bool) \<Rightarrow> nat \<Rightarrow> nat \<Rightarrow> 'a \<Rightarrow> 'a GlobalSmallVector \<Rightarrow> 'a GlobalSmallVector option" where
  "vec_append mem InlineCount elemsize val v =
     (if vec_count v < InlineCount then
        (case storage v of
           Inline_elements xs \<Rightarrow>
             Some \<lparr>vec_count = vec_count v + 1, storage = Inline_elements (take (vec_count v) xs @ [val])\<rparr>
         | Heap_elements _ \<Rightarrow> None)
      else if vec_count v = InlineCount then
        (case storage v of
           Inline_elements xs \<Rightarrow>
             if mem ((vec_count v + 1) * elemsize)
             then Some \<lparr>vec_count = vec_count v + 1, storage = Heap_elements (take (vec_count v) xs @ [val])\<rparr>
             else None
         | Heap_elements _ \<Rightarrow> None)
      else
        (case storage v of
           Heap_elements xs \<Rightarrow>
             if mem ((vec_count v + 1) * elemsize)
             then Some \<lparr>vec_count = vec_count v + 1, storage = Heap_elements (take (vec_count v) xs @ [val])\<rparr>
             else None
         | Inline_elements _ \<Rightarrow> None))"

text \<open>The elements from \<open>begin()\<close> to \<open>end()\<close>.\<close>

definition vec_range :: "nat \<Rightarrow> 'a GlobalSmallVector \<Rightarrow> 'a list option" where
  "vec_range InlineCount v =
     (case storage v of
        Inline_elements xs \<Rightarrow> if vec_count v \<le> InlineCount then Some (take (vec_count v) xs) else None
      | Heap_elements xs \<Rightarrow> if vec_count v \<le> InlineCount then None else Some (take (vec_count v) xs))"

definition vec_initFrom ::
  "(nat \<Rightarrow> bool) \<Rightarrow> nat \<Rightarrow> nat \<Rightarrow> nat \<Rightarrow> 'a GlobalSmallVector \<Rightarrow> 'a GlobalSmallVector \<Rightarrow> 'a GlobalSmallVector option" where
  "vec_initFrom mem InlineCount OtherCount elemsize other v =
     (if vec_count v \<noteq> 0 then None
      else case vec_range OtherCount other of
        None \<Rightarrow> None
      | Some xs \<Rightarrow>
          if InlineCount < length xs then
            if mem (length xs * elemsize) then Some \<lparr>vec_count = length xs, storage = Heap_elements xs\<rparr> else None
          else Some \<lparr>vec_count = length xs, storage = Inline_elements xs\<rparr>)"

text \<open>The destructor: what is freed.\<close>

definition vec_destroy :: "nat \<Rightarrow> 'a GlobalSmallVector \<Rightarrow> 'a list option" where
  "vec_destroy InlineCount v =
     (if InlineCount < vec_count v
      then case storage v of Heap_elements xs \<Rightarrow> Some xs | Inline_elements _ \<Rightarrow> None
      else None)"

section \<open>SafeRanges as a set of ranges\<close>

definition disjoint_ranges :: "addr_range \<Rightarrow> addr_range \<Rightarrow> bool" where
  "disjoint_ranges r q \<longleftrightarrow> snd r \<le> fst q \<or> snd q \<le> fst r"

definition wf_ranges :: "SafeRanges \<Rightarrow> bool" where
  "wf_ranges s \<longleftrightarrow>
     distinct (ranges s) \<and> (\<forall>r\<in>set (ranges s). fst r < snd r) \<and>
     (\<forall>r\<in>set (ranges s). \<forall>q\<in>set (ranges s). r \<noteq> q \<longrightarrow> disjoint_ranges r q) \<and>
     (sr_sorted s \<longrightarrow> sorted (map fst (ranges s)))"

lemma sort_ranges_ok:
  assumes "wf_ranges s"
  shows "wf_ranges (sort_ranges s)" "set (ranges (sort_ranges s)) = set (ranges s)" "sr_sorted (sort_ranges s)"
  using assms by (auto simp: sort_ranges_def wf_ranges_def)

lemma sorted_ranges_apart:
  assumes "wf_ranges s" "sr_sorted s" "i < j" "j < sr_count s"
  shows "snd (ranges s ! i) \<le> fst (ranges s ! j)"
proof -
  let ?r = "ranges s ! i" and ?q = "ranges s ! j"
  have "fst ?r \<le> fst ?q"
    using assms sorted_nth_mono [of "map fst (ranges s)" i j] by (simp add: wf_ranges_def)
  moreover have "?r \<noteq> ?q" using assms by (simp add: wf_ranges_def nth_eq_iff_index_eq)
  moreover have "?r \<in> set (ranges s)" "?q \<in> set (ranges s)" using assms by simp_all
  ultimately show ?thesis using assms(1) unfolding wf_ranges_def disjoint_ranges_def by (meson leD le_less_trans)
qed

lemma find_loop_correct:
  assumes "\<And>i j. i < j \<Longrightarrow> j < length rs \<Longrightarrow> snd (rs ! i) \<le> fst (rs ! j)" "r \<le> length rs"
    and "\<And>k. k < length rs \<Longrightarrow> fst (rs ! k) < snd (rs ! k)"
    and "\<And>k. k < l \<Longrightarrow> \<not> Range_contains (rs ! k) ptr"
    and "\<And>k. r \<le> k \<Longrightarrow> k < length rs \<Longrightarrow> \<not> Range_contains (rs ! k) ptr"
  shows "case find_loop rs ptr l r of
      None \<Rightarrow> \<forall>k<length rs. \<not> Range_contains (rs ! k) ptr
    | Some i \<Rightarrow> i < length rs \<and> Range_contains (rs ! i) ptr"
  using assms
proof (induction rs ptr l r rule: find_loop.induct)
  case (1 rs ptr l r)
  note IH = 1(1,2) and apart = 1(3) and len = 1(4) and ne = 1(5) and below = 1(6) and above = 1(7)
  let ?i = "(l + r) div 2"
  note unfold = find_loop.simps [of rs ptr l r] Let_def
  show ?case
  proof (cases "l < r")
    case False
    have "\<not> Range_contains (rs ! k) ptr" if "k < length rs" for k
      using below [of k] above [of k] False that by (cases "k < l") auto
    then show ?thesis using False by (simp add: unfold)
  next
    case True
    then have i: "?i < r" "?i < length rs" using len by auto
    consider "ptr < fst (rs ! ?i)" | "\<not> ptr < fst (rs ! ?i)" "snd (rs ! ?i) \<le> ptr"
      | "\<not> ptr < fst (rs ! ?i)" "\<not> snd (rs ! ?i) \<le> ptr" by blast
    then show ?thesis
    proof cases
      case a: 1
      have n: "\<not> Range_contains (rs ! k) ptr" if "?i \<le> k" "k < length rs" for k
      proof (cases "k = ?i")
        case False
        then have "snd (rs ! ?i) \<le> fst (rs ! k)" using apart that by simp
        then have "ptr < fst (rs ! k)" using a ne [OF i(2)] by order
        then show ?thesis by (simp add: Range_contains_def not_le)
      qed (use a in \<open>simp add: Range_contains_def not_le\<close>)
      have "find_loop rs ptr l r = find_loop rs ptr l ?i" using True a by (simp add: unfold)
      then show ?thesis using IH(1) [OF True refl a apart _ ne below n] i by simp
    next
      case b: 2
      have n: "\<not> Range_contains (rs ! k) ptr" if "k < ?i + 1" for k
      proof (cases "k = ?i")
        case False
        then have "snd (rs ! k) \<le> fst (rs ! ?i)" using apart that i(2) by simp
        then have "\<not> ptr < snd (rs ! k)" using b by order
        then show ?thesis by (simp add: Range_contains_def)
      qed (use b in \<open>simp add: Range_contains_def not_less\<close>)
      have "find_loop rs ptr l r = find_loop rs ptr (?i + 1) r" using True b by (simp add: unfold)
      then show ?thesis using IH(2) [OF True refl b apart len ne n above] by simp
    next
      case 3
      then have "find_loop rs ptr l r = Some ?i" using True by (simp add: unfold)
      then show ?thesis using i 3 by (simp add: Range_contains_def not_less not_le)
    qed
  qed
qed

lemma SafeRanges_find_ok:
  assumes "wf_ranges s"
  shows "snd (SafeRanges_find s ptr) = sort_ranges s"
    and "fst (SafeRanges_find s ptr) = Some pos \<Longrightarrow> SafeRanges_contains (sort_ranges s) pos ptr"
    and "fst (SafeRanges_find s ptr) = None \<Longrightarrow> \<forall>r\<in>set (ranges s). \<not> Range_contains r ptr"
proof -
  note so = sort_ranges_ok [OF assms]
  show "snd (SafeRanges_find s ptr) = sort_ranges s" by (simp add: SafeRanges_find_def Let_def)
  have "case find_loop (ranges (sort_ranges s)) ptr 0 (sr_count (sort_ranges s)) of
      None \<Rightarrow> (\<forall>k < sr_count (sort_ranges s). \<not> Range_contains (ranges (sort_ranges s) ! k) ptr)
    | Some i \<Rightarrow> SafeRanges_contains (sort_ranges s) i ptr"
    unfolding SafeRanges_contains_def
    by (rule find_loop_correct) (use sorted_ranges_apart [OF so(1,3)] so(1) in \<open>auto simp: wf_ranges_def\<close>)
  then show "fst (SafeRanges_find s ptr) = Some pos \<Longrightarrow> SafeRanges_contains (sort_ranges s) pos ptr"
    and "fst (SafeRanges_find s ptr) = None \<Longrightarrow> \<forall>r\<in>set (ranges s). \<not> Range_contains r ptr"
    unfolding so(2) [symmetric] by (simp_all add: SafeRanges_find_def Let_def) (metis in_set_conv_nth)
qed

lemma SafeRanges_add_ok:
  assumes "wf_ranges s" "start < end" "\<forall>r\<in>set (ranges s). disjoint_ranges r (start, end)"
  shows "wf_ranges (SafeRanges_add s start end)"
    "set (ranges (SafeRanges_add s start end)) = insert (start, end) (set (ranges s))"
proof -
  have "(start, end) \<notin> set (ranges s)" using assms(2,3) by (force simp: disjoint_ranges_def)
  then show "wf_ranges (SafeRanges_add s start end)"
    "set (ranges (SafeRanges_add s start end)) = insert (start, end) (set (ranges s))"
    using assms by (auto simp: wf_ranges_def SafeRanges_add_def disjoint_ranges_def)
qed

lemma remove_at:
  assumes "distinct xs" "pos < length xs"
  shows "set (take (length xs - 1) (xs[pos := xs ! (length xs - 1)])) = set xs - {xs ! pos}"
    and "distinct (take (length xs - 1) (xs[pos := xs ! (length xs - 1)]))"
proof -
  obtain ys y where xs: "xs = ys @ [y]" using assms(2) by (cases xs rule: rev_cases) auto
  show "set (take (length xs - 1) (xs[pos := xs ! (length xs - 1)])) = set xs - {xs ! pos}"
    and "distinct (take (length xs - 1) (xs[pos := xs ! (length xs - 1)]))"
  proof (atomize (full), cases "pos < length ys")
    case True
    then have e: "take (length xs - 1) (xs[pos := xs ! (length xs - 1)]) = ys[pos := y]" "xs ! pos = ys ! pos"
      by (simp_all add: xs list_update_append nth_append)
    have "set (ys[pos := y]) = insert y (set ys - {ys ! pos})" "distinct (ys[pos := y])"
      using True assms(1) by (simp_all add: xs set_update_distinct distinct_list_update)
    moreover have "y \<noteq> ys ! pos" using True assms(1) by (auto simp: xs)
    ultimately show "set (take (length xs - 1) (xs[pos := xs ! (length xs - 1)])) = set xs - {xs ! pos} \<and>
      distinct (take (length xs - 1) (xs[pos := xs ! (length xs - 1)]))" unfolding e by (auto simp: xs)
  next
    case False
    then have "pos = length ys" using assms(2) by (simp add: xs)
    then show "set (take (length xs - 1) (xs[pos := xs ! (length xs - 1)])) = set xs - {xs ! pos} \<and>
      distinct (take (length xs - 1) (xs[pos := xs ! (length xs - 1)]))" using assms(1) by (simp add: xs)
  qed
qed

lemma wf_ranges_subset:
  assumes "wf_ranges s" "distinct rs" "set rs \<subseteq> set (ranges s)"
  shows "wf_ranges (s\<lparr>ranges := rs, sr_sorted := False\<rparr>)"
  using assms by (simp add: wf_ranges_def) blast

lemma contains_start:
  assumes "wf_ranges s" "(start, end) \<in> set (ranges s)" "r \<in> set (ranges s)" "Range_contains r start"
  shows "r = (start, end)"
proof (rule ccontr)
  assume "r \<noteq> (start, end)"
  then have "disjoint_ranges r (start, end)" "start < end" using assms(1-3) by (auto simp: wf_ranges_def)
  then show False using assms(4) by (auto simp: disjoint_ranges_def Range_contains_def)
qed

lemma wf_ranges_butlast:
  assumes "wf_ranges s"
  shows "wf_ranges (s\<lparr>ranges := take n (ranges s)\<rparr>)"
proof -
  have t: "set (take n (ranges s)) \<subseteq> set (ranges s)" by (rule set_take_subset)
  have "sorted (take n (map fst (ranges s)))" if "sr_sorted s"
    using assms that by (simp add: wf_ranges_def sorted_wrt_take)
  with assms t show ?thesis by (simp add: wf_ranges_def take_map) blast
qed

lemma SafeRanges_remove_ok:
  assumes "wf_ranges s" "(start, end) \<in> set (ranges s)"
  obtains s' where "SafeRanges_remove s start end = Some s'" "wf_ranges s'"
    "set (ranges s') = set (ranges s) - {(start, end)}"
proof -
  note so = sort_ranges_ok [OF assms(1)]
  let ?s = "sort_ranges s"
  have "Range_contains (start, end) start" using assms by (auto simp: wf_ranges_def Range_contains_def)
  then obtain pos where f: "SafeRanges_find s start = (Some pos, ?s)"
    using SafeRanges_find_ok(1,3) [OF assms(1), of start] assms(2)
    by (cases "SafeRanges_find s start"; cases "fst (SafeRanges_find s start)") force+
  then have pos: "pos < sr_count ?s" "Range_contains (ranges ?s ! pos) start"
    using SafeRanges_find_ok(2) [OF assms(1), of start pos] by (simp_all add: SafeRanges_contains_def)
  have e: "ranges ?s ! pos = (start, end)"
    using contains_start [OF so(1), of start "end"] so(2) pos assms(2) nth_mem by metis
  note r = remove_at [of "ranges ?s" pos, OF _ pos(1)]
  have d: "distinct (ranges ?s)" using so(1) by (simp add: wf_ranges_def)
  show thesis
  proof (cases "pos < sr_count ?s - 1")
    case True
    show thesis
      by (rule that [of "?s\<lparr>ranges := take (sr_count ?s - 1) ((ranges ?s)[pos := ranges ?s ! (sr_count ?s - 1)]),
            sr_sorted := False\<rparr>"])
        (use True f e r [OF d] wf_ranges_subset [OF so(1) r(2) [OF d]] so(2) in
          \<open>auto simp: SafeRanges_remove_def Let_def\<close>)
  next
    case False
    then have "pos = sr_count ?s - 1" using pos(1) by simp
    then have "take (sr_count ?s - 1) ((ranges ?s)[pos := ranges ?s ! (sr_count ?s - 1)]) = take (sr_count ?s - 1) (ranges ?s)"
      by simp
    then show thesis
      by (intro that [of "?s\<lparr>ranges := take (sr_count ?s - 1) (ranges ?s)\<rparr>"])
        (use False f e r(1) [OF d] wf_ranges_butlast [OF so(1)] so(2) in \<open>simp_all add: SafeRanges_remove_def Let_def\<close>)
  qed
qed

section \<open>Small vectors as lists\<close>

definition vec_is :: "nat \<Rightarrow> 'a GlobalSmallVector \<Rightarrow> 'a list \<Rightarrow> bool" where
  "vec_is InlineCount v xs \<longleftrightarrow>
     vec_count v = length xs \<and>
     storage v = (if length xs \<le> InlineCount then Inline_elements xs else Heap_elements xs)"

lemma vec_is_empty: "vec_is n empty_vector []"
  by (simp add: vec_is_def empty_vector_def)

lemma vec_is_range: "vec_is n v xs \<Longrightarrow> vec_range n v = Some xs"
  by (simp add: vec_is_def vec_range_def)

lemma vec_append_is:
  assumes "vec_is n v xs" "mem ((length xs + 1) * k)"
  shows "\<exists>v'. vec_append mem n k x v = Some v' \<and> vec_is n v' (xs @ [x])"
  using assms by (auto simp: vec_is_def vec_append_def split: if_splits)

lemma word_align_floor:
  assumes "unat x + 7 < 2 ^ 64"
  shows "unat (word_align x) = (unat x + 7) div 8 * 8"
proof -
  have m: "(7 :: u64) = mask 3" by (simp add: mask_eq_exp_minus_1)
  have "word_align x = push_bit 3 (drop_bit 3 (x + 7))"
    unfolding word_align_def m by (rule bit_word_eqI) (auto simp: bit_simps)
  then have w: "word_align x = (x + 7) div 8 * 8" by (simp add: push_bit_eq_mult drop_bit_eq_div)
  have u: "unat (x + 7) = unat x + 7" using assms unat_add_lem [of x 7] by simp
  have "(unat x + 7) div 8 * 8 < 2 ^ 64" using assms by simp
  then show ?thesis using unat_mult_lem [of "(x + 7) div 8" 8] by (simp add: w u unat_div_distrib)
qed

lemma hook_set_loop_result:
  "hook (hook_set_loop old new var others s) = new"
  "old_vars (hook_set_loop old new var others s) = (old_vars s)(var := last (old # others))"
  by (induction others arbitrary: old s) auto

lemma log2u_bounds: "x \<noteq> 0 \<Longrightarrow> 2 ^ unat (log2u x) \<le> unat x \<and> unat x < 2 * 2 ^ unat (log2u x)"
proof (induction x rule: log2u.induct)
  case (1 x)
  show ?case
  proof (cases "x < 2")
    case True
    then have "unat x < 2" by (simp add: word_less_nat_alt)
    moreover have "unat x \<noteq> 0" using 1(2) by (simp add: unat_eq_zero)
    ultimately have "unat x = 1" by linarith
    then show ?thesis using True by (simp add: log2u.simps [of x])
  next
    case False
    let ?y = "drop_bit 1 x"
    have x: "2 \<le> unat x" using False by (simp add: word_less_nat_alt)
    have y: "unat ?y = unat x div 2" by (simp add: unat_drop_bit)
    then have "unat ?y \<noteq> 0" using x by simp
    then have ih: "2 ^ unat (log2u ?y) \<le> unat ?y" "unat ?y < 2 * 2 ^ unat (log2u ?y)"
      using 1(1) [OF False] by (auto simp: unat_eq_zero)
    have "unat ?y < 2 ^ 63" using y unat_less_u64 [of x] by simp
    then have "(2 :: nat) ^ unat (log2u ?y) < 2 ^ 63" using ih(1) by linarith
    then have "unat (log2u ?y) < 63" by (rule power_less_imp_less_exp [rotated]) simp
    then have l: "unat (log2u x) = unat (log2u ?y) + 1"
      using False unat_add_lem [of "log2u ?y" 1] by (simp add: log2u.simps [of x])
    have "unat x = 2 * unat ?y + unat x mod 2" "unat x mod 2 < 2" using y by simp_all
    then show ?thesis using ih unfolding l power_add power_one_right by linarith
  qed
qed

section \<open>Properties\<close>


definition sample_ranges :: SafeRanges where
  "sample_ranges = \<lparr>shared_cache = (0, 0), ranges = [(0x300, 0x400), (0x100, 0x200)], sr_size = 4, sr_sorted = False\<rparr>"




text \<open>
  C35: Installing a hook chains to the hook before it. Whatever other threads install while the
  compare-and-swap loop runs, \<open>set\<close> ends with the new function installed and the caller's
  variable holding the function it replaced, and no other variable is written.
\<close>

theorem hook_chain:
  "hook_get (hook_set newValue oldVariable others s) = newValue \<and>
   old_vars (hook_set newValue oldVariable others s) = (old_vars s)(oldVariable := last (hook s # others))"
  by (simp add: hook_set_def hook_get_def hook_set_loop_result)

text \<open>
  C36: Disguising pointers is reversible, nil stays nil, and the only other pointer disguised as
  itself is the one with just the top bit set.
\<close>

theorem disguise_roundtrip:
  "undisguise (disguise p) = p \<and> (disguise p = p \<longleftrightarrow> p = 0 \<or> p = 0x8000000000000000)"
proof -
  have "- p = p \<longleftrightarrow> p = 0 \<or> p = 0x8000000000000000"
  proof
    assume "- p = p"
    then have "p + p = 0" by (metis add.right_inverse)
    then have "(unat p + unat p) mod 2 ^ 64 = 0" using unat_word_ariths(1) [of p p] by simp
    then have "2 ^ 64 dvd 2 * unat p" by (simp add: mod_eq_0_iff_dvd mult_2)
    then have "2 ^ 63 dvd unat p" by simp
    then obtain k where k: "unat p = 2 ^ 63 * k" ..
    then have "k < 2" using unat_less_u64 [of p] by simp
    then have "unat p = 0 \<or> unat p = 0x8000000000000000" using k by (auto simp: less_2_cases_iff)
    then show "p = 0 \<or> p = 0x8000000000000000" by (auto simp: word_unat_eq_iff)
  qed auto
  then show ?thesis by (simp add: disguise_def undisguise_def)
qed

text \<open>
  Word alignment and logarithm. Unless it overflows, \<open>word_align\<close> rounds up to the next
  multiple of eight; \<open>log2u\<close> of a nonzero number terminates with the integer logarithm.
\<close>

lemma word_align_log2u:
  "(unat x + 7 < 2 ^ 64 \<longrightarrow> unat (word_align x) = (unat x + 7) div 8 * 8) \<and>
   (x \<noteq> 0 \<longrightarrow> 2 ^ unat (log2u x) \<le> unat x \<and> unat x < 2 * 2 ^ unat (log2u x))"
  using word_align_floor log2u_bounds by blast

end
