(* ===== verification/AutoreleaseReturn.thy ===== *)
theory AutoreleaseReturn
  imports Prelude
begin

text \<open>
  Handing a returned object to the caller without going through the autorelease pool
  (\<^verbatim>\<open>runtime/objc-object.h\<close>, with the entry points of \<^verbatim>\<open>runtime/NSObject.mm\<close>). The state has
  the two words of thread local storage, the references to every object, and the objects
  waiting in the autorelease pool, which owes each of them one release. What the operations
  read of an object and of the code at a return address is a parameter: whether the pointer is
  tagged, whether its class overrides retain and release, whether the autorelease is skipped
  because the object is deallocating or is a class, and the instruction bytes. An overridden
  \<open>autorelease\<close> calls the default implementation in the end, and initialising a class does not
  touch this state.
\<close>

record ret_env =
  is_tagged :: "u64 \<Rightarrow> bool"
  custom_RR :: "u64 \<Rightarrow> bool"
  no_autorelease :: "u64 \<Rightarrow> bool"
  code_byte :: "u64 \<Rightarrow> u8"

record ret_state =
  tlsFirstWord :: u64
  tlsReturnAddress :: u64
  refs :: "u64 \<Rightarrow> int"
  pool :: "u64 list"

section \<open>What the code of the caller looks like\<close>

definition load16 :: "ret_env \<Rightarrow> u64 \<Rightarrow> u16" where
  "load16 e a = ucast (code_byte e a) OR push_bit 8 (ucast (code_byte e (a + 1)))"

definition load32 :: "ret_env \<Rightarrow> u64 \<Rightarrow> u32" where
  "load32 e a = ucast (load16 e a) OR push_bit 16 (ucast (load16 e (a + 2)))"

definition load64 :: "ret_env \<Rightarrow> u64 \<Rightarrow> u64" where
  "load64 e a = ucast (load32 e a) OR push_bit 32 (ucast (load32 e (a + 4)))"

text \<open>\<open>callerAcceptsOptimizedReturn\<close> of x86_64, with the addresses of the two claim functions.\<close>

definition callerAccepts_x86_64 :: "u64 \<Rightarrow> u64 \<Rightarrow> ret_env \<Rightarrow> u64 \<Rightarrow> bool" where
  "callerAccepts_x86_64 retainRV claimRV e ra1 =
     (if load32 e ra1 \<noteq> 0xe8c78948 then False
      else
        let ra1 = ra1 + (scast (load32 e (ra1 + 4)) + 8) in
        if load16 e ra1 \<noteq> 0x25ff then False
        else
          let sym = ra1 + (6 + scast (load32 e (ra1 + 2))) in
          load64 e sym = retainRV \<or> load64 e sym = claimRV)"

definition callerAccepts_arm :: "ret_env \<Rightarrow> u64 \<Rightarrow> bool" where
  "callerAccepts_arm e ra =
     (if ra AND 1 \<noteq> 0 then load16 e (ra - 1) = 0x463f else load32 e ra = 0xe1a07007)"

definition callerAccepts_arm64 :: "ret_env \<Rightarrow> u64 \<Rightarrow> bool" where
  "callerAccepts_arm64 e ra \<longleftrightarrow> load32 e ra = 0xaa1d03fd"

definition callerAccepts_i386 :: "ret_env \<Rightarrow> u64 \<Rightarrow> bool" where
  "callerAccepts_i386 e ra \<longleftrightarrow> load16 e ra = 0xed89"

section \<open>The record in thread local storage\<close>

record ReturnAutoreleaseInfo =
  firstWord :: u64
  returnAddress :: u64

definition emptyInfo :: ReturnAutoreleaseInfo where
  "emptyInfo = \<lparr>firstWord = 0, returnAddress = 0\<rparr>"

definition blockedInfo :: ReturnAutoreleaseInfo where
  "blockedInfo = \<lparr>firstWord = - 1, returnAddress = 0\<rparr>"

definition getReturnedObject :: "ReturnAutoreleaseInfo \<Rightarrow> u64" where
  "getReturnedObject info = push_bit 2 (bf_get (2, 62) (firstWord info))"

definition getReturnDisposition :: "ReturnAutoreleaseInfo \<Rightarrow> bool" where
  "getReturnDisposition info \<longleftrightarrow> bf_get (0, 1) (firstWord info) \<noteq> 0"

definition cameFromRootAutorelease :: "ReturnAutoreleaseInfo \<Rightarrow> bool" where
  "cameFromRootAutorelease info \<longleftrightarrow> bf_get (1, 1) (firstWord info) \<noteq> 0"

definition makeInfo :: "ret_env \<Rightarrow> u64 \<Rightarrow> bool \<Rightarrow> bool \<Rightarrow> u64 \<Rightarrow> ReturnAutoreleaseInfo option" where
  "makeInfo e obj came disposition address =
     (let info = \<lparr>firstWord = bf_put (2, 62) (drop_bit 2 obj) (bf_put (1, 1) (of_bool came)
                     (bf_put (0, 1) (of_bool disposition) 0)),
                  returnAddress = address\<rparr> in
      if \<not> (is_tagged e obj \<or> obj = 0) \<and> getReturnedObject info = obj then Some info else None)"

text \<open>Only the disposition is read back from this record; the constructor leaves the rest of the word open.\<close>

definition dispositionInfo :: "bool \<Rightarrow> ReturnAutoreleaseInfo" where
  "dispositionInfo disposition = \<lparr>firstWord = bf_put (0, 1) (of_bool disposition) 0, returnAddress = 0\<rparr>"

definition isBlocked :: "ReturnAutoreleaseInfo \<Rightarrow> bool" where
  "isBlocked info \<longleftrightarrow> firstWord info = - 1"

definition isEmpty :: "ReturnAutoreleaseInfo \<Rightarrow> bool" where
  "isEmpty info \<longleftrightarrow> isBlocked info \<or> (bf_get (2, 62) (firstWord info) = 0 \<and> returnAddress info = 0)"

definition getReturnAutoreleaseInfo :: "ret_state \<Rightarrow> ReturnAutoreleaseInfo" where
  "getReturnAutoreleaseInfo st = \<lparr>firstWord = tlsFirstWord st, returnAddress = tlsReturnAddress st\<rparr>"

definition setReturnAutoreleaseInfo :: "ReturnAutoreleaseInfo \<Rightarrow> ret_state \<Rightarrow> ret_state" where
  "setReturnAutoreleaseInfo info st = st\<lparr>tlsFirstWord := firstWord info, tlsReturnAddress := returnAddress info\<rparr>"

section \<open>Retain, release and the pool\<close>

definition objc_retain :: "ret_env \<Rightarrow> u64 \<Rightarrow> ret_state \<Rightarrow> ret_state" where
  "objc_retain e obj st =
     (if is_tagged e obj \<or> obj = 0 then st else st\<lparr>refs := (refs st)(obj := refs st obj + 1)\<rparr>)"

definition objc_release :: "ret_env \<Rightarrow> u64 \<Rightarrow> ret_state \<Rightarrow> ret_state" where
  "objc_release e obj st =
     (if is_tagged e obj \<or> obj = 0 then st else st\<lparr>refs := (refs st)(obj := refs st obj - 1)\<rparr>)"

definition pool_autorelease :: "u64 \<Rightarrow> ret_state \<Rightarrow> ret_state" where
  "pool_autorelease obj st = st\<lparr>pool := obj # pool st\<rparr>"

text \<open>
  \<open>rootAutorelease\<close>, with the outcome of \<open>prepareOptimizedReturn\<close> as an argument, since the two
  call each other.
\<close>

definition rootAutorelease_with ::
  "ret_env \<Rightarrow> (ret_state \<Rightarrow> (bool \<times> ret_state) option) \<Rightarrow> u64 \<Rightarrow> ret_state \<Rightarrow> ret_state option" where
  "rootAutorelease_with e prepare obj st =
     (if is_tagged e obj then Some st
      else if no_autorelease e obj then Some st
      else do {
        (ok, st1) \<leftarrow> prepare st;
        Some (if ok then st1 else pool_autorelease obj st1)
      })"

definition objc_autorelease_with ::
  "ret_env \<Rightarrow> (ret_state \<Rightarrow> (bool \<times> ret_state) option) \<Rightarrow> u64 \<Rightarrow> ret_state \<Rightarrow> ret_state option" where
  "objc_autorelease_with e prepare obj st =
     (if is_tagged e obj \<or> obj = 0 then Some st else rootAutorelease_with e prepare obj st)"

text \<open>
  Here the storage is blocked while the object is autoreleased, and \<open>prepareOptimizedReturn\<close>
  then declines at once (lemma \<open>prepare_blocked\<close> below).
\<close>

definition moveTLSAutoreleaseToPool :: "ret_env \<Rightarrow> ReturnAutoreleaseInfo \<Rightarrow> ret_state \<Rightarrow> ret_state option" where
  "moveTLSAutoreleaseToPool e info st = do {
     let obj = getReturnedObject info;
     st1 \<leftarrow> (if obj \<noteq> 0 then
               if cameFromRootAutorelease info then Some (pool_autorelease obj st)
               else objc_autorelease_with e (\<lambda>s. Some (False, s)) obj (setReturnAutoreleaseInfo blockedInfo st)
             else Some st);
     Some (setReturnAutoreleaseInfo emptyInfo st1)
   }"

section \<open>Handing over by return address\<close>

definition prepareOptimizedReturn ::
  "ret_env \<Rightarrow> u64 \<Rightarrow> u64 \<Rightarrow> bool \<Rightarrow> bool \<Rightarrow> ret_state \<Rightarrow> (bool \<times> ret_state) option" where
  "prepareOptimizedReturn e ra obj came disposition st =
     (let info = getReturnAutoreleaseInfo st in
      if isBlocked info then Some (False, st)
      else do {
        st1 \<leftarrow> moveTLSAutoreleaseToPool e info st;
        if is_tagged e obj \<or> obj = 0 then Some (True, setReturnAutoreleaseInfo emptyInfo st1)
        else if \<not> came \<and> custom_RR e obj \<and> \<not> callerAccepts_arm64 e ra then Some (False, st1)
        else do {
          info' \<leftarrow> makeInfo e obj came disposition ra;
          Some (True, setReturnAutoreleaseInfo info' st1)
        }
      })"

definition acceptOptimizedReturn :: "ret_env \<Rightarrow> u64 \<Rightarrow> bool \<Rightarrow> ret_state \<Rightarrow> (bool \<times> ret_state) option" where
  "acceptOptimizedReturn e ra expectsNOP st =
     (let info = getReturnAutoreleaseInfo st in
      if isEmpty info then Some (False, st)
      else
        let st1 = setReturnAutoreleaseInfo emptyInfo st;
            delta = ra - returnAddress info in
        if delta = (if expectsNOP then 8 else 4) then Some (getReturnDisposition info, st1)
        else if expectsNOP \<and> callerAccepts_arm64 e (returnAddress info) then Some (getReturnDisposition info, st1)
        else do {
          st2 \<leftarrow> (if getReturnDisposition info then moveTLSAutoreleaseToPool e info st1 else Some st1);
          Some (False, st2)
        })"

text \<open>\<open>rootAutorelease\<close> and \<open>objc_autorelease\<close> in full.\<close>

definition rootAutorelease :: "ret_env \<Rightarrow> u64 \<Rightarrow> u64 \<Rightarrow> ret_state \<Rightarrow> ret_state option" where
  "rootAutorelease e ra obj = rootAutorelease_with e (prepareOptimizedReturn e ra obj True True) obj"

definition objc_autorelease :: "ret_env \<Rightarrow> u64 \<Rightarrow> u64 \<Rightarrow> ret_state \<Rightarrow> ret_state option" where
  "objc_autorelease e ra obj = objc_autorelease_with e (prepareOptimizedReturn e ra obj True True) obj"

section \<open>The entry points\<close>

definition objc_autoreleaseReturnValue :: "ret_env \<Rightarrow> u64 \<Rightarrow> u64 \<Rightarrow> ret_state \<Rightarrow> ret_state option" where
  "objc_autoreleaseReturnValue e ra obj st = do {
     (ok, st1) \<leftarrow> prepareOptimizedReturn e ra obj False True st;
     if ok then Some st1 else objc_autorelease e ra obj st1
   }"

definition objc_retainAutoreleaseReturnValue :: "ret_env \<Rightarrow> u64 \<Rightarrow> u64 \<Rightarrow> ret_state \<Rightarrow> ret_state option" where
  "objc_retainAutoreleaseReturnValue e ra obj st = do {
     (ok, st1) \<leftarrow> prepareOptimizedReturn e ra obj False True st;
     if ok then Some (objc_retain e obj st1) else objc_autorelease e ra obj (objc_retain e obj st1)
   }"

definition objc_retainAutoreleasedReturnValue :: "ret_env \<Rightarrow> u64 \<Rightarrow> u64 \<Rightarrow> ret_state \<Rightarrow> ret_state option" where
  "objc_retainAutoreleasedReturnValue e ra obj st = do {
     (plus1, st1) \<leftarrow> acceptOptimizedReturn e ra True st;
     Some (if plus1 then st1 else objc_retain e obj st1)
   }"

definition objc_claimAutoreleasedReturnValue :: "ret_env \<Rightarrow> u64 \<Rightarrow> u64 \<Rightarrow> ret_state \<Rightarrow> ret_state option" where
  "objc_claimAutoreleasedReturnValue e ra obj st = do {
     (plus1, st1) \<leftarrow> acceptOptimizedReturn e ra False st;
     Some (if plus1 then st1 else objc_retain e obj st1)
   }"

definition objc_unsafeClaimAutoreleasedReturnValue :: "ret_env \<Rightarrow> u64 \<Rightarrow> u64 \<Rightarrow> ret_state \<Rightarrow> ret_state option" where
  "objc_unsafeClaimAutoreleasedReturnValue e ra obj st = do {
     (plus1, st1) \<leftarrow> acceptOptimizedReturn e ra True st;
     Some (if plus1 then objc_release e obj st1 else st1)
   }"

section \<open>Handing over by the code of the caller\<close>

text \<open>
  The older scheme, where only the disposition is stored and the code of the caller alone
  decides; \<open>accepts\<close> is the test of the target.
\<close>

definition prepareOptimizedReturn_code ::
  "(u64 \<Rightarrow> bool) \<Rightarrow> u64 \<Rightarrow> bool \<Rightarrow> ret_state \<Rightarrow> (bool \<times> ret_state) option" where
  "prepareOptimizedReturn_code accepts ra disposition st =
     (if getReturnDisposition (getReturnAutoreleaseInfo st) then None
      else if accepts ra
        then Some (True, if disposition then setReturnAutoreleaseInfo (dispositionInfo disposition) st else st)
      else Some (False, st))"

definition acceptOptimizedReturn_code :: "ret_state \<Rightarrow> bool \<times> ret_state" where
  "acceptOptimizedReturn_code st =
     (getReturnDisposition (getReturnAutoreleaseInfo st), setReturnAutoreleaseInfo emptyInfo st)"

lemma accept_after_prepare_code:
  assumes "getReturnAutoreleaseInfo st = emptyInfo"
  shows "\<exists>st'. prepareOptimizedReturn_code accepts ra d st = Some (accepts ra, st') \<and>
    (fst (acceptOptimizedReturn_code st') \<longleftrightarrow> accepts ra \<and> d) \<and>
    getReturnAutoreleaseInfo (snd (acceptOptimizedReturn_code st')) = emptyInfo"
proof -
  have [simp]: "bf_put (0, Suc 0) 1 0 = (1 :: u64)" by (simp add: bf_put_def)
  show ?thesis
    using assms by (auto simp: prepareOptimizedReturn_code_def acceptOptimizedReturn_code_def getReturnDisposition_def
        emptyInfo_def dispositionInfo_def getReturnAutoreleaseInfo_def setReturnAutoreleaseInfo_def bf_get_def)
qed

section \<open>Who owns what\<close>

text \<open>
  The references to an object that somebody owns: all references, without those the pool will
  release and without the one that is in transit in thread local storage.
\<close>

definition in_transit :: "ret_state \<Rightarrow> u64 \<Rightarrow> bool" where
  "in_transit st x \<longleftrightarrow> x \<noteq> 0 \<and> getReturnedObject (getReturnAutoreleaseInfo st) = x"

definition owned :: "ret_state \<Rightarrow> u64 \<Rightarrow> int" where
  "owned st x = refs st x - int (count_list (pool st) x) - of_bool (in_transit st x)"

definition tls_ok :: "ret_env \<Rightarrow> ret_state \<Rightarrow> bool" where
  "tls_ok e st \<longleftrightarrow>
     (let info = getReturnAutoreleaseInfo st; obj = getReturnedObject info in
      \<not> isBlocked info \<and>
      (if obj = 0 then info = emptyInfo else getReturnDisposition info \<and> \<not> is_tagged e obj))"

lemma get_set_info [simp]: "getReturnAutoreleaseInfo (setReturnAutoreleaseInfo info st) = info"
  by (simp add: getReturnAutoreleaseInfo_def setReturnAutoreleaseInfo_def)

lemma set_info_frame [simp]:
  "refs (setReturnAutoreleaseInfo info st) = refs st" "pool (setReturnAutoreleaseInfo info st) = pool st"
  by (simp_all add: setReturnAutoreleaseInfo_def)

lemma emptyInfo_simps [simp]:
  "getReturnedObject emptyInfo = 0" "\<not> isBlocked emptyInfo" "isEmpty emptyInfo"
  by (simp_all add: emptyInfo_def getReturnedObject_def isBlocked_def isEmpty_def bf_get_def)

lemma tls_ok_empty [simp]: "getReturnAutoreleaseInfo st = emptyInfo \<Longrightarrow> tls_ok e st"
  by (simp add: tls_ok_def)

lemma prepare_blocked:
  "prepareOptimizedReturn e ra obj came d (setReturnAutoreleaseInfo blockedInfo st) =
     Some (False, setReturnAutoreleaseInfo blockedInfo st)"
  by (simp add: prepareOptimizedReturn_def isBlocked_def blockedInfo_def)

lemma makeInfo_ok:
  assumes "\<not> is_tagged e obj" "obj \<noteq> 0" "obj AND 15 = 0"
  obtains info where "makeInfo e obj came d ra = Some info" "getReturnedObject info = obj"
    "getReturnDisposition info = d" "\<not> isBlocked info" "returnAddress info = ra"
proof -
  let ?w = "bf_put (2, 62) (drop_bit 2 obj) (bf_put (1, 1) (of_bool came) (bf_put (0, 1) (of_bool d) (0 :: u64)))"
  let ?i = "\<lparr>firstWord = ?w, returnAddress = ra\<rparr>"
  have m: "(15 :: u64) = mask 4" by (simp add: mask_eq_exp_minus_1)
  have z: "\<not> bit obj n" if "n < 4" for n
  proof -
    have "\<not> bit (obj AND mask 4) n" using assms(3) unfolding m by simp
    then show ?thesis using that by (simp add: bit_and_iff bit_mask_iff)
  qed
  have o: "getReturnedObject ?i = obj"
    unfolding getReturnedObject_def
  proof (rule bit_word_eqI)
    fix n assume "n < LENGTH(64)"
    moreover have "Suc (Suc (n - 2)) = n" if "\<not> n < 2" using that by simp
    ultimately show "bit (push_bit 2 (bf_get (2, 62) (firstWord ?i))) n = bit obj n"
      using z [of n] by (cases "n < 2") (simp_all add: bit_push_bit_iff bit_bf_get bit_bf_put bit_drop_bit_eq)
  qed
  have d: "getReturnDisposition ?i = d"
    by (simp add: getReturnDisposition_def bf_get_put_other bf_get_put_same)
  have "\<not> bit ?w 3" using z [of 3] by (simp add: bit_bf_put bit_drop_bit_eq)
  then have "?w \<noteq> - 1" by auto
  then show thesis using that [of ?i] assms(1,2) o d by (simp add: makeInfo_def isBlocked_def)
qed

text \<open>No operation here works on a deallocating object or on a class.\<close>

definition handover_ok :: "ret_env \<Rightarrow> u64 \<Rightarrow> ret_state \<Rightarrow> bool" where
  "handover_ok e obj st \<longleftrightarrow>
     tls_ok e st \<and> (\<forall>x. \<not> no_autorelease e x) \<and> \<not> is_tagged e obj \<and> obj \<noteq> 0 \<and> obj AND 15 = 0"

lemma move_ok:
  assumes "getReturnedObject info \<noteq> 0 \<Longrightarrow> \<not> is_tagged e (getReturnedObject info)" "\<forall>x. \<not> no_autorelease e x"
  obtains st' where "moveTLSAutoreleaseToPool e info st = Some st'" "getReturnAutoreleaseInfo st' = emptyInfo"
    "refs st' = refs st"
    "pool st' = (if getReturnedObject info = 0 then pool st else getReturnedObject info # pool st)"
proof -
  have "\<exists>st'. moveTLSAutoreleaseToPool e info st = Some st' \<and> getReturnAutoreleaseInfo st' = emptyInfo \<and>
    refs st' = refs st \<and>
    pool st' = (if getReturnedObject info = 0 then pool st else getReturnedObject info # pool st)"
    using assms by (auto simp: moveTLSAutoreleaseToPool_def objc_autorelease_with_def rootAutorelease_with_def
        pool_autorelease_def Let_def)
  then show thesis using that by blast
qed

lemma prepare_ok:
  assumes "handover_ok e obj st"
  obtains ok st' where "prepareOptimizedReturn e ra obj came True st = Some (ok, st')"
    "tls_ok e st'" "refs st' = refs st"
    "ok \<Longrightarrow> getReturnedObject (getReturnAutoreleaseInfo st') = obj"
    "\<not> ok \<Longrightarrow> getReturnAutoreleaseInfo st' = emptyInfo \<and> \<not> came"
    "\<And>x. owned st' x = owned st x - of_bool (ok \<and> x = obj)"
proof -
  let ?info = "getReturnAutoreleaseInfo st"
  have nb: "\<not> isBlocked ?info" and t: "getReturnedObject ?info \<noteq> 0 \<Longrightarrow> \<not> is_tagged e (getReturnedObject ?info)"
    and n: "\<forall>x. \<not> no_autorelease e x"
    and obj: "\<not> is_tagged e obj" "obj \<noteq> 0" "obj AND 15 = 0"
    using assms by (auto simp: handover_ok_def tls_ok_def Let_def split: if_splits)
  obtain st1 where st1: "moveTLSAutoreleaseToPool e ?info st = Some st1" "getReturnAutoreleaseInfo st1 = emptyInfo"
    "refs st1 = refs st"
    "pool st1 = (if getReturnedObject ?info = 0 then pool st else getReturnedObject ?info # pool st)"
    by (rule move_ok [OF t n])
  have o1: "owned st1 x = owned st x" for x
    using st1(2-4) by (auto simp: owned_def in_transit_def)
  show thesis
  proof (cases "\<not> came \<and> custom_RR e obj \<and> \<not> callerAccepts_arm64 e ra")
    case True
    show thesis
      by (rule that [of False st1])
        (use True nb st1 o1 obj in \<open>simp_all add: prepareOptimizedReturn_def Let_def\<close>)
  next
    case False
    obtain info where i: "makeInfo e obj came True ra = Some info" "getReturnedObject info = obj"
      "getReturnDisposition info" "\<not> isBlocked info" using makeInfo_ok [OF obj, of came True ra] by metis
    let ?st = "setReturnAutoreleaseInfo info st1"
    have "owned ?st x = owned st x - of_bool (x = obj)" for x
      using o1 [of x] st1(2) i(2) obj(2) by (auto simp: owned_def in_transit_def)
    then show thesis
      by (intro that [of True ?st])
        (use False nb st1 obj i in \<open>simp_all add: prepareOptimizedReturn_def Let_def tls_ok_def\<close>)
  qed
qed

lemma retain_owned:
  assumes "\<not> is_tagged e obj" "obj \<noteq> 0"
  shows "owned (objc_retain e obj st) x = owned st x + of_bool (x = obj)"
    "getReturnAutoreleaseInfo (objc_retain e obj st) = getReturnAutoreleaseInfo st"
  using assms by (auto simp: objc_retain_def owned_def in_transit_def getReturnAutoreleaseInfo_def)

lemma release_owned:
  assumes "\<not> is_tagged e obj" "obj \<noteq> 0"
  shows "owned (objc_release e obj st) x = owned st x - of_bool (x = obj)"
    "getReturnAutoreleaseInfo (objc_release e obj st) = getReturnAutoreleaseInfo st"
  using assms by (auto simp: objc_release_def owned_def in_transit_def getReturnAutoreleaseInfo_def)

text \<open>What is in transit after a callee's entry point is nothing or the returned object.\<close>

definition handed :: "ret_env \<Rightarrow> u64 \<Rightarrow> ret_state \<Rightarrow> bool" where
  "handed e obj st \<longleftrightarrow> handover_ok e obj st \<and>
     getReturnedObject (getReturnAutoreleaseInfo st) \<in> {0, obj}"

lemma autorelease_ok:
  assumes "handover_ok e obj st"
  obtains st' where "objc_autorelease e ra obj st = Some st'" "handed e obj st'"
    "\<And>x. owned st' x = owned st x - of_bool (x = obj)"
proof -
  obtain ok st1 where p: "prepareOptimizedReturn e ra obj True True st = Some (ok, st1)"
    "tls_ok e st1" "ok \<Longrightarrow> getReturnedObject (getReturnAutoreleaseInfo st1) = obj" "\<not> ok \<Longrightarrow> False"
    "\<And>x. owned st1 x = owned st x - of_bool (ok \<and> x = obj)"
    using prepare_ok [OF assms, of ra True] by metis
  then have ok by blast
  with p assms show thesis
    by (intro that [of st1])
      (auto simp: objc_autorelease_def objc_autorelease_with_def rootAutorelease_with_def handover_ok_def handed_def)
qed

lemma autoreleaseReturnValue_ok:
  assumes "handover_ok e obj st"
  obtains st' where "objc_autoreleaseReturnValue e ra obj st = Some st'" "handed e obj st'"
    "\<And>x. owned st' x = owned st x - of_bool (x = obj)"
proof -
  obtain ok st1 where p: "prepareOptimizedReturn e ra obj False True st = Some (ok, st1)"
    "tls_ok e st1" "ok \<Longrightarrow> getReturnedObject (getReturnAutoreleaseInfo st1) = obj"
    "\<And>x. owned st1 x = owned st x - of_bool (ok \<and> x = obj)"
    using prepare_ok [OF assms, of ra False] by metis
  have h: "handover_ok e obj st1" using assms p(2) by (simp add: handover_ok_def)
  show thesis
  proof (cases ok)
    case True
    then show thesis using p h by (intro that [of st1]) (simp_all add: objc_autoreleaseReturnValue_def handed_def)
  next
    case False
    obtain st' where "objc_autorelease e ra obj st1 = Some st'" "handed e obj st'"
      "\<And>x. owned st' x = owned st1 x - of_bool (x = obj)" using autorelease_ok [OF h, of ra] by metis
    then show thesis using False p by (intro that [of st']) (simp_all add: objc_autoreleaseReturnValue_def)
  qed
qed

lemma accept_ok:
  assumes "handed e obj st"
  obtains b st' where "acceptOptimizedReturn e ra nop st = Some (b, st')"
    "getReturnAutoreleaseInfo st' = emptyInfo" "\<And>x. owned st' x = owned st x + of_bool (b \<and> x = obj)"
proof -
  let ?info = "getReturnAutoreleaseInfo st"
  let ?st = "setReturnAutoreleaseInfo emptyInfo st"
  have h: "tls_ok e st" "\<forall>x. \<not> no_autorelease e x" "obj \<noteq> 0" "\<not> is_tagged e obj"
    using assms by (simp_all add: handed_def handover_ok_def)
  consider "?info = emptyInfo" | "getReturnedObject ?info = obj" "getReturnDisposition ?info" "\<not> isBlocked ?info"
    using assms by (auto simp: handed_def handover_ok_def tls_ok_def Let_def split: if_splits)
  then show thesis
  proof cases
    case 1
    then show thesis by (intro that [of False st]) (simp_all add: acceptOptimizedReturn_def)
  next
    case 2
    have ne: "\<not> isEmpty ?info" using 2 h(3) by (auto simp: isEmpty_def getReturnedObject_def)
    obtain st2 where m: "moveTLSAutoreleaseToPool e ?info ?st = Some st2" "getReturnAutoreleaseInfo st2 = emptyInfo"
      "refs st2 = refs ?st" "pool st2 = (if getReturnedObject ?info = 0 then pool ?st else getReturnedObject ?info # pool ?st)"
      using move_ok [of ?info e ?st] h(2,4) 2(1) by metis
    have o1: "owned ?st x = owned st x + of_bool (x = obj)" for x
      using 2(1) h(3) by (auto simp: owned_def in_transit_def)
    have o2: "owned st2 x = owned st x" for x
      using 2(1) h(3) m(2-4) by (auto simp: owned_def in_transit_def)
    show thesis
    proof (cases "ra - returnAddress ?info = (if nop then 8 else 4) \<or> nop \<and> callerAccepts_arm64 e (returnAddress ?info)")
      case True
      then show thesis using ne 2(2) o1
        by (intro that [of True ?st]) (auto simp: acceptOptimizedReturn_def Let_def)
    next
      case False
      then show thesis using ne 2(2) o2 m(1,2)
        by (intro that [of False st2]) (auto simp: acceptOptimizedReturn_def Let_def)
    qed
  qed
qed

section \<open>Properties\<close>

text \<open>
  C37: Returning an object never leaks or over-releases it. Let a callee return an object it owns
  with \<open>objc_autoreleaseReturnValue\<close>, or one it does not own with
  \<open>objc_retainAutoreleaseReturnValue\<close>, and let the caller accept it for its own use with
  \<open>objc_retainAutoreleasedReturnValue\<close> or \<open>objc_claimAutoreleasedReturnValue\<close>, or without owning
  it with \<open>objc_unsafeClaimAutoreleasedReturnValue\<close>. For all return addresses and all code at
  them, so whether or not the two recognise each other, nothing aborts; the first
  pair passes one reference from the callee to the caller, the retaining callee adds one, the
  unsafe claim takes one away; every other object, also one left in transit before,
  keeps its references, and nothing stays in transit.
\<close>

theorem return_handover_balanced:
  assumes "handover_ok e obj st"
  shows "\<exists>s1 s2 s3 s4 s5.
    objc_autoreleaseReturnValue e ra1 obj st = Some s1 \<and>
    objc_retainAutoreleasedReturnValue e ra2 obj s1 = Some s2 \<and>
    objc_claimAutoreleasedReturnValue e ra2 obj s1 = Some s3 \<and>
    objc_unsafeClaimAutoreleasedReturnValue e ra2 obj s1 = Some s4 \<and>
    (\<forall>x. owned s2 x = owned st x \<and> owned s3 x = owned st x \<and> owned s4 x = owned st x - of_bool (x = obj)) \<and>
    (\<forall>s\<in>{s2, s3, s4}. getReturnAutoreleaseInfo s = emptyInfo) \<and>
    objc_retainAutoreleaseReturnValue e ra1 obj st = Some s5 \<and> (\<forall>x. owned s5 x = owned st x)"
proof -
  have o: "\<not> is_tagged e obj" "obj \<noteq> 0" using assms by (simp_all add: handover_ok_def)
  obtain s1 where s1: "objc_autoreleaseReturnValue e ra1 obj st = Some s1" "handed e obj s1"
    "\<And>x. owned s1 x = owned st x - of_bool (x = obj)" using autoreleaseReturnValue_ok [OF assms, of ra1] by metis
  obtain b t where t: "acceptOptimizedReturn e ra2 True s1 = Some (b, t)"
    "getReturnAutoreleaseInfo t = emptyInfo" "\<And>x. owned t x = owned s1 x + of_bool (b \<and> x = obj)"
    using accept_ok [OF s1(2), of ra2 True] by metis
  obtain b' t' where t': "acceptOptimizedReturn e ra2 False s1 = Some (b', t')"
    "getReturnAutoreleaseInfo t' = emptyInfo" "\<And>x. owned t' x = owned s1 x + of_bool (b' \<and> x = obj)"
    using accept_ok [OF s1(2), of ra2 False] by metis
  obtain ok u where u: "prepareOptimizedReturn e ra1 obj False True st = Some (ok, u)"
    "tls_ok e u" "\<And>x. owned u x = owned st x - of_bool (ok \<and> x = obj)"
    using prepare_ok [OF assms, of ra1 False] by metis
  have hu: "handover_ok e obj (objc_retain e obj u)"
    using assms u(2) by (simp add: handover_ok_def tls_ok_def retain_owned(2) [OF o])
  obtain u' where u': "objc_autorelease e ra1 obj (objc_retain e obj u) = Some u'"
    "\<And>x. owned u' x = owned (objc_retain e obj u) x - of_bool (x = obj)" using autorelease_ok [OF hu, of ra1] by metis
  show ?thesis
    by (intro exI [of _ s1] exI [of _ "if b then t else objc_retain e obj t"] exI [of _ "if b' then t' else objc_retain e obj t'"]
        exI [of _ "if b then objc_release e obj t else t"] exI [of _ "if ok then objc_retain e obj u else u'"])
      (use s1 t t' u u' in \<open>simp add: objc_retainAutoreleasedReturnValue_def objc_claimAutoreleasedReturnValue_def
         objc_unsafeClaimAutoreleasedReturnValue_def objc_retainAutoreleaseReturnValue_def retain_owned [OF o] release_owned [OF o]\<close>)
qed

definition sample_env :: ret_env where
  "sample_env = \<lparr>is_tagged = (\<lambda>p. bit p 63), custom_RR = (\<lambda>_. False), no_autorelease = (\<lambda>_. False), code_byte = (\<lambda>_. 0)\<rparr>"

definition sample_ret :: ret_state where
  "sample_ret = \<lparr>tlsFirstWord = 0, tlsReturnAddress = 0, refs = (\<lambda>_. 1), pool = []\<rparr>"

theorem return_handover_balanced_witness:
  "\<exists>s1 s2. objc_autoreleaseReturnValue sample_env 0x4000 0x1000 sample_ret = Some s1 \<and>
     objc_retainAutoreleasedReturnValue sample_env 0x4008 0x1000 s1 = Some s2 \<and>
     owned s2 0x1000 = owned sample_ret 0x1000"
proof -
  have "getReturnAutoreleaseInfo sample_ret = emptyInfo"
    by (simp add: getReturnAutoreleaseInfo_def sample_ret_def emptyInfo_def)
  then have "handover_ok sample_env 0x1000 sample_ret" by (simp add: handover_ok_def sample_env_def)
  then show ?thesis using return_handover_balanced [of sample_env "0x1000" sample_ret "0x4000" "0x4008"] by blast
qed

end
