(* ===== verification/DenseMapInfo.thy ===== *)
theory DenseMapInfo
  imports Utilities
begin

text \<open>
  What a hash table has to know of its keys (\<^verbatim>\<open>runtime/llvm-DenseMapInfo.h\<close>): two marker
  keys that no entry uses, a 32-bit hash and an equality. A specialisation of the
  template \<open>DenseMapInfo\<close> is a value of the record \<open>key_info\<close>. The law the tables rely
  on is \<open>lawful_key\<close>: the equality is equality of keys and the two markers differ. It holds
  of every specialisation for numbers and pointers and is kept by the one for pairs. For C
  strings the equality is that of the bytes, away from the markers.
\<close>

record 'k key_info =
  getEmptyKey :: 'k
  getTombstoneKey :: 'k
  getHashValue :: "'k \<Rightarrow> u32"
  isEqual :: "'k \<Rightarrow> 'k \<Rightarrow> bool"

definition info_ptr :: "u64 key_info" where
  "info_ptr = \<lparr>getEmptyKey = -1, getTombstoneKey = -2, getHashValue = ptr_hash, isEqual = (=)\<rparr>"

text \<open>A disguised pointer is stored as the negated address, and hashed as the address.\<close>

definition info_DisguisedPtr :: "u64 key_info" where
  "info_DisguisedPtr =
     \<lparr>getEmptyKey = disguise (-1), getTombstoneKey = disguise (-2),
      getHashValue = (\<lambda>p. ptr_hash (undisguise p)), isEqual = (=)\<rparr>"

text \<open>C strings: the key is the address and \<open>bytes_at\<close> gives the bytes before the terminator.\<close>

definition cstring_isEqual :: "(u64 \<Rightarrow> u8 list) \<Rightarrow> u64 \<Rightarrow> u64 \<Rightarrow> bool" where
  "cstring_isEqual bytes_at LHS RHS =
     (if LHS = RHS then True
      else if LHS = -1 \<or> RHS = -1 then False
      else if LHS = -2 \<or> RHS = -2 then False
      else bytes_at LHS = bytes_at RHS)"

definition info_cstring :: "(u64 \<Rightarrow> u8 list) \<Rightarrow> u64 key_info" where
  "info_cstring bytes_at =
     \<lparr>getEmptyKey = -1, getTombstoneKey = -2, getHashValue = (\<lambda>p. objc_strhash (bytes_at p)),
      isEqual = cstring_isEqual bytes_at\<rparr>"

text \<open>\<open>char\<close> is signed, and is promoted with its sign before the multiplication.\<close>

definition info_char :: "u8 key_info" where
  "info_char =
     \<lparr>getEmptyKey = NOT 0, getTombstoneKey = NOT 0 - 1,
      getHashValue = (\<lambda>v. scast v * 37), isEqual = (=)\<rparr>"

definition info_unsigned :: "u32 key_info" where
  "info_unsigned =
     \<lparr>getEmptyKey = NOT 0, getTombstoneKey = NOT 0 - 1, getHashValue = (\<lambda>v. v * 37), isEqual = (=)\<rparr>"

definition info_unsigned_long :: "u64 key_info" where
  "info_unsigned_long =
     \<lparr>getEmptyKey = NOT 0, getTombstoneKey = NOT 0 - 1, getHashValue = (\<lambda>v. ucast (v * 37)), isEqual = (=)\<rparr>"

definition info_unsigned_long_long :: "u64 key_info" where
  "info_unsigned_long_long =
     \<lparr>getEmptyKey = NOT 0, getTombstoneKey = NOT 0 - 1, getHashValue = (\<lambda>v. ucast (v * 37)), isEqual = (=)\<rparr>"

definition info_int :: "u32 key_info" where
  "info_int =
     \<lparr>getEmptyKey = 0x7fffffff, getTombstoneKey = - 0x7fffffff - 1, getHashValue = (\<lambda>v. v * 37), isEqual = (=)\<rparr>"

definition info_long :: "u64 key_info" where
  "info_long =
     \<lparr>getEmptyKey = push_bit 63 1 - 1, getTombstoneKey = push_bit 63 1 - 1 - 1,
      getHashValue = (\<lambda>v. ucast (v * 37)), isEqual = (=)\<rparr>"

definition info_long_long :: "u64 key_info" where
  "info_long_long =
     \<lparr>getEmptyKey = 0x7fffffffffffffff, getTombstoneKey = - 0x7fffffffffffffff - 1,
      getHashValue = (\<lambda>v. ucast (v * 37)), isEqual = (=)\<rparr>"

definition pair_hash :: "u32 \<Rightarrow> u32 \<Rightarrow> u32" where
  "pair_hash h1 h2 =
     (let key = push_bit 32 (ucast h1 :: u64) OR ucast h2;
          key = key + NOT (push_bit 32 key);
          key = key XOR drop_bit 22 key;
          key = key + NOT (push_bit 13 key);
          key = key XOR drop_bit 8 key;
          key = key + push_bit 3 key;
          key = key XOR drop_bit 15 key;
          key = key + NOT (push_bit 27 key);
          key = key XOR drop_bit 31 key in
      ucast key)"

definition info_pair :: "'a key_info \<Rightarrow> 'b key_info \<Rightarrow> ('a \<times> 'b) key_info" where
  "info_pair A B =
     \<lparr>getEmptyKey = (getEmptyKey A, getEmptyKey B), getTombstoneKey = (getTombstoneKey A, getTombstoneKey B),
      getHashValue = (\<lambda>p. pair_hash (getHashValue A (fst p)) (getHashValue B (snd p))),
      isEqual = (\<lambda>p q. isEqual A (fst p) (fst q) \<and> isEqual B (snd p) (snd q))\<rparr>"

definition lawful_key :: "('k, 'z) key_info_scheme \<Rightarrow> bool" where
  "lawful_key I \<longleftrightarrow> isEqual I = (=) \<and> getEmptyKey I \<noteq> getTombstoneKey I"



text \<open>
  Two keys of a table of C strings that are not the markers are equal for the table just
  when the bytes at the two addresses are, and then they have the same hash.
\<close>

lemma cstring_keys:
  assumes "p \<notin> {-1, -2}" "q \<notin> {-1, -2}"
  shows "(isEqual (info_cstring bytes_at) p q \<longleftrightarrow> bytes_at p = bytes_at q) \<and>
    (isEqual (info_cstring bytes_at) p q \<longrightarrow>
       getHashValue (info_cstring bytes_at) p = getHashValue (info_cstring bytes_at) q)"
  using assms by (auto simp: info_cstring_def cstring_isEqual_def)

end
