(* ===== verification/DenseMap.thy ===== *)
theory DenseMap
  imports DenseMapInfo SideTable
begin

text \<open>
  The hash tables of the runtime (\<^verbatim>\<open>runtime/llvm-DenseMap.h\<close>): \<open>DenseMapBase\<close>, the two
  classes derived from it and their iterator. A table is an array of buckets, each a key
  with a value, probed quadratically; \<open>table\<close> is the part of the state the base class reads
  through its derived class, and \<open>SmallDenseMap\<close> adds its discriminating bit. A bucket is
  named by its index and an iterator by its position and its end.

  The base class calls \<open>grow\<close>, \<open>shrink_and_clear\<close> and \<open>setNumEntries\<close> of the derived class:
  its operations take them in the record \<open>derived\<close>. The template parameters are the fields
  of \<open>map_info\<close>: the keys (as \<open>key_info\<close>), when a value may be purged, the value of
  \<open>ValueT()\<close>, and \<open>raw_mem\<close>, what the allocator hands out for a size in bytes, whose contents
  are arbitrary. Destructors of keys and values have no effect on the table and are left out.
  \<open>None\<close> is an abort: a failed assertion, a corrupt table or a failed allocation.
\<close>

section \<open>State\<close>

record ('k, 'v) map_info = "'k key_info" +
  isPurgeable :: "'v \<Rightarrow> bool"
  default_value :: 'v
  trivially_copyable :: bool
  sizeof_BucketT :: u64
  raw_mem :: "u64 \<Rightarrow> ('k \<times> 'v) list"

record ('k, 'v) table =
  Buckets :: "('k \<times> 'v) list"
  NumEntries :: u32
  NumTombstones :: u32
  NumBuckets :: u32

type_synonym ('k, 'v, 'z) entry_setter =
  "u32 \<Rightarrow> ('k, 'v, 'z) table_scheme \<Rightarrow> ('k, 'v, 'z) table_scheme option"

record ('k, 'v, 'z) derived =
  grow :: "u32 \<Rightarrow> ('k, 'v, 'z) table_scheme \<Rightarrow> ('k, 'v, 'z) table_scheme option"
  shrink_and_clear :: "('k, 'v, 'z) table_scheme \<Rightarrow> ('k, 'v, 'z) table_scheme option"
  setNumEntries :: "u32 \<Rightarrow> ('k, 'v, 'z) table_scheme \<Rightarrow> ('k, 'v, 'z) table_scheme option"

abbreviation (input) MIN_BUCKETS :: u32 where "MIN_BUCKETS \<equiv> 4"
abbreviation (input) MIN_COMPACT :: u32 where "MIN_COMPACT \<equiv> 1024"

definition is_live :: "('k, 'y) key_info_scheme \<Rightarrow> 'k \<Rightarrow> bool" where
  "is_live I k \<longleftrightarrow> \<not> isEqual I k (getEmptyKey I) \<and> \<not> isEqual I k (getTombstoneKey I)"

section \<open>Iterators\<close>

type_synonym iter = "nat \<times> nat"

function AdvancePastEmptyBuckets :: "('k, 'y) key_info_scheme \<Rightarrow> ('k \<times> 'v) list \<Rightarrow> nat \<Rightarrow> nat \<Rightarrow> iter option" where
  "AdvancePastEmptyBuckets I bs Ptr End =
     (if Ptr > End then None
      else if Ptr \<noteq> End \<and> \<not> is_live I (fst (bs ! Ptr)) then AdvancePastEmptyBuckets I bs (Suc Ptr) End
      else Some (Ptr, End))"
  by pat_completeness auto
termination by (relation "measure (\<lambda>(I, bs, Ptr, End). End - Ptr)") auto

function RetreatPastEmptyBuckets :: "('k, 'y) key_info_scheme \<Rightarrow> ('k \<times> 'v) list \<Rightarrow> nat \<Rightarrow> nat \<Rightarrow> iter option" where
  "RetreatPastEmptyBuckets I bs Ptr End =
     (if Ptr < End then None
      else if Ptr \<noteq> End \<and> \<not> is_live I (fst (bs ! (Ptr - 1))) then RetreatPastEmptyBuckets I bs (Ptr - 1) End
      else Some (Ptr, End))"
  by pat_completeness auto
termination by (relation "measure (\<lambda>(I, bs, Ptr, End). Ptr - End)") auto

declare AdvancePastEmptyBuckets.simps [simp del] RetreatPastEmptyBuckets.simps [simp del]

definition makeIterator ::
  "('k, 'y) key_info_scheme \<Rightarrow> ('k, 'v, 'z) table_scheme \<Rightarrow> nat \<Rightarrow> nat \<Rightarrow> bool \<Rightarrow> iter option" where
  "makeIterator I t P E NoAdvance = (if NoAdvance then Some (P, E) else AdvancePastEmptyBuckets I (Buckets t) P E)"

definition iter_next :: "('k, 'y) key_info_scheme \<Rightarrow> ('k, 'v, 'z) table_scheme \<Rightarrow> iter \<Rightarrow> iter option" where
  "iter_next I t it = AdvancePastEmptyBuckets I (Buckets t) (Suc (fst it)) (snd it)"

definition iter_deref :: "('k, 'v, 'z) table_scheme \<Rightarrow> iter \<Rightarrow> 'k \<times> 'v" where
  "iter_deref t it = Buckets t ! fst it"

definition iter_eq :: "iter \<Rightarrow> iter \<Rightarrow> bool" where
  "iter_eq a b \<longleftrightarrow> fst a = fst b"

definition dm_empty :: "('k, 'v, 'z) table_scheme \<Rightarrow> bool" where
  "dm_empty t \<longleftrightarrow> NumEntries t = 0"

definition dm_size :: "('k, 'v, 'z) table_scheme \<Rightarrow> u32" where
  "dm_size t = NumEntries t"

definition dm_end :: "('k, 'v, 'z) table_scheme \<Rightarrow> iter" where
  "dm_end t = (unat (NumBuckets t), unat (NumBuckets t))"

definition dm_begin :: "('k, 'y) key_info_scheme \<Rightarrow> ('k, 'v, 'z) table_scheme \<Rightarrow> iter option" where
  "dm_begin I t = (if dm_empty t then Some (dm_end t) else makeIterator I t 0 (unat (NumBuckets t)) False)"

text \<open>The entries a range-based \<open>for\<close> visits, in its order.\<close>

function dm_entries_from ::
  "('k, 'y) key_info_scheme \<Rightarrow> ('k, 'v, 'z) table_scheme \<Rightarrow> nat \<Rightarrow> nat \<Rightarrow> ('k \<times> 'v) list option" where
  "dm_entries_from I t P E =
     (if P \<ge> E then Some []
      else do {
        (P', E') \<leftarrow> iter_next I t (P, E);
        rest \<leftarrow> (if P < P' then dm_entries_from I t P' E else None);
        Some (iter_deref t (P, E) # rest)
      })"
  by pat_completeness auto
termination by (relation "measure (\<lambda>(I, t, P, E). E - P)") auto

declare dm_entries_from.simps [simp del]

definition dm_entries :: "('k, 'y) key_info_scheme \<Rightarrow> ('k, 'v, 'z) table_scheme \<Rightarrow> ('k \<times> 'v) list option" where
  "dm_entries I t = do { (P, E) \<leftarrow> dm_begin I t; dm_entries_from I t P E }"

section \<open>Probing\<close>

text \<open>
  The probe amount is a natural number: it stays at most one above \<open>NumBuckets\<close>, so it fits
  the \<open>unsigned\<close> of the code for every number of buckets that is a power of two.
\<close>

function lookup_loop ::
  "('k, 'v, 'y) map_info_scheme \<Rightarrow> ('k \<times> 'v) list \<Rightarrow> u32 \<Rightarrow> 'k \<Rightarrow> u32 \<Rightarrow> nat \<Rightarrow> nat option \<Rightarrow>
   (bool \<times> nat option) option" where
  "lookup_loop I bs N Val BucketNo ProbeAmt FoundTombstone =
     (let ThisBucket = bs ! unat BucketNo in
      if isEqual I Val (fst ThisBucket) then Some (True, Some (unat BucketNo))
      else if isEqual I (fst ThisBucket) (getEmptyKey I) then
        Some (False, Some (case FoundTombstone of Some b \<Rightarrow> b | None \<Rightarrow> unat BucketNo))
      else
        let ft1 = (if isEqual I (fst ThisBucket) (getTombstoneKey I) \<and> FoundTombstone = None
                   then Some (unat BucketNo) else FoundTombstone);
            ft2 = (if isPurgeable I (snd ThisBucket) \<and> ft1 = None then Some (unat BucketNo) else ft1) in
        if ProbeAmt > unat N then None
        else lookup_loop I bs N Val ((BucketNo + of_nat ProbeAmt) AND (N - 1)) (Suc ProbeAmt) ft2)"
  by pat_completeness auto
termination by (relation "measure (\<lambda>(I, bs, N, Val, no, amt, ft). Suc (unat N) - amt)") auto

declare lookup_loop.simps [simp del]

definition LookupBucketFor ::
  "('k, 'v, 'y) map_info_scheme \<Rightarrow> ('k, 'v, 'z) table_scheme \<Rightarrow> 'k \<Rightarrow> (bool \<times> nat option) option" where
  "LookupBucketFor I t Val =
     (if NumBuckets t = 0 then Some (False, None)
      else do {
        assert_opt (\<not> isEqual I Val (getEmptyKey I) \<and> \<not> isEqual I Val (getTombstoneKey I));
        lookup_loop I (Buckets t) (NumBuckets t) Val (getHashValue I Val AND (NumBuckets t - 1)) 1 None
      })"

section \<open>Operations of the base class\<close>

definition getMinBucketToReserveForEntries :: "u32 \<Rightarrow> u32" where
  "getMinBucketToReserveForEntries n = (if n = 0 then 0 else ucast (NextPowerOf2 (ucast (n * 4 div 3 + 1))))"

definition initEmpty ::
  "('k, 'v, 'z) entry_setter \<Rightarrow> ('k, 'v, 'y) map_info_scheme \<Rightarrow> ('k, 'v, 'z) table_scheme \<Rightarrow>
   ('k, 'v, 'z) table_scheme option" where
  "initEmpty sne I t = do {
     t \<leftarrow> sne 0 t;
     let t = t\<lparr>NumTombstones := 0\<rparr>;
     assert_opt (NumBuckets t AND (NumBuckets t - 1) = 0);
     Some (t\<lparr>Buckets := map (\<lambda>b. (getEmptyKey I, snd b)) (Buckets t)\<rparr>)
   }"

fun move_loop ::
  "('k, 'v, 'z) entry_setter \<Rightarrow> ('k, 'v, 'y) map_info_scheme \<Rightarrow> ('k \<times> 'v) list \<Rightarrow> ('k, 'v, 'z) table_scheme \<Rightarrow>
   ('k, 'v, 'z) table_scheme option" where
  "move_loop sne I [] t = Some t"
| "move_loop sne I (B # old) t =
     (if isPurgeable I (snd B) then move_loop sne I old t
      else if is_live I (fst B) then do {
        (FoundVal, DestBucket) \<leftarrow> LookupBucketFor I t (fst B);
        assert_opt (\<not> FoundVal);
        i \<leftarrow> DestBucket;
        t \<leftarrow> sne (NumEntries t + 1) (t\<lparr>Buckets := (Buckets t)[i := B]\<rparr>);
        move_loop sne I old t
      }
      else move_loop sne I old t)"

definition moveFromOldBuckets ::
  "('k, 'v, 'z) entry_setter \<Rightarrow> ('k, 'v, 'y) map_info_scheme \<Rightarrow> ('k \<times> 'v) list \<Rightarrow> ('k, 'v, 'z) table_scheme \<Rightarrow>
   ('k, 'v, 'z) table_scheme option" where
  "moveFromOldBuckets sne I old t = do { t \<leftarrow> initEmpty sne I t; move_loop sne I old t }"

definition copyFrom_base ::
  "('k, 'v, 'z) entry_setter \<Rightarrow> ('k, 'v, 'y) map_info_scheme \<Rightarrow> ('k, 'v, 'z) table_scheme \<Rightarrow>
   ('k, 'v, 'z) table_scheme \<Rightarrow> ('k, 'v, 'z) table_scheme option" where
  "copyFrom_base sne I other t = do {
     assert_opt (NumBuckets t = NumBuckets other);
     t \<leftarrow> sne (NumEntries other) t;
     let t = t\<lparr>NumTombstones := NumTombstones other\<rparr>;
     Some (t\<lparr>Buckets :=
       (if trivially_copyable I then Buckets other
        else map2 (\<lambda>b ob. (fst ob, if is_live I (fst ob) then snd ob else snd b)) (Buckets t) (Buckets other))\<rparr>)
   }"

definition reserve ::
  "('k, 'v, 'z) derived \<Rightarrow> u32 \<Rightarrow> ('k, 'v, 'z) table_scheme \<Rightarrow> ('k, 'v, 'z) table_scheme option" where
  "reserve D n t =
     (let nb = getMinBucketToReserveForEntries n in
      if nb > NumBuckets t then grow D nb t else Some t)"

definition clear ::
  "('k, 'v, 'z) derived \<Rightarrow> ('k, 'v, 'y) map_info_scheme \<Rightarrow> ('k, 'v, 'z) table_scheme \<Rightarrow>
   ('k, 'v, 'z) table_scheme option" where
  "clear D I t =
     (if NumEntries t = 0 \<and> NumTombstones t = 0 then Some t
      else if NumEntries t * 4 < NumBuckets t \<and> NumBuckets t > MIN_BUCKETS then shrink_and_clear D t
      else do {
        assert_opt (trivially_copyable I \<or>
          NumEntries t - of_nat (length (filter (\<lambda>b. is_live I (fst b)) (Buckets t))) = 0);
        let t = t\<lparr>Buckets := map (\<lambda>b. (getEmptyKey I, snd b)) (Buckets t)\<rparr>;
        t \<leftarrow> setNumEntries D 0 t;
        Some (t\<lparr>NumTombstones := 0\<rparr>)
      })"

definition dm_count ::
  "('k, 'v, 'y) map_info_scheme \<Rightarrow> ('k, 'v, 'z) table_scheme \<Rightarrow> 'k \<Rightarrow> u32 option" where
  "dm_count I t Val = do { (found, b) \<leftarrow> LookupBucketFor I t Val; Some (if found then 1 else 0) }"

definition dm_find ::
  "('k, 'v, 'y) map_info_scheme \<Rightarrow> ('k, 'v, 'z) table_scheme \<Rightarrow> 'k \<Rightarrow> iter option" where
  "dm_find I t Val = do {
     (found, b) \<leftarrow> LookupBucketFor I t Val;
     if found then do { i \<leftarrow> b; makeIterator I t i (unat (NumBuckets t)) True } else Some (dm_end t)
   }"

definition lookup ::
  "('k, 'v, 'y) map_info_scheme \<Rightarrow> ('k, 'v, 'z) table_scheme \<Rightarrow> 'k \<Rightarrow> 'v option" where
  "lookup I t Val = do {
     (found, b) \<leftarrow> LookupBucketFor I t Val;
     if found then do { i \<leftarrow> b; Some (snd (Buckets t ! i)) } else Some (default_value I)
   }"

text \<open>
  \<open>InsertIntoBucketImpl\<close> in two steps: growing the table when it is too full, and counting
  the bucket that is about to be filled.
\<close>

definition room_for ::
  "('k, 'v, 'z) derived \<Rightarrow> ('k, 'v, 'y) map_info_scheme \<Rightarrow> 'k \<Rightarrow> nat option \<Rightarrow> ('k, 'v, 'z) table_scheme \<Rightarrow>
   (nat option \<times> ('k, 'v, 'z) table_scheme) option" where
  "room_for D I Lookup TheBucket t =
     (if (NumEntries t + 1) * 4 \<ge> NumBuckets t * 3 then do {
        t \<leftarrow> grow D (NumBuckets t * 2) t;
        (found, b) \<leftarrow> LookupBucketFor I t Lookup;
        Some (b, t)
      }
      else if NumBuckets t - (NumEntries t + 1 + NumTombstones t) \<le> NumBuckets t div 8 then do {
        t \<leftarrow> grow D (NumBuckets t) t;
        (found, b) \<leftarrow> LookupBucketFor I t Lookup;
        Some (b, t)
      }
      else Some (TheBucket, t))"

definition count_bucket ::
  "('k, 'v, 'z) derived \<Rightarrow> ('k, 'v, 'y) map_info_scheme \<Rightarrow> nat \<Rightarrow> ('k, 'v, 'z) table_scheme \<Rightarrow>
   ('k, 'v, 'z) table_scheme option" where
  "count_bucket D I i t =
     (if isEqual I (fst (Buckets t ! i)) (getEmptyKey I) then setNumEntries D (NumEntries t + 1) t
      else if isEqual I (fst (Buckets t ! i)) (getTombstoneKey I) then do {
        t \<leftarrow> setNumEntries D (NumEntries t + 1) t;
        Some (t\<lparr>NumTombstones := NumTombstones t - 1\<rparr>)
      }
      else do { assert_opt (isPurgeable I (snd (Buckets t ! i))); Some t })"

definition InsertIntoBucketImpl ::
  "('k, 'v, 'z) derived \<Rightarrow> ('k, 'v, 'y) map_info_scheme \<Rightarrow> 'k \<Rightarrow> nat option \<Rightarrow> ('k, 'v, 'z) table_scheme \<Rightarrow>
   (nat \<times> ('k, 'v, 'z) table_scheme) option" where
  "InsertIntoBucketImpl D I Lookup TheBucket t = do {
     (TheBucket, t) \<leftarrow> room_for D I Lookup TheBucket t;
     i \<leftarrow> TheBucket;
     t \<leftarrow> count_bucket D I i t;
     Some (i, t)
   }"

definition InsertIntoBucket ::
  "('k, 'v, 'z) derived \<Rightarrow> ('k, 'v, 'y) map_info_scheme \<Rightarrow> nat option \<Rightarrow> 'k \<Rightarrow> 'v \<Rightarrow> ('k, 'v, 'z) table_scheme \<Rightarrow>
   (nat \<times> ('k, 'v, 'z) table_scheme) option" where
  "InsertIntoBucket D I TheBucket Key v t = do {
     (i, t) \<leftarrow> InsertIntoBucketImpl D I Key TheBucket t;
     Some (i, t\<lparr>Buckets := (Buckets t)[i := (Key, v)]\<rparr>)
   }"

definition try_emplace ::
  "('k, 'v, 'z) derived \<Rightarrow> ('k, 'v, 'y) map_info_scheme \<Rightarrow> 'k \<Rightarrow> 'v \<Rightarrow> ('k, 'v, 'z) table_scheme \<Rightarrow>
   ((iter \<times> bool) \<times> ('k, 'v, 'z) table_scheme) option" where
  "try_emplace D I Key v t = do {
     (found, b) \<leftarrow> LookupBucketFor I t Key;
     if found then do {
       i \<leftarrow> b;
       it \<leftarrow> makeIterator I t i (unat (NumBuckets t)) True;
       Some ((it, False), t)
     }
     else do {
       (i, t) \<leftarrow> InsertIntoBucket D I b Key v t;
       it \<leftarrow> makeIterator I t i (unat (NumBuckets t)) True;
       Some ((it, True), t)
     }
   }"

definition dm_insert ::
  "('k, 'v, 'z) derived \<Rightarrow> ('k, 'v, 'y) map_info_scheme \<Rightarrow> 'k \<times> 'v \<Rightarrow> ('k, 'v, 'z) table_scheme \<Rightarrow>
   ((iter \<times> bool) \<times> ('k, 'v, 'z) table_scheme) option" where
  "dm_insert D I KV t = try_emplace D I (fst KV) (snd KV) t"

fun insert_range ::
  "('k, 'v, 'z) derived \<Rightarrow> ('k, 'v, 'y) map_info_scheme \<Rightarrow> ('k \<times> 'v) list \<Rightarrow> ('k, 'v, 'z) table_scheme \<Rightarrow>
   ('k, 'v, 'z) table_scheme option" where
  "insert_range D I [] t = Some t"
| "insert_range D I (kv # kvs) t = do { (r, t) \<leftarrow> dm_insert D I kv t; insert_range D I kvs t }"

definition dm_compact ::
  "('k, 'v, 'z) derived \<Rightarrow> ('k, 'v, 'z) table_scheme \<Rightarrow> ('k, 'v, 'z) table_scheme option" where
  "dm_compact D t =
     (if NumEntries t = 0 then shrink_and_clear D t
      else if NumBuckets t div 16 > NumEntries t \<and> NumBuckets t > MIN_COMPACT then grow D (NumEntries t * 2) t
      else Some t)"

definition erase_bucket ::
  "('k, 'v, 'z) derived \<Rightarrow> ('k, 'v, 'y) map_info_scheme \<Rightarrow> nat \<Rightarrow> ('k, 'v, 'z) table_scheme \<Rightarrow>
   ('k, 'v, 'z) table_scheme option" where
  "erase_bucket D I i t = do {
     let t = t\<lparr>Buckets := (Buckets t)[i := (getTombstoneKey I, snd (Buckets t ! i))]\<rparr>;
     t \<leftarrow> setNumEntries D (NumEntries t - 1) t;
     let t = t\<lparr>NumTombstones := NumTombstones t + 1\<rparr>;
     dm_compact D t
   }"

definition dm_erase ::
  "('k, 'v, 'z) derived \<Rightarrow> ('k, 'v, 'y) map_info_scheme \<Rightarrow> 'k \<Rightarrow> ('k, 'v, 'z) table_scheme \<Rightarrow>
   (bool \<times> ('k, 'v, 'z) table_scheme) option" where
  "dm_erase D I Val t = do {
     (found, b) \<leftarrow> LookupBucketFor I t Val;
     if \<not> found then Some (False, t)
     else do { i \<leftarrow> b; t \<leftarrow> erase_bucket D I i t; Some (True, t) }
   }"

definition erase_iter ::
  "('k, 'v, 'z) derived \<Rightarrow> ('k, 'v, 'y) map_info_scheme \<Rightarrow> iter \<Rightarrow> ('k, 'v, 'z) table_scheme \<Rightarrow>
   ('k, 'v, 'z) table_scheme option" where
  "erase_iter D I it t = erase_bucket D I (fst it) t"

definition FindAndConstruct ::
  "('k, 'v, 'z) derived \<Rightarrow> ('k, 'v, 'y) map_info_scheme \<Rightarrow> 'k \<Rightarrow> ('k, 'v, 'z) table_scheme \<Rightarrow>
   (nat \<times> ('k, 'v, 'z) table_scheme) option" where
  "FindAndConstruct D I Key t = do {
     (found, b) \<leftarrow> LookupBucketFor I t Key;
     if found then do { i \<leftarrow> b; Some (i, t) }
     else InsertIntoBucket D I b Key (default_value I) t
   }"

text \<open>
  \<open>operator[]\<close> returns a reference: a read of it is \<open>index_get\<close>, an assignment \<open>index_set\<close>.
\<close>

definition index_get ::
  "('k, 'v, 'z) derived \<Rightarrow> ('k, 'v, 'y) map_info_scheme \<Rightarrow> 'k \<Rightarrow> ('k, 'v, 'z) table_scheme \<Rightarrow>
   ('v \<times> ('k, 'v, 'z) table_scheme) option" where
  "index_get D I Key t = do { (i, t) \<leftarrow> FindAndConstruct D I Key t; Some (snd (Buckets t ! i), t) }"

definition index_set ::
  "('k, 'v, 'z) derived \<Rightarrow> ('k, 'v, 'y) map_info_scheme \<Rightarrow> 'k \<Rightarrow> 'v \<Rightarrow> ('k, 'v, 'z) table_scheme \<Rightarrow>
   ('k, 'v, 'z) table_scheme option" where
  "index_set D I Key v t = do {
     (i, t) \<leftarrow> FindAndConstruct D I Key t;
     Some (t\<lparr>Buckets := (Buckets t)[i := (fst (Buckets t ! i), v)]\<rparr>)
   }"

definition isPointerIntoBucketsArray :: "('k, 'v, 'z) table_scheme \<Rightarrow> u64 \<Rightarrow> u64 \<Rightarrow> u64 \<Rightarrow> bool" where
  "isPointerIntoBucketsArray t base sz Ptr \<longleftrightarrow> Ptr \<ge> base \<and> Ptr < base + ucast (NumBuckets t) * sz"

definition getMemorySize :: "('k, 'v, 'y) map_info_scheme \<Rightarrow> ('k, 'v, 'z) table_scheme \<Rightarrow> u64" where
  "getMemorySize I t = ucast (NumBuckets t) * sizeof_BucketT I"

fun entries_match ::
  "('k, 'v, 'y) map_info_scheme \<Rightarrow> ('k, 'v, 'z) table_scheme \<Rightarrow> ('k \<times> 'v) list \<Rightarrow> bool option" where
  "entries_match I RHS [] = Some True"
| "entries_match I RHS (KV # kvs) = do {
     it \<leftarrow> dm_find I RHS (fst KV);
     if iter_eq it (dm_end RHS) \<or> snd (iter_deref RHS it) \<noteq> snd KV then Some False
     else entries_match I RHS kvs
   }"

definition dm_eq ::
  "('k, 'v, 'y) map_info_scheme \<Rightarrow> ('k, 'v, 'z) table_scheme \<Rightarrow> ('k, 'v, 'z) table_scheme \<Rightarrow> bool option" where
  "dm_eq I LHS RHS =
     (if dm_size LHS \<noteq> dm_size RHS then Some False
      else do { kvs \<leftarrow> dm_entries I LHS; entries_match I RHS kvs })"

section \<open>\<open>DenseMap\<close>\<close>

definition DM_setNumEntries :: "('k, 'v, 'z) entry_setter" where
  "DM_setNumEntries n t = Some (t\<lparr>NumEntries := n\<rparr>)"

definition DM_allocateBuckets ::
  "('k, 'v, 'y) map_info_scheme \<Rightarrow> u32 \<Rightarrow> ('k, 'v) table \<Rightarrow> (bool \<times> ('k, 'v) table) option" where
  "DM_allocateBuckets I Num t =
     (let t = t\<lparr>NumBuckets := Num\<rparr> in
      if Num = 0 then Some (False, t\<lparr>Buckets := []\<rparr>)
      else do {
        bs \<leftarrow> alloc_overflow (raw_mem I) (sizeof_BucketT I) (ucast Num);
        Some (True, t\<lparr>Buckets := bs\<rparr>)
      })"

definition DM_init :: "('k, 'v, 'y) map_info_scheme \<Rightarrow> u32 \<Rightarrow> ('k, 'v) table \<Rightarrow> ('k, 'v) table option" where
  "DM_init I InitNumEntries t = do {
     (ok, t) \<leftarrow> DM_allocateBuckets I (getMinBucketToReserveForEntries InitNumEntries) t;
     if ok then initEmpty DM_setNumEntries I t
     else Some (t\<lparr>NumEntries := 0, NumTombstones := 0\<rparr>)
   }"

definition DM_grow :: "('k, 'v, 'y) map_info_scheme \<Rightarrow> u32 \<Rightarrow> ('k, 'v) table \<Rightarrow> ('k, 'v) table option" where
  "DM_grow I AtLeast t = do {
     let OldBuckets = Buckets t;
     (ok, t) \<leftarrow> DM_allocateBuckets I (max MIN_BUCKETS (ucast (NextPowerOf2 (ucast (AtLeast - 1))))) t;
     assert_opt (Buckets t \<noteq> []);
     if OldBuckets = [] then initEmpty DM_setNumEntries I t
     else moveFromOldBuckets DM_setNumEntries I OldBuckets t
   }"

definition DM_shrink_and_clear :: "('k, 'v, 'y) map_info_scheme \<Rightarrow> ('k, 'v) table \<Rightarrow> ('k, 'v) table option" where
  "DM_shrink_and_clear I t =
     (let NewNumBuckets = (if NumEntries t \<noteq> 0
        then max MIN_BUCKETS (push_bit (unat (Log2_32_Ceil (NumEntries t) + 1)) 1) else 0) in
      if NewNumBuckets = NumBuckets t then initEmpty DM_setNumEntries I t
      else DM_init I NewNumBuckets t)"

definition DM :: "('k, 'v, 'y) map_info_scheme \<Rightarrow> ('k, 'v, unit) derived" where
  "DM I = \<lparr>grow = DM_grow I, shrink_and_clear = DM_shrink_and_clear I, setNumEntries = DM_setNumEntries\<rparr>"

definition DM_copyFrom ::
  "('k, 'v, 'y) map_info_scheme \<Rightarrow> ('k, 'v) table \<Rightarrow> ('k, 'v) table \<Rightarrow> ('k, 'v) table option" where
  "DM_copyFrom I other t = do {
     (ok, t) \<leftarrow> DM_allocateBuckets I (NumBuckets other) t;
     if ok then copyFrom_base DM_setNumEntries I other t
     else Some (t\<lparr>NumEntries := 0, NumTombstones := 0\<rparr>)
   }"

definition DM_swap :: "('k, 'v) table \<times> ('k, 'v) table \<Rightarrow> ('k, 'v) table \<times> ('k, 'v) table" where
  "DM_swap p = (case p of (t, RHS) \<Rightarrow>
     (t\<lparr>Buckets := Buckets RHS, NumEntries := NumEntries RHS, NumTombstones := NumTombstones RHS,
        NumBuckets := NumBuckets RHS\<rparr>,
      RHS\<lparr>Buckets := Buckets t, NumEntries := NumEntries t, NumTombstones := NumTombstones t,
        NumBuckets := NumBuckets t\<rparr>))"

text \<open>Constructors and assignments; \<open>mem\<close> is the memory the object is built in.\<close>

definition DM_copy_construct ::
  "('k, 'v, 'y) map_info_scheme \<Rightarrow> ('k, 'v) table \<Rightarrow> ('k, 'v) table \<Rightarrow> ('k, 'v) table option" where
  "DM_copy_construct I other mem = do { t \<leftarrow> DM_init I 0 mem; DM_copyFrom I other t }"

definition DM_move_construct ::
  "('k, 'v, 'y) map_info_scheme \<Rightarrow> ('k, 'v) table \<Rightarrow> ('k, 'v) table \<Rightarrow> (('k, 'v) table \<times> ('k, 'v) table) option" where
  "DM_move_construct I other mem = do { t \<leftarrow> DM_init I 0 mem; Some (DM_swap (t, other)) }"

definition DM_range_construct ::
  "('k, 'v, 'y) map_info_scheme \<Rightarrow> ('k \<times> 'v) list \<Rightarrow> ('k, 'v) table \<Rightarrow> ('k, 'v) table option" where
  "DM_range_construct I kvs mem = do {
     t \<leftarrow> DM_init I (of_nat (length kvs)) mem;
     insert_range (DM I) I kvs t
   }"

definition DM_copy_assign ::
  "('k, 'v, 'y) map_info_scheme \<Rightarrow> bool \<Rightarrow> ('k, 'v) table \<Rightarrow> ('k, 'v) table \<Rightarrow> ('k, 'v) table option" where
  "DM_copy_assign I same_object other t = (if \<not> same_object then DM_copyFrom I other t else Some t)"

definition DM_move_assign ::
  "('k, 'v, 'y) map_info_scheme \<Rightarrow> ('k, 'v) table \<Rightarrow> ('k, 'v) table \<Rightarrow> (('k, 'v) table \<times> ('k, 'v) table) option" where
  "DM_move_assign I other t = do { t \<leftarrow> DM_init I 0 t; Some (DM_swap (t, other)) }"

section \<open>The table of retain counts\<close>

text \<open>
  \<open>RefcountMap\<close>: disguised objects to \<open>size_t\<close>, where a zero count may be purged. A bucket
  has two words; \<open>mem\<close> is what the allocator's memory happens to hold.
\<close>

definition RefcountMapValuePurgeable :: "u64 \<Rightarrow> bool" where
  "RefcountMapValuePurgeable x \<longleftrightarrow> x = 0"

definition RefcountMap :: "(nat \<Rightarrow> u64 \<times> u64) \<Rightarrow> (u64, u64) map_info" where
  "RefcountMap mem =
     \<lparr>getEmptyKey = getEmptyKey info_DisguisedPtr, getTombstoneKey = getTombstoneKey info_DisguisedPtr,
      getHashValue = getHashValue info_DisguisedPtr, isEqual = isEqual info_DisguisedPtr,
      isPurgeable = RefcountMapValuePurgeable, default_value = 0, trivially_copyable = True,
      sizeof_BucketT = 16, raw_mem = (\<lambda>bytes. map mem [0..<unat bytes div 16])\<rparr>"

section \<open>Sequences of operations\<close>

datatype ('k, 'v) map_op = Op_assign 'k 'v | Op_erase 'k | Op_clear | Op_lookup 'k

fun table_step ::
  "('k, 'v, 'z) derived \<Rightarrow> ('k, 'v, 'y) map_info_scheme \<Rightarrow> ('k, 'v) map_op \<Rightarrow> ('k, 'v, 'z) table_scheme \<Rightarrow>
   ('v list \<times> ('k, 'v, 'z) table_scheme) option" where
  "table_step D I (Op_assign k v) t = do { t \<leftarrow> index_set D I k v t; Some ([], t) }"
| "table_step D I (Op_erase k) t = do { (b, t) \<leftarrow> dm_erase D I k t; Some ([], t) }"
| "table_step D I Op_clear t = do { t \<leftarrow> clear D I t; Some ([], t) }"
| "table_step D I (Op_lookup k) t = do { v \<leftarrow> lookup I t k; Some ([v], t) }"

fun table_run ::
  "('k, 'v, 'z) derived \<Rightarrow> ('k, 'v, 'y) map_info_scheme \<Rightarrow> ('k, 'v) map_op list \<Rightarrow> ('k, 'v, 'z) table_scheme \<Rightarrow>
   ('v list \<times> ('k, 'v, 'z) table_scheme) option" where
  "table_run D I [] t = Some ([], t)"
| "table_run D I (p # ps) t = do {
     (vs, t) \<leftarrow> table_step D I p t;
     (ws, t) \<leftarrow> table_run D I ps t;
     Some (vs @ ws, t)
   }"

end
