(* ===== verification/DenseMapLaws.thy ===== *)
theory DenseMapLaws
  imports DenseMap
begin

text \<open>
  Correctness of the hash tables. \<open>bs_ok\<close> is the invariant of a bucket array and \<open>dm_ok\<close>
  that of a table; \<open>stored\<close> is the map of all entries and \<open>dm_map\<close> the map without the
  entries whose value may be purged, which is what the operations of the base class keep.
\<close>

section \<open>Probing visits every bucket\<close>

definition probe :: "nat \<Rightarrow> nat \<Rightarrow> nat \<Rightarrow> nat" where
  "probe N h p = (h + p * (p + 1) div 2) mod N"

lemma probe_Suc: "probe N h (Suc p) = (probe N h p + Suc p) mod N"
proof -
  have "Suc p * (Suc p + 1) div 2 = p * (p + 1) div 2 + Suc p"
  proof -
    have "Suc p * (Suc p + 1) = p * (p + 1) + 2 * Suc p" by simp
    then show ?thesis by (simp only: div_mult_self2 add.commute)
  qed
  then show ?thesis unfolding probe_def by (simp only: mod_add_left_eq add.assoc)
qed

lemma triangular_inj:
  assumes "i < j" "j < 2 ^ k"
  shows "probe (2 ^ k) h i \<noteq> probe (2 ^ k) h j"
proof
  define a b where "a = i * (i + 1) div 2" and "b = j * (j + 1) div 2"
  have a2: "2 * a = i * (i + 1)" and b2: "2 * b = j * (j + 1)" unfolding a_def b_def by simp_all
  have le: "a \<le> b" unfolding a_def b_def using assms by (intro div_le_mono mult_le_mono) auto
  assume "probe (2 ^ k) h i = probe (2 ^ k) h j"
  then have "(h + b) mod 2 ^ k = (h + a) mod 2 ^ k" unfolding probe_def a_def b_def by simp
  then have "2 ^ k dvd (h + b) - (h + a)" using mod_eq_dvd_iff_nat [of "h + a" "h + b" "2 ^ k"] le by simp
  then have "2 ^ k dvd b - a" by simp
  then have "2 * 2 ^ k dvd 2 * (b - a)" by simp
  moreover have "2 * (b - a) = (j - i) * (j + i + 1)"
  proof -
    obtain d where d: "j = i + d" using assms(1) less_imp_add_positive by blast
    have "2 * (b - a) = 2 * b - 2 * a" by simp
    also have "\<dots> = (i + d) * (i + d + 1) - i * (i + 1)" using a2 b2 d by simp
    also have "\<dots> = d * (2 * i + d + 1)" by (simp add: algebra_simps)
    finally show ?thesis using d by (simp add: algebra_simps)
  qed
  ultimately have dv: "2 ^ Suc k dvd (j - i) * (j + i + 1)" by simp
  have "odd (j - i) \<or> odd (j + i + 1)" using assms(1) by auto
  then have "2 ^ Suc k dvd j - i \<or> 2 ^ Suc k dvd j + i + 1"
  proof
    assume "odd (j - i)"
    then have "coprime (2 ^ Suc k) (j - i)" by simp
    then show ?thesis using dv coprime_dvd_mult_right_iff by blast
  next
    assume "odd (j + i + 1)"
    then have "coprime (2 ^ Suc k) (j + i + 1)" by simp
    then show ?thesis using dv coprime_dvd_mult_left_iff by blast
  qed
  then show False
    using assms by (auto dest!: dvd_imp_le)
qed

lemma probe_covers:
  assumes "i < 2 ^ k"
  shows "\<exists>p < 2 ^ k. probe (2 ^ k) h p = i"
proof -
  have inj: "inj_on (probe (2 ^ k) h) {..<2 ^ k}"
    using triangular_inj [of _ _ k h] by (intro inj_onI) (metis lessThan_iff nat_neq_iff)
  have sub: "probe (2 ^ k) h ` {..<2 ^ k} \<subseteq> {..<2 ^ k}" by (auto simp: probe_def)
  have "probe (2 ^ k) h ` {..<2 ^ k} = {..<2 ^ k}"
    using sub by (intro card_subset_eq) (simp_all add: card_image [OF inj])
  then have "i \<in> probe (2 ^ k) h ` {..<2 ^ k}" using assms by blast
  then show ?thesis by auto
qed

lemma word_pow2_mask:
  assumes "unat (N :: u32) = 2 ^ k"
  shows "k < 32" "N - 1 = mask k"
proof -
  show k: "k < 32"
  proof (rule ccontr)
    assume "\<not> k < 32"
    then have "(2 :: nat) ^ 32 \<le> 2 ^ k" by (intro power_increasing) auto
    then show False using assms unsigned_less [of N, where ?'a = nat] by simp
  qed
  have "N = of_nat (unat N)" by simp
  then have "N = 2 ^ k" unfolding assms by simp
  then show "N - 1 = mask k" by (simp add: mask_eq_exp_minus_1)
qed

lemma unat_and_pow2:
  assumes "unat (N :: u32) = 2 ^ k"
  shows "unat (x AND (N - 1)) = unat x mod 2 ^ k"
  by (simp only: word_pow2_mask(2) [OF assms] take_bit_eq_mask [symmetric] unat_take_bit)

lemma unat_probe_step:
  assumes "unat (N :: u32) = 2 ^ k" "unat no = probe (2 ^ k) h p"
  shows "unat ((no + of_nat (Suc p)) AND (N - 1)) = probe (2 ^ k) h (Suc p)"
proof -
  have "(2 :: nat) ^ k dvd 2 ^ 32" using word_pow2_mask(1) [OF assms(1)] by (intro le_imp_power_dvd) simp
  then have "((unat no + Suc p) mod 2 ^ 32) mod 2 ^ k = (unat no + Suc p) mod 2 ^ k"
    by (rule mod_mod_cancel)
  moreover have "unat (no + of_nat (Suc p)) = (unat no + Suc p) mod 2 ^ 32"
    by (simp add: unat_word_ariths unat_of_nat take_bit_eq_mod mod_simps del: of_nat_Suc)
  ultimately show ?thesis
    unfolding unat_and_pow2 [OF assms(1)] probe_Suc using assms(2) by simp
qed

section \<open>The invariant\<close>

definition lawful_map :: "('k, 'v, 'y) map_info_scheme \<Rightarrow> bool" where
  "lawful_map I \<longleftrightarrow> lawful_key I \<and> unat (sizeof_BucketT I) \<le> 2 ^ 16 \<and>
     (\<forall>n :: u32. length (raw_mem I (sizeof_BucketT I * ucast n)) = unat n)"

definition live_count :: "('k, 'y) key_info_scheme \<Rightarrow> ('k \<times> 'v) list \<Rightarrow> nat" where
  "live_count I bs = length (filter (\<lambda>b. is_live I (fst b)) bs)"

definition tomb_count :: "('k, 'y) key_info_scheme \<Rightarrow> ('k \<times> 'v) list \<Rightarrow> nat" where
  "tomb_count I bs = length (filter (\<lambda>b. isEqual I (fst b) (getTombstoneKey I)) bs)"

definition keys_inj :: "('k, 'y) key_info_scheme \<Rightarrow> ('k \<times> 'v) list \<Rightarrow> bool" where
  "keys_inj I bs \<longleftrightarrow> (\<forall>i < length bs. \<forall>j < length bs. is_live I (fst (bs ! i)) \<longrightarrow> fst (bs ! i) = fst (bs ! j) \<longrightarrow> i = j)"

definition placed :: "('k, 'y) key_info_scheme \<Rightarrow> ('k \<times> 'v) list \<Rightarrow> 'k \<Rightarrow> nat \<Rightarrow> bool" where
  "placed I bs k i \<longleftrightarrow> (\<exists>p < length bs. probe (length bs) (unat (getHashValue I k)) p = i \<and>
     (\<forall>q < p. fst (bs ! probe (length bs) (unat (getHashValue I k)) q) \<noteq> getEmptyKey I))"

definition bs_ok :: "('k, 'y) key_info_scheme \<Rightarrow> ('k \<times> 'v) list \<Rightarrow> bool" where
  "bs_ok I bs \<longleftrightarrow>
     (bs = [] \<or> (\<exists>k. length bs = 2 ^ k) \<and> live_count I bs + tomb_count I bs < length bs) \<and>
     keys_inj I bs \<and> (\<forall>i < length bs. is_live I (fst (bs ! i)) \<longrightarrow> placed I bs (fst (bs ! i)) i)"

definition dm_ok :: "('k, 'y) key_info_scheme \<Rightarrow> ('k, 'v, 'z) table_scheme \<Rightarrow> bool" where
  "dm_ok I t \<longleftrightarrow> bs_ok I (Buckets t) \<and> length (Buckets t) = unat (NumBuckets t) \<and>
     live_count I (Buckets t) = unat (NumEntries t) \<and> tomb_count I (Buckets t) = unat (NumTombstones t)"

definition stored :: "('k, 'y) key_info_scheme \<Rightarrow> ('k \<times> 'v) list \<Rightarrow> 'k \<rightharpoonup> 'v" where
  "stored I bs k = (if is_live I k then map_of bs k else None)"

definition drop_purgeable :: "('k, 'v, 'y) map_info_scheme \<Rightarrow> ('k \<rightharpoonup> 'v) \<Rightarrow> 'k \<rightharpoonup> 'v" where
  "drop_purgeable I m k = (case m k of Some v \<Rightarrow> if isPurgeable I v then None else Some v | None \<Rightarrow> None)"

definition dm_map :: "('k, 'v, 'y) map_info_scheme \<Rightarrow> ('k, 'v, 'z) table_scheme \<Rightarrow> 'k \<rightharpoonup> 'v" where
  "dm_map I t = drop_purgeable I (stored I (Buckets t))"

lemma live_iff: "lawful_key I \<Longrightarrow> is_live I k \<longleftrightarrow> k \<noteq> getEmptyKey I \<and> k \<noteq> getTombstoneKey I"
  by (auto simp: is_live_def lawful_key_def)

lemma isEqual_eq: "lawful_key I \<Longrightarrow> isEqual I = (=)"
  by (simp add: lawful_key_def)

lemma lawful_map_key: "lawful_map I \<Longrightarrow> lawful_key I"
  by (simp add: lawful_map_def)

lemma length_filter_update:
  assumes "i < length xs"
  shows "length (filter P (xs[i := x])) + of_bool (P (xs ! i)) = length (filter P xs) + of_bool (P x)"
  using assms
proof (induction xs arbitrary: i)
  case (Cons y ys)
  then show ?case by (cases i) (simp, use Cons.IH in force)
qed simp

lemma fst_mem_nth: "k \<in> fst ` set bs \<longleftrightarrow> (\<exists>i < length bs. fst (bs ! i) = k)"
  by (metis (no_types, lifting) image_iff in_set_conv_nth)

lemma empty_exists:
  assumes "lawful_key I" "live_count I bs + tomb_count I bs < length bs"
  shows "\<exists>i < length bs. fst (bs ! i) = getEmptyKey I"
proof (rule ccontr)
  assume "\<not> ?thesis"
  then have ne: "\<forall>b \<in> set bs. fst b \<noteq> getEmptyKey I" by (metis in_set_conv_nth)
  have "live_count I bs + tomb_count I bs = length bs"
    using ne unfolding live_count_def tomb_count_def
    by (induction bs) (auto simp: live_iff [OF assms(1)] isEqual_eq [OF assms(1)])
  with assms(2) show False by simp
qed

lemma stored_iff:
  assumes "keys_inj I bs"
  shows "stored I bs k = Some v \<longleftrightarrow> is_live I k \<and> (\<exists>i < length bs. bs ! i = (k, v))"
proof -
  have "map_of bs k = Some v" if "is_live I k" "i < length bs" "bs ! i = (k, v)" for i
  proof -
    have "map_of bs k \<noteq> None" using that unfolding map_of_eq_None_iff fst_mem_nth by auto
    then obtain w where w: "map_of bs k = Some w" by blast
    then obtain j where "j < length bs" "bs ! j = (k, w)" using map_of_SomeD in_set_conv_nth by metis
    then have "i = j" using assms that unfolding keys_inj_def by simp
    then show ?thesis using w that \<open>bs ! j = (k, w)\<close> by simp
  qed
  then show ?thesis unfolding stored_def
    by (auto dest!: map_of_SomeD simp: in_set_conv_nth)
qed

lemma stored_None:
  assumes "is_live I k"
  shows "stored I bs k = None \<longleftrightarrow> (\<forall>i < length bs. fst (bs ! i) \<noteq> k)"
  using assms unfolding stored_def by (simp add: map_of_eq_None_iff fst_mem_nth)

section \<open>Lookup\<close>

definition reusable :: "('k, 'v, 'y) map_info_scheme \<Rightarrow> 'k \<times> 'v \<Rightarrow> bool" where
  "reusable I b \<longleftrightarrow> \<not> is_live I (fst b) \<or> isPurgeable I (snd b)"

lemma lookup_loop_hit:
  assumes l: "lawful_key I" and N: "unat N = 2 ^ k" and s: "s < 2 ^ k" "p \<le> s"
    and no: "unat no = probe (2 ^ k) h p"
    and pre: "\<forall>q < s. fst (bs ! probe (2 ^ k) h q) \<noteq> Val \<and> fst (bs ! probe (2 ^ k) h q) \<noteq> getEmptyKey I"
    and hit: "fst (bs ! probe (2 ^ k) h s) = Val"
  shows "lookup_loop I bs N Val no (Suc p) ft = Some (True, Some (probe (2 ^ k) h s))"
  using s(2) no
proof (induction "s - p" arbitrary: p no ft)
  case 0
  then show ?case using hit by (simp add: lookup_loop.simps [of I bs N Val no] isEqual_eq [OF l])
next
  case (Suc d)
  then have "p < s" by simp
  then show ?case
    using pre Suc.hyps(1) [OF _ _ unat_probe_step [OF N Suc.prems(2)]] Suc.hyps(2) Suc.prems s(1) N
    by (subst lookup_loop.simps) (auto simp: isEqual_eq [OF l] Let_def simp del: of_nat_Suc)
qed

lemma lookup_loop_miss:
  assumes l: "lawful_key I" and N: "unat N = 2 ^ k" and s: "s < 2 ^ k" "p \<le> s"
    and no: "unat no = probe (2 ^ k) h p"
    and pre: "\<forall>q < s. fst (bs ! probe (2 ^ k) h q) \<noteq> Val \<and> fst (bs ! probe (2 ^ k) h q) \<noteq> getEmptyKey I"
    and hit: "fst (bs ! probe (2 ^ k) h s) = getEmptyKey I" and Val: "Val \<noteq> getEmptyKey I"
  shows "\<exists>j. lookup_loop I bs N Val no (Suc p) ft = Some (False, Some j) \<and>
    (ft = Some j \<or> (\<exists>q \<le> s. j = probe (2 ^ k) h q \<and> reusable I (bs ! j)))"
  using s(2) no
proof (induction "s - p" arbitrary: p no ft)
  case 0
  then show ?case using hit Val
    by (subst lookup_loop.simps) (auto simp: isEqual_eq [OF l] reusable_def is_live_def Let_def split: option.splits)
next
  case (Suc d)
  then have ps: "p < s" by simp
  define ft1 where "ft1 = (if isEqual I (fst (bs ! unat no)) (getTombstoneKey I) \<and> ft = None then Some (unat no) else ft)"
  define ft2 where "ft2 = (if isPurgeable I (snd (bs ! unat no)) \<and> ft1 = None then Some (unat no) else ft1)"
  have step: "lookup_loop I bs N Val no (Suc p) ft =
      lookup_loop I bs N Val ((no + of_nat (Suc p)) AND (N - 1)) (Suc (Suc p)) ft2"
    using pre ps Suc.prems s(1) N unfolding ft1_def ft2_def
    by (subst lookup_loop.simps) (auto simp: isEqual_eq [OF l] Let_def simp del: of_nat_Suc)
  have "ft2 = Some j \<Longrightarrow> ft = Some j \<or> (\<exists>q \<le> s. j = probe (2 ^ k) h q \<and> reusable I (bs ! j))" for j
    using ps Suc.prems unfolding ft1_def ft2_def
    by (auto simp: reusable_def is_live_def split: if_splits intro!: exI [of _ p])
  then show ?case
    unfolding step using Suc.hyps(1) [OF _ _ unat_probe_step [OF N Suc.prems(2)], of ft2] Suc.hyps(2) ps by fastforce
qed

lemma LookupBucketFor_start:
  assumes "lawful_key I" "NumBuckets t \<noteq> 0" "is_live I Val"
  shows "LookupBucketFor I t Val =
    lookup_loop I (Buckets t) (NumBuckets t) Val (getHashValue I Val AND (NumBuckets t - 1)) (Suc 0) None"
  using assms by (simp add: LookupBucketFor_def assert_opt_def is_live_def)

lemma bs_ok_pow2:
  assumes "bs_ok I bs" "bs \<noteq> []"
  obtains k where "length bs = 2 ^ k"
  using assms by (auto simp: bs_ok_def)

lemma probe_0: "unat (NN :: u32) = 2 ^ k \<Longrightarrow> unat (x AND (NN - 1)) = probe (2 ^ k) (unat x) 0"
  by (simp add: unat_and_pow2 probe_def)

lemma LookupBucketFor_found:
  assumes l: "lawful_key I" and ok: "dm_ok I t" and i: "i < length (Buckets t)" "fst (Buckets t ! i) = Val"
    and live: "is_live I Val"
  shows "LookupBucketFor I t Val = Some (True, Some i)"
proof -
  let ?bs = "Buckets t" let ?h = "unat (getHashValue I Val)"
  have bok: "bs_ok I ?bs" and len: "length ?bs = unat (NumBuckets t)" using ok by (auto simp: dm_ok_def)
  have "?bs \<noteq> []" using i by auto
  then obtain k where k: "length ?bs = 2 ^ k" using bs_ok_pow2 [OF bok] by blast
  obtain p where p: "p < 2 ^ k" "probe (2 ^ k) ?h p = i"
      "\<forall>q < p. fst (?bs ! probe (2 ^ k) ?h q) \<noteq> getEmptyKey I"
    using bok i live k unfolding bs_ok_def placed_def by metis
  have "fst (?bs ! probe (2 ^ k) ?h q) \<noteq> Val" if "q < p" for q
  proof
    assume "fst (?bs ! probe (2 ^ k) ?h q) = Val"
    moreover have "probe (2 ^ k) ?h q < length ?bs" using k by (simp add: probe_def)
    ultimately have "i = probe (2 ^ k) ?h q" using bok i live unfolding bs_ok_def keys_inj_def by metis
    then show False using triangular_inj [OF that p(1)] p(2) by metis
  qed
  then have "lookup_loop I ?bs (NumBuckets t) Val (getHashValue I Val AND (NumBuckets t - 1)) (Suc 0) None
      = Some (True, Some (probe (2 ^ k) ?h p))"
    using p i k len by (intro lookup_loop_hit [OF l _ p(1)] probe_0) auto
  moreover have "NumBuckets t \<noteq> 0" using len i by auto
  ultimately show ?thesis using p(2) by (simp add: LookupBucketFor_start [OF l _ live])
qed

lemma LookupBucketFor_absent:
  assumes l: "lawful_key I" and ok: "dm_ok I t" and N: "NumBuckets t \<noteq> 0"
    and absent: "stored I (Buckets t) Val = None" and live: "is_live I Val"
  shows "\<exists>j < length (Buckets t). LookupBucketFor I t Val = Some (False, Some j) \<and>
    placed I (Buckets t) Val j \<and> reusable I (Buckets t ! j)"
proof -
  let ?bs = "Buckets t" let ?h = "unat (getHashValue I Val)"
  have bok: "bs_ok I ?bs" and len: "length ?bs = unat (NumBuckets t)" using ok by (auto simp: dm_ok_def)
  have ne: "?bs \<noteq> []" using len N by (auto simp: unat_eq_zero)
  then obtain k where k: "length ?bs = 2 ^ k" using bs_ok_pow2 [OF bok] by blast
  obtain e where e: "e < length ?bs" "fst (?bs ! e) = getEmptyKey I"
    using empty_exists [OF l, of ?bs] bok ne by (auto simp: bs_ok_def)
  define s where "s = (LEAST q. fst (?bs ! probe (2 ^ k) ?h q) = getEmptyKey I)"
  obtain p where p: "p < 2 ^ k" "probe (2 ^ k) ?h p = e" using probe_covers e k by metis
  have s: "fst (?bs ! probe (2 ^ k) ?h s) = getEmptyKey I" "s \<le> p"
    unfolding s_def using e p by (auto intro: LeastI2 Least_le)
  have pre: "fst (?bs ! probe (2 ^ k) ?h q) \<noteq> Val \<and> fst (?bs ! probe (2 ^ k) ?h q) \<noteq> getEmptyKey I" if "q < s" for q
  proof -
    have "probe (2 ^ k) ?h q < length ?bs" using k by (simp add: probe_def)
    then show ?thesis using absent not_less_Least [of q] that unfolding stored_None [OF live] s_def by auto
  qed
  have "\<exists>j. lookup_loop I ?bs (NumBuckets t) Val (getHashValue I Val AND (NumBuckets t - 1)) (Suc 0) None
      = Some (False, Some j) \<and> (None = Some j \<or> (\<exists>q \<le> s. j = probe (2 ^ k) ?h q \<and> reusable I (?bs ! j)))"
    using s pre p k len live
    by (intro lookup_loop_miss [OF l] probe_0) (auto simp: live_iff [OF l])
  then obtain j q where j: "LookupBucketFor I t Val = Some (False, Some j)" "q \<le> s" "j = probe (2 ^ k) ?h q"
      "reusable I (?bs ! j)"
    by (auto simp: LookupBucketFor_start [OF l N live])
  moreover have "placed I ?bs Val j"
    unfolding placed_def k using j s p pre by (intro exI [of _ q]) auto
  ultimately show ?thesis using k by (intro exI [of _ j]) (simp add: probe_def)
qed

section \<open>Updating a bucket\<close>

lemma placed_update:
  assumes "placed I bs k i" "fst x \<noteq> getEmptyKey I" "j < length bs"
  shows "placed I (bs[j := x]) k i"
proof -
  obtain p where p: "p < length bs" "probe (length bs) (unat (getHashValue I k)) p = i"
      "\<forall>q < p. fst (bs ! probe (length bs) (unat (getHashValue I k)) q) \<noteq> getEmptyKey I"
    using assms(1) unfolding placed_def by blast
  then show ?thesis
    unfolding placed_def using assms(2,3) by (intro exI [of _ p]) (simp add: nth_list_update)
qed

lemma keys_inj_update:
  assumes "keys_inj I bs" "j < length bs"
    "is_live I (fst x) \<Longrightarrow> \<forall>i < length bs. i \<noteq> j \<longrightarrow> fst (bs ! i) \<noteq> fst x"
  shows "keys_inj I (bs[j := x])"
  unfolding keys_inj_def length_list_update
proof (intro allI impI)
  fix i i' assume i: "i < length bs" "i' < length bs" "is_live I (fst (bs[j := x] ! i))"
    "fst (bs[j := x] ! i) = fst (bs[j := x] ! i')"
  show "i = i'"
    using i assms unfolding keys_inj_def
    by (cases "i = j"; cases "i' = j") (auto simp: nth_list_update)
qed

lemma ex_nth_update:
  assumes "j < length xs"
  shows "(\<exists>i < length xs. xs[j := x] ! i = y) \<longleftrightarrow> x = y \<or> (\<exists>i < length xs. i \<noteq> j \<and> xs ! i = y)"
  using assms by (metis nth_list_update_eq nth_list_update_neq)

lemma stored_update:
  assumes inj: "keys_inj I bs" "j < length bs"
    and new: "is_live I (fst x) \<Longrightarrow> \<forall>i < length bs. i \<noteq> j \<longrightarrow> fst (bs ! i) \<noteq> fst x"
  shows "stored I (bs[j := x]) =
    (if is_live I (fst x) then (stored I bs)(fst (bs ! j) := None, fst x \<mapsto> snd x)
     else (stored I bs)(fst (bs ! j) := None))" (is "_ = ?m")
proof
  fix k
  show "stored I (bs[j := x]) k = ?m k"
  proof (cases "is_live I k")
    case False
    then show ?thesis by (auto simp: stored_def)
  next
    case live: True
    have ex: "stored I (bs[j := x]) k = Some v \<longleftrightarrow> x = (k, v) \<or> (\<exists>i < length bs. i \<noteq> j \<and> bs ! i = (k, v))" for v
      using stored_iff [OF keys_inj_update [OF inj new], of k v] ex_nth_update [OF inj(2), of x "(k, v)"] live by simp
    have old: "stored I bs k = Some v \<longleftrightarrow> (\<exists>i < length bs. bs ! i = (k, v))" for v
      using stored_iff [OF inj(1)] live by simp
    consider "fst x = k" | "fst x \<noteq> k" "k = fst (bs ! j)" | "fst x \<noteq> k" "k \<noteq> fst (bs ! j)" by blast
    then have "stored I (bs[j := x]) k = Some v \<longleftrightarrow> ?m k = Some v" for v
    proof cases
      case 1
      then have "\<not> (\<exists>i < length bs. i \<noteq> j \<and> bs ! i = (k, v))" using new live by fastforce
      then have "stored I (bs[j := x]) k = Some v \<longleftrightarrow> x = (k, v)" unfolding ex by blast
      then show ?thesis using 1 live by (cases x) auto
    next
      case 2
      then have "\<not> (\<exists>i < length bs. i \<noteq> j \<and> bs ! i = (k, v))"
        using inj live unfolding keys_inj_def by (metis fst_conv)
      then show ?thesis unfolding ex using 2 by (simp add: prod_eq_iff)
    next
      case 3
      then have "(\<exists>i < length bs. i \<noteq> j \<and> bs ! i = (k, v)) \<longleftrightarrow> stored I bs k = Some v" unfolding old by (metis fst_conv)
      then show ?thesis unfolding ex using 3 by (simp add: prod_eq_iff)
    qed
    then show ?thesis by (metis option.exhaust)
  qed
qed

lemma counts_update:
  assumes "j < length bs"
  shows "live_count I (bs[j := x]) + of_bool (is_live I (fst (bs ! j))) = live_count I bs + of_bool (is_live I (fst x))"
    "tomb_count I (bs[j := x]) + of_bool (isEqual I (fst (bs ! j)) (getTombstoneKey I)) =
     tomb_count I bs + of_bool (isEqual I (fst x) (getTombstoneKey I))"
  unfolding live_count_def tomb_count_def using length_filter_update [OF assms] by metis+

lemma bs_ok_full: "bs_ok I bs \<Longrightarrow> j < length bs \<Longrightarrow> live_count I bs + tomb_count I bs < length bs"
  by (auto simp: bs_ok_def)

lemma bs_ok_update:
  assumes ok: "bs_ok I bs" and j: "j < length bs" and x: "fst x \<noteq> getEmptyKey I"
    and new: "is_live I (fst x) \<Longrightarrow> \<forall>i < length bs. i \<noteq> j \<longrightarrow> fst (bs ! i) \<noteq> fst x"
    and pl: "is_live I (fst x) \<Longrightarrow> placed I bs (fst x) j"
    and room: "live_count I (bs[j := x]) + tomb_count I (bs[j := x]) < length bs"
  shows "bs_ok I (bs[j := x])"
proof -
  have "placed I (bs[j := x]) (fst (bs[j := x] ! i)) i" if "i < length bs" "is_live I (fst (bs[j := x] ! i))" for i
    using ok that pl j placed_update [OF _ x j] unfolding bs_ok_def
    by (cases "i = j") (auto simp: nth_list_update simp del: length_list_update)
  then show ?thesis
    using ok room j keys_inj_update [OF _ j new] unfolding bs_ok_def by auto
qed

lemma drop_purgeable_upd:
  "drop_purgeable I (m(k \<mapsto> v)) = (drop_purgeable I m)(k := if isPurgeable I v then None else Some v)"
  "drop_purgeable I (m(k := None)) = (drop_purgeable I m)(k := None)"
  by (auto simp: drop_purgeable_def fun_eq_iff)

lemma drop_purgeable_None: "m k = None \<Longrightarrow> drop_purgeable I m k = None"
  by (simp add: drop_purgeable_def)

lemma stored_reusable:
  assumes "keys_inj I bs" "j < length bs" "reusable I (bs ! j)"
  shows "drop_purgeable I (stored I bs) (fst (bs ! j)) = None"
proof (cases "is_live I (fst (bs ! j))")
  case True
  then have "stored I bs (fst (bs ! j)) = Some (snd (bs ! j))" using stored_iff [OF assms(1)] assms(2) by auto
  then show ?thesis using assms(3) True by (simp add: drop_purgeable_def reusable_def)
qed (simp add: drop_purgeable_def stored_def)

lemma bs_put:
  assumes l: "lawful_key I" and ok: "bs_ok I bs" and j: "j < length bs" "placed I bs k j" "reusable I (bs ! j)"
    and k: "is_live I k" "stored I bs k = None"
    and room: "fst (bs ! j) = getEmptyKey I \<Longrightarrow> live_count I bs + tomb_count I bs + 1 < length bs"
  shows "bs_ok I (bs[j := (k, v)])"
    "drop_purgeable I (stored I (bs[j := (k, v)])) =
      (drop_purgeable I (stored I bs))(k := if isPurgeable I v then None else Some v)"
    "stored I (bs[j := (k, v)]) k = Some v"
proof -
  have new: "\<forall>i < length bs. i \<noteq> j \<longrightarrow> fst (bs ! i) \<noteq> fst (k, v)" using k(2) unfolding stored_None [OF k(1)] by simp
  have full: "live_count I bs + tomb_count I bs < length bs" using ok j(1) by (auto simp: bs_ok_def)
  have "live_count I (bs[j := (k, v)]) + tomb_count I (bs[j := (k, v)]) < length bs"
    using counts_update [OF j(1), of I "(k, v)"] room k(1) full
    by (cases "fst (bs ! j) = getEmptyKey I"; cases "fst (bs ! j) = getTombstoneKey I")
      (auto simp: live_iff [OF l] isEqual_eq [OF l] split: if_splits)
  then show "bs_ok I (bs[j := (k, v)])"
    using new j k by (intro bs_ok_update [OF ok]) (auto simp: live_iff [OF l])
  have inj: "keys_inj I bs" using ok by (simp add: bs_ok_def)
  have st: "stored I (bs[j := (k, v)]) = (stored I bs)(fst (bs ! j) := None, k \<mapsto> v)"
    using stored_update [OF inj j(1), of "(k, v)"] new k by simp
  then show "stored I (bs[j := (k, v)]) k = Some v" by simp
  show "drop_purgeable I (stored I (bs[j := (k, v)])) =
      (drop_purgeable I (stored I bs))(k := if isPurgeable I v then None else Some v)"
    unfolding st drop_purgeable_upd using stored_reusable [OF inj j(1,3)] by (auto simp: fun_eq_iff)
qed

section \<open>Rehashing\<close>

definition plain_setter :: "('k, 'v, 'z) entry_setter \<Rightarrow> bool" where
  "plain_setter sne \<longleftrightarrow> (\<forall>n t. unat n < 2 ^ 31 \<longrightarrow> sne n t = Some (t\<lparr>NumEntries := n\<rparr>))"

lemma plain_setterD: "plain_setter sne \<Longrightarrow> unat n < 2 ^ 31 \<Longrightarrow> sne n t = Some (t\<lparr>NumEntries := n\<rparr>)"
  by (simp add: plain_setter_def)

lemma unat_Suc: "unat x + 1 < 2 ^ 31 \<Longrightarrow> unat (x + 1) = unat x + 1" for x :: u32
  by (simp add: unat_word_ariths)

lemma unat_pred: "0 < unat x \<Longrightarrow> unat (x - 1) = unat x - 1" for x :: u32
  by (metis Suc_leI unat_1 One_nat_def unat_sub word_le_nat_alt)

definition no_zeros :: "('k, 'v, 'y) map_info_scheme \<Rightarrow> ('k \<times> 'v) list \<Rightarrow> bool" where
  "no_zeros I bs \<longleftrightarrow> (\<forall>i < length bs. is_live I (fst (bs ! i)) \<longrightarrow> \<not> isPurgeable I (snd (bs ! i)))"

definition new_table :: "('k, 'v, 'y) map_info_scheme \<Rightarrow> ('k, 'v, 'z) table_scheme \<Rightarrow> bool" where
  "new_table I t \<longleftrightarrow> dm_ok I t \<and> NumBuckets t \<noteq> 0 \<and> NumTombstones t = 0 \<and> no_zeros I (Buckets t)"

lemma move_one:
  assumes l: "lawful_key I" and s: "plain_setter sne" and t: "new_table I t"
    and k: "is_live I k" "stored I (Buckets t) k = None" and v: "\<not> isPurgeable I v"
    and room: "live_count I (Buckets t) + 1 < length (Buckets t)" "length (Buckets t) \<le> 2 ^ 31"
  shows "\<exists>j t'. LookupBucketFor I t k = Some (False, Some j) \<and>
    sne (NumEntries t + 1) (t\<lparr>Buckets := (Buckets t)[j := (k, v)]\<rparr>) = Some t' \<and>
    t' = t\<lparr>Buckets := (Buckets t)[j := (k, v)], NumEntries := NumEntries t + 1\<rparr> \<and> new_table I t' \<and>
    live_count I (Buckets t') = live_count I (Buckets t) + 1 \<and>
    stored I (Buckets t') = (stored I (Buckets t))(k \<mapsto> v)"
proof -
  let ?bs = "Buckets t"
  have ok: "dm_ok I t" "NumBuckets t \<noteq> 0" and tomb: "tomb_count I ?bs = 0" and nz: "no_zeros I ?bs"
    using t by (auto simp: new_table_def dm_ok_def)
  have bok: "bs_ok I ?bs" using ok by (simp add: dm_ok_def)
  obtain j where j: "j < length ?bs" "LookupBucketFor I t k = Some (False, Some j)" "placed I ?bs k j"
      "reusable I (?bs ! j)"
    using LookupBucketFor_absent [OF l ok k(2,1)] by blast
  have dead: "\<not> is_live I (fst (?bs ! j))" using j nz by (auto simp: reusable_def no_zeros_def)
  have nt: "\<not> isEqual I (fst (?bs ! j)) (getTombstoneKey I)"
    using tomb j(1) unfolding tomb_count_def by (auto simp: filter_empty_conv)
  let ?bs' = "?bs[j := (k, v)]"
  note put = bs_put [OF l bok j(1,3,4) k, of v]
  have c: "live_count I ?bs' = live_count I ?bs + 1" "tomb_count I ?bs' = 0"
    using counts_update [OF j(1), of I "(k, v)"] dead nt k(1) tomb by (auto simp: is_live_def)
  have n: "unat (NumEntries t + 1) = live_count I ?bs + 1"
    using ok room by (subst unat_Suc) (auto simp: dm_ok_def)
  let ?t' = "t\<lparr>Buckets := ?bs', NumEntries := NumEntries t + 1\<rparr>"
  have st: "stored I ?bs' = (stored I ?bs)(k \<mapsto> v)"
    using stored_update [of I ?bs j "(k, v)"] bok j(1) k dead unfolding stored_None [OF k(1)]
    by (auto simp: bs_ok_def stored_def fun_eq_iff)
  have "new_table I ?t'"
    using put(1) ok room tomb c n t nz v j(1)
    by (auto simp: new_table_def dm_ok_def no_zeros_def nth_list_update)
  moreover have "sne (NumEntries t + 1) (t\<lparr>Buckets := ?bs'\<rparr>) = Some ?t'"
    using plain_setterD [OF s, of "NumEntries t + 1"] n room by simp
  ultimately show ?thesis using j(2) c st by (intro exI [of _ j] exI [of _ ?t']) auto
qed

lemma keys_inj_Cons:
  assumes "keys_inj I (b # bs)"
  shows "keys_inj I bs" "is_live I (fst b) \<Longrightarrow> stored I bs (fst b) = None"
proof -
  have inj: "Suc i = j" if "Suc i < length (b # bs)" "j < length (b # bs)" "is_live I (fst (bs ! i))"
      "fst (bs ! i) = fst ((b # bs) ! j)" for i j
    using assms that unfolding keys_inj_def by (metis nth_Cons_Suc)
  show "keys_inj I bs" unfolding keys_inj_def using inj by (metis Suc_mono length_Cons nat.inject nth_Cons_Suc)
  assume live: "is_live I (fst b)"
  show "stored I bs (fst b) = None"
    unfolding stored_None [OF live] using inj [of _ 0] live by fastforce
qed

lemma stored_Cons: "stored I (b # bs) = (if is_live I (fst b) then (stored I bs)(fst b \<mapsto> snd b) else stored I bs)"
  by (auto simp: stored_def fun_eq_iff)

lemma drop_purgeable_Cons:
  assumes "keys_inj I (b # bs)"
  shows "drop_purgeable I (stored I (b # bs)) =
    (if is_live I (fst b) \<and> \<not> isPurgeable I (snd b) then (drop_purgeable I (stored I bs))(fst b \<mapsto> snd b)
     else drop_purgeable I (stored I bs))"
  using keys_inj_Cons(2) [OF assms] drop_purgeable_None [of "stored I bs" "fst b" I]
  by (auto simp: stored_Cons drop_purgeable_upd fun_eq_iff)

lemma move_loop_ok:
  assumes l: "lawful_key I" and s: "plain_setter sne"
  shows "new_table I t \<Longrightarrow> keys_inj I old \<Longrightarrow> \<forall>b \<in> set old. is_live I (fst b) \<longrightarrow> stored I (Buckets t) (fst b) = None \<Longrightarrow>
    live_count I (Buckets t) + live_count I old < length (Buckets t) \<Longrightarrow> length (Buckets t) \<le> 2 ^ 31 \<Longrightarrow>
    \<exists>bs n. move_loop sne I old t = Some (t\<lparr>Buckets := bs, NumEntries := n\<rparr>) \<and>
      new_table I (t\<lparr>Buckets := bs, NumEntries := n\<rparr>) \<and> live_count I bs \<le> live_count I (Buckets t) + live_count I old \<and>
      drop_purgeable I (stored I bs) = drop_purgeable I (stored I (Buckets t)) ++ drop_purgeable I (stored I old)"
proof (induction old arbitrary: t)
  case Nil
  have "drop_purgeable I (stored I []) = Map.empty" by (auto simp: drop_purgeable_def stored_def fun_eq_iff)
  then show ?case using Nil by (intro exI [of _ "Buckets t"] exI [of _ "NumEntries t"]) simp
next
  case (Cons B old)
  obtain k v where B: "B = (k, v)" by (cases B)
  note inj = keys_inj_Cons [OF Cons.prems(2)]
  note dp = drop_purgeable_Cons [OF Cons.prems(2)]
  have lc: "live_count I (B # old) = of_bool (is_live I k) + live_count I old" by (simp add: live_count_def B)
  show ?case
  proof (cases "is_live I k \<and> \<not> isPurgeable I v")
    case False
    then have "move_loop sne I (B # old) t = move_loop sne I old t" "drop_purgeable I (stored I (B # old)) = drop_purgeable I (stored I old)"
      unfolding dp using B by auto
    then show ?thesis using Cons.IH [OF Cons.prems(1) inj(1) _ _ Cons.prems(5)] Cons.prems(3,4) lc by (fastforce simp: B)
  next
    case True
    then have none: "stored I (Buckets t) k = None" using Cons.prems(3) B by simp
    obtain j t' where t': "LookupBucketFor I t k = Some (False, Some j)"
        "sne (NumEntries t + 1) (t\<lparr>Buckets := (Buckets t)[j := (k, v)]\<rparr>) = Some t'"
        "t' = t\<lparr>Buckets := (Buckets t)[j := (k, v)], NumEntries := NumEntries t + 1\<rparr>" "new_table I t'"
        "live_count I (Buckets t') = live_count I (Buckets t) + 1"
        "stored I (Buckets t') = (stored I (Buckets t))(k \<mapsto> v)"
      using move_one [OF l s Cons.prems(1) _ none, of v] True Cons.prems(4,5) lc by auto
    have len: "length (Buckets t') = length (Buckets t)" using t'(3) by simp
    have "\<forall>b \<in> set old. is_live I (fst b) \<longrightarrow> stored I (Buckets t') (fst b) = None"
    proof (intro ballI impI)
      fix b assume "b \<in> set old" "is_live I (fst b)"
      moreover from this have "fst b \<noteq> k" using inj(2) B True by (auto simp: stored_def map_of_eq_None_iff)
      ultimately show "stored I (Buckets t') (fst b) = None" using Cons.prems(3) t'(6) by simp
    qed
    then obtain bs n where r: "move_loop sne I old t' = Some (t'\<lparr>Buckets := bs, NumEntries := n\<rparr>)"
        "new_table I (t'\<lparr>Buckets := bs, NumEntries := n\<rparr>)" "live_count I bs \<le> live_count I (Buckets t') + live_count I old"
        "drop_purgeable I (stored I bs) = drop_purgeable I (stored I (Buckets t')) ++ drop_purgeable I (stored I old)"
      using Cons.IH [OF t'(4) inj(1)] Cons.prems(4,5) lc len t'(5) True by auto
    have "k \<notin> dom (drop_purgeable I (stored I old))" using inj(2) B True by (simp add: dom_def drop_purgeable_None)
    then have "drop_purgeable I (stored I bs) = drop_purgeable I (stored I (Buckets t)) ++ drop_purgeable I (stored I (B # old))"
      unfolding r(4) t'(6) dp drop_purgeable_upd using True B by (simp add: map_add_upd_left)
    moreover have "move_loop sne I (B # old) t = Some (t\<lparr>Buckets := bs, NumEntries := n\<rparr>)"
      using True t'(1,2,3) r(1) B by (simp add: assert_opt_def)
    ultimately show ?thesis using r(2,3) t'(3,5) lc True by (intro exI [of _ bs] exI [of _ n]) auto
  qed
qed

lemma live_count_0: "live_count I bs = 0 \<longleftrightarrow> stored I bs = Map.empty"
  by (auto simp: live_count_def filter_empty_conv stored_def fun_eq_iff map_of_eq_None_iff)

lemma map_empty_keys:
  assumes "lawful_key I"
  shows "live_count I (map (\<lambda>b. (getEmptyKey I, snd b)) bs) = 0" "tomb_count I (map (\<lambda>b. (getEmptyKey I, snd b)) bs) = 0"
  using assms unfolding live_count_def tomb_count_def by (induction bs) (auto simp: is_live_def lawful_key_def)

lemma bs_ok_empty:
  assumes "lawful_key I" "bs = [] \<or> (\<exists>k. length bs = 2 ^ k)"
  shows "bs_ok I (map (\<lambda>b. (getEmptyKey I, snd b)) bs)"
proof -
  have "\<not> is_live I (fst (map (\<lambda>b. (getEmptyKey I, snd b)) bs ! i))" if "i < length bs" for i
    using that assms(1) by (simp add: live_iff)
  then show ?thesis using assms map_empty_keys [OF assms(1), of bs]
    unfolding bs_ok_def keys_inj_def by (auto simp: bs_ok_def)
qed

lemma initEmpty_ok:
  assumes l: "lawful_key I" and s: "plain_setter sne" and len: "length (Buckets t) = unat (NumBuckets t)"
    and pow: "NumBuckets t = 0 \<or> (\<exists>k. unat (NumBuckets t) = 2 ^ k)"
  shows "\<exists>bs. initEmpty sne I t = Some (t\<lparr>NumEntries := 0, NumTombstones := 0, Buckets := bs\<rparr>) \<and>
    dm_ok I (t\<lparr>NumEntries := 0, NumTombstones := 0, Buckets := bs\<rparr>) \<and> live_count I bs = 0 \<and> no_zeros I bs"
proof -
  let ?bs = "map (\<lambda>b. (getEmptyKey I, snd b)) (Buckets t)"
  have and0: "NumBuckets t AND (NumBuckets t - 1) = 0"
    using pow
  proof
    assume "\<exists>k. unat (NumBuckets t) = 2 ^ k"
    then show ?thesis using unat_and_pow2 [of "NumBuckets t"] by (auto simp: unat_eq_zero [symmetric])
  qed simp
  have "initEmpty sne I t = Some (t\<lparr>NumEntries := 0, NumTombstones := 0, Buckets := ?bs\<rparr>)"
    using plain_setterD [OF s, of 0 t] and0 by (simp add: initEmpty_def assert_opt_def)
  moreover have "bs_ok I ?bs" using len pow by (intro bs_ok_empty [OF l]) auto
  moreover have "no_zeros I ?bs" by (simp add: no_zeros_def live_iff [OF l])
  ultimately show ?thesis
    using len map_empty_keys [OF l, of "Buckets t"] by (intro exI [of _ ?bs]) (simp add: dm_ok_def)
qed

definition same_shape :: "('k, 'v, 'z) table_scheme \<Rightarrow> ('k, 'v, 'z) table_scheme \<Rightarrow> bool" where
  "same_shape t t' \<longleftrightarrow> NumBuckets t' = NumBuckets t \<and> table.more t' = table.more t"

lemma same_shape_simps [simp]:
  "same_shape t (t\<lparr>Buckets := bs\<rparr>)" "same_shape t (t\<lparr>NumEntries := n\<rparr>)" "same_shape t (t\<lparr>NumTombstones := n\<rparr>)"
  "same_shape t t"
  by (simp_all add: same_shape_def)

lemma same_shape_trans [trans]: "same_shape t u \<Longrightarrow> same_shape u w \<Longrightarrow> same_shape t w"
  by (simp add: same_shape_def)

lemma moveFromOldBuckets_ok:
  assumes l: "lawful_key I" and s: "plain_setter sne" and len: "length (Buckets t) = unat (NumBuckets t)"
    and pow: "unat (NumBuckets t) = 2 ^ k" and old: "keys_inj I old" and room: "live_count I old < length (Buckets t)"
    and small: "length (Buckets t) \<le> 2 ^ 31"
  shows "\<exists>t'. moveFromOldBuckets sne I old t = Some t' \<and> new_table I t' \<and> same_shape t t' \<and>
    live_count I (Buckets t') \<le> live_count I old \<and>
    dm_map I t' = drop_purgeable I (stored I old)"
proof -
  obtain bs where bs: "initEmpty sne I t = Some (t\<lparr>NumEntries := 0, NumTombstones := 0, Buckets := bs\<rparr>)"
      "dm_ok I (t\<lparr>NumEntries := 0, NumTombstones := 0, Buckets := bs\<rparr>)" "live_count I bs = 0" "no_zeros I bs"
    using initEmpty_ok [OF l s len] pow by blast
  let ?t = "t\<lparr>NumEntries := 0, NumTombstones := 0, Buckets := bs\<rparr>"
  have nt: "new_table I ?t" using bs pow by (auto simp: new_table_def)
  have st: "stored I bs = Map.empty" using bs(3) by (simp add: live_count_0)
  have len': "length bs = length (Buckets t)" using bs(2) len by (simp add: dm_ok_def)
  obtain bs' n where r: "move_loop sne I old ?t = Some (?t\<lparr>Buckets := bs', NumEntries := n\<rparr>)"
      "new_table I (?t\<lparr>Buckets := bs', NumEntries := n\<rparr>)" "live_count I bs' \<le> live_count I old"
      "drop_purgeable I (stored I bs') = drop_purgeable I Map.empty ++ drop_purgeable I (stored I old)"
    using move_loop_ok [OF l s nt old] bs(3) room small st len' by auto
  have "drop_purgeable I Map.empty = Map.empty" by (simp add: drop_purgeable_def fun_eq_iff)
  then show ?thesis
    using r bs(1) by (intro exI [of _ "?t\<lparr>Buckets := bs', NumEntries := n\<rparr>"])
      (simp add: moveFromOldBuckets_def dm_map_def same_shape_def)
qed

lemma new_table_stored:
  assumes "new_table I t"
  shows "stored I (Buckets t) = dm_map I t"
proof
  fix k
  have inj: "keys_inj I (Buckets t)" and nz: "no_zeros I (Buckets t)"
    using assms by (auto simp: new_table_def dm_ok_def bs_ok_def)
  show "stored I (Buckets t) k = dm_map I t k"
  proof (cases "stored I (Buckets t) k")
    case (Some v)
    then obtain i where "is_live I k" "i < length (Buckets t)" "Buckets t ! i = (k, v)" using stored_iff [OF inj] by blast
    then have "\<not> isPurgeable I v" using nz unfolding no_zeros_def by (metis fst_conv snd_conv)
    then show ?thesis using Some by (simp add: dm_map_def drop_purgeable_def)
  qed (simp add: dm_map_def drop_purgeable_def)
qed

lemma drop_purgeable_le: "drop_purgeable I m \<subseteq>\<^sub>m m"
  by (auto simp: map_le_def drop_purgeable_def split: option.splits if_splits)

section \<open>The contract of a derived class\<close>

text \<open>
  What \<open>DenseMapBase\<close> relies on: growing to at least \<open>a\<close> buckets keeps the entries that may
  not be purged, adds none and leaves room; shrinking leaves an empty table; and the number
  of entries can be set. \<open>own\<close> is the invariant of the derived class.
\<close>

definition grow_law ::
  "('k, 'v, 'y) map_info_scheme \<Rightarrow> (('k, 'v, 'z) table_scheme \<Rightarrow> bool) \<Rightarrow>
   u32 \<Rightarrow> ('k, 'v, 'z) table_scheme \<Rightarrow> ('k, 'v, 'z) table_scheme \<Rightarrow> bool" where
  "grow_law I own a t t' \<longleftrightarrow>
     dm_ok I t' \<and> own t' \<and> dm_map I t' = dm_map I t \<and> stored I (Buckets t') \<subseteq>\<^sub>m stored I (Buckets t) \<and>
     NumEntries t' \<le> NumEntries t \<and> a \<le> NumBuckets t' \<and> 2 \<le> NumBuckets t' \<and>
     (NumBuckets t \<le> a \<longrightarrow> NumTombstones t' = 0)"

locale dense_map_impl =
  fixes D :: "('k, 'v, 'z) derived" and I :: "('k, 'v, 'y) map_info_scheme"
    and own :: "('k, 'v, 'z) table_scheme \<Rightarrow> bool"
  assumes lawful: "lawful_key I"
    and setter: "plain_setter (setNumEntries D)"
    and frame: "same_shape t t' \<Longrightarrow> own t \<Longrightarrow> own t'"
    and grow_ok: "dm_ok I t \<Longrightarrow> own t \<Longrightarrow> NumEntries t < a \<or> NumBuckets t = 0 \<and> a = 0 \<Longrightarrow> unat a \<le> 2 ^ 30 \<Longrightarrow>
      \<exists>t'. grow D a t = Some t' \<and> grow_law I own a t t'"
    and shrink_ok: "dm_ok I t \<Longrightarrow> own t \<Longrightarrow> unat (NumBuckets t) \<le> 2 ^ 30 \<Longrightarrow>
      NumEntries t = 0 \<or> unat (NumEntries t) * 4 < unat (NumBuckets t) \<Longrightarrow>
      \<exists>t'. shrink_and_clear D t = Some t' \<and> dm_ok I t' \<and> own t' \<and> stored I (Buckets t') = Map.empty"
begin

lemma make_room:
  assumes ok: "dm_ok I t" "own t" and small: "unat (NumBuckets t) \<le> 2 ^ 29" and k: "is_live I k"
    "stored I (Buckets t) k = None" and a: "a = NumBuckets t * 2 \<or> a = NumBuckets t \<and> (NumEntries t + 1) * 4 < NumBuckets t * 3"
  shows "\<exists>t'. grow D a t = Some t' \<and> dm_ok I t' \<and> own t' \<and> dm_map I t' = dm_map I t \<and>
    stored I (Buckets t') k = None \<and> NumBuckets t' \<noteq> 0 \<and> NumEntries t' \<le> NumEntries t \<and>
    live_count I (Buckets t') + tomb_count I (Buckets t') + 1 < length (Buckets t')"
proof -
  let ?n = "unat (NumBuckets t)" let ?e = "unat (NumEntries t)"
  have e: "?e < ?n \<or> ?n = 0 \<and> ?e = 0" using ok(1) by (auto simp: dm_ok_def bs_ok_def live_count_def)
  have "unat (NumBuckets t * 2) = ?n * 2" using small by (simp add: unat_word_ariths)
  moreover have "unat ((NumEntries t + 1) * 4) = (?e + 1) * 4" "unat (NumBuckets t * 3) = ?n * 3"
    using e small by (auto simp: unat_word_ariths)
  ultimately have ua: "unat a = ?n * 2 \<or> unat a = ?n \<and> (?e + 1) * 4 < ?n * 3"
    using a by (auto simp: word_less_nat_alt)
  then have pre: "NumEntries t < a \<or> NumBuckets t = 0 \<and> a = 0" and ub: "unat a \<le> 2 ^ 30"
    using e small by (auto simp: word_less_nat_alt unat_eq_zero)
  obtain t' where t': "grow D a t = Some t'" "grow_law I own a t t'" using grow_ok [OF ok pre ub] by blast
  have le: "unat (NumEntries t') \<le> ?e" "unat a \<le> unat (NumBuckets t')" "2 \<le> unat (NumBuckets t')"
      "NumBuckets t \<le> a \<longrightarrow> NumTombstones t' = 0" "dm_ok I t'"
    using t'(2) by (auto simp: grow_law_def word_le_nat_alt)
  have "NumTombstones t' = 0" using le(4) ua by (auto simp: word_le_nat_alt)
  then have "live_count I (Buckets t') + tomb_count I (Buckets t') + 1 < length (Buckets t')"
    using le e ua by (auto simp: dm_ok_def)
  moreover have "stored I (Buckets t') k = None"
    using t'(2) k(2) unfolding grow_law_def by (metis domIff map_le_implies_dom_le subsetD)
  ultimately show ?thesis using t' le(3) by (intro exI [of _ t']) (auto simp: grow_law_def)
qed

lemma fill_slot:
  assumes ok: "dm_ok I t" "own t" and k: "is_live I k" "stored I (Buckets t) k = None"
    and j: "j < length (Buckets t)" "placed I (Buckets t) k j" "reusable I (Buckets t ! j)"
    and room: "fst (Buckets t ! j) = getEmptyKey I \<Longrightarrow> live_count I (Buckets t) + tomb_count I (Buckets t) + 1 < length (Buckets t)"
    and small: "unat (NumEntries t) < 2 ^ 30"
  shows "\<exists>t'. count_bucket D I j t = Some t' \<and>
     Buckets t' = Buckets t \<and> same_shape t t' \<and> dm_ok I (t'\<lparr>Buckets := (Buckets t)[j := (k, v)]\<rparr>)"
proof -
  let ?bs = "Buckets t" let ?bs' = "(Buckets t)[j := (k, v)]"
  have bok: "bs_ok I ?bs'" using bs_put(1) [OF lawful _ j k room] ok by (simp add: dm_ok_def)
  note c = counts_update [OF j(1), of I "(k, v)"]
  have n: "unat (NumEntries t + 1) = unat (NumEntries t) + 1" using small by (intro unat_Suc) simp
  then have set: "setNumEntries D (NumEntries t + 1) t = Some (t\<lparr>NumEntries := NumEntries t + 1\<rparr>)"
    using plain_setterD [OF setter] small by simp
  consider "fst (?bs ! j) = getEmptyKey I" | "fst (?bs ! j) = getTombstoneKey I" | "is_live I (fst (?bs ! j))"
    using live_iff [OF lawful] by blast
  then show ?thesis
  proof cases
    case 1
    then show ?thesis unfolding count_bucket_def using set c n ok bok k lawful
      by (auto simp: isEqual_eq live_iff dm_ok_def lawful_key_def)
  next
    case 2
    moreover have "0 < tomb_count I ?bs" using c(2) 2 k lawful by (auto simp: isEqual_eq live_iff)
    ultimately show ?thesis unfolding count_bucket_def using set c n ok bok k lawful
      by (auto simp: isEqual_eq live_iff dm_ok_def lawful_key_def unat_pred same_shape_def)
  next
    case 3
    then show ?thesis unfolding count_bucket_def using j(3) c ok bok k lawful
      by (auto simp: isEqual_eq live_iff dm_ok_def lawful_key_def reusable_def assert_opt_def)
  qed
qed

lemma LookupBucketFor_cases:
  assumes "dm_ok I t" "is_live I k"
  shows "(\<exists>i < length (Buckets t). LookupBucketFor I t k = Some (True, Some i) \<and> fst (Buckets t ! i) = k \<and>
      stored I (Buckets t) k = Some (snd (Buckets t ! i))) \<or>
    (\<exists>b. LookupBucketFor I t k = Some (False, b) \<and> stored I (Buckets t) k = None)"
proof (cases "stored I (Buckets t) k")
  case None
  then show ?thesis
    using LookupBucketFor_absent [OF lawful assms(1) _ None assms(2)]
    by (cases "NumBuckets t = 0") (auto simp: LookupBucketFor_def)
next
  case (Some v)
  then obtain i where "i < length (Buckets t)" "Buckets t ! i = (k, v)"
    using stored_iff [of I "Buckets t" k v] assms(1) by (auto simp: dm_ok_def bs_ok_def)
  then show ?thesis using LookupBucketFor_found [OF lawful assms(1) _ _ assms(2), of i] Some by force
qed

lemma room_for_ok:
  assumes ok: "dm_ok I t" "own t" and small: "unat (NumBuckets t) \<le> 2 ^ 29"
    and k: "is_live I k" "stored I (Buckets t) k = None" and b: "LookupBucketFor I t k = Some (f, b)"
  shows "\<exists>j t'. room_for D I k b t = Some (Some j, t') \<and> dm_ok I t' \<and> own t' \<and> dm_map I t' = dm_map I t \<and>
    stored I (Buckets t') k = None \<and> unat (NumEntries t') < 2 ^ 30 \<and> j < length (Buckets t') \<and>
    placed I (Buckets t') k j \<and> reusable I (Buckets t' ! j) \<and>
    live_count I (Buckets t') + tomb_count I (Buckets t') + 1 < length (Buckets t')"
proof -
  let ?n = "unat (NumBuckets t)" let ?e = "unat (NumEntries t)" let ?z = "unat (NumTombstones t)"
  have e: "?e + ?z < ?n \<or> ?n = 0 \<and> ?e = 0 \<and> ?z = 0" using ok(1)
    by (auto simp: dm_ok_def bs_ok_def live_count_def tomb_count_def)
  have grown: "\<exists>j t'. do { t \<leftarrow> grow D a t; (found, b) \<leftarrow> LookupBucketFor I t k; Some (b, t) } = Some (Some j, t') \<and>
    dm_ok I t' \<and> own t' \<and> dm_map I t' = dm_map I t \<and>
    stored I (Buckets t') k = None \<and> unat (NumEntries t') < 2 ^ 30 \<and> j < length (Buckets t') \<and>
    placed I (Buckets t') k j \<and> reusable I (Buckets t' ! j) \<and>
    live_count I (Buckets t') + tomb_count I (Buckets t') + 1 < length (Buckets t')"
    if a: "a = NumBuckets t * 2 \<or> a = NumBuckets t \<and> (NumEntries t + 1) * 4 < NumBuckets t * 3" for a
  proof -
    obtain t' where t': "grow D a t = Some t'" "dm_ok I t'" "own t'" "dm_map I t' = dm_map I t"
        "stored I (Buckets t') k = None" "NumBuckets t' \<noteq> 0" "NumEntries t' \<le> NumEntries t"
        "live_count I (Buckets t') + tomb_count I (Buckets t') + 1 < length (Buckets t')"
      using make_room [OF ok small k a] by blast
    moreover obtain j where "j < length (Buckets t')" "LookupBucketFor I t' k = Some (False, Some j)"
        "placed I (Buckets t') k j" "reusable I (Buckets t' ! j)"
      using LookupBucketFor_absent [OF lawful t'(2,6,5) k(1)] by blast
    moreover have "unat (NumEntries t') < 2 ^ 30" using t'(7) e small by (auto simp: word_le_nat_alt)
    ultimately show ?thesis by (intro exI [of _ j] exI [of _ t']) simp
  qed
  consider "(NumEntries t + 1) * 4 \<ge> NumBuckets t * 3"
    | "(NumEntries t + 1) * 4 < NumBuckets t * 3" "NumBuckets t - (NumEntries t + 1 + NumTombstones t) \<le> NumBuckets t div 8"
    | "(NumEntries t + 1) * 4 < NumBuckets t * 3" "NumBuckets t - (NumEntries t + 1 + NumTombstones t) > NumBuckets t div 8"
    by (meson not_le)
  then show ?thesis
  proof cases
    case 1
    show ?thesis unfolding room_for_def if_P [OF 1] using grown [of "NumBuckets t * 2"] by blast
  next
    case 2
    show ?thesis unfolding room_for_def if_not_P [OF 2(1) [folded not_le]] if_P [OF 2(2)]
      using grown [of "NumBuckets t"] 2(1) by blast
  next
    case 3
    from 3 have N: "NumBuckets t \<noteq> 0" by auto
    then have n: "?n \<noteq> 0" by (simp add: unat_eq_zero)
    have s: "unat (NumEntries t + 1 + NumTombstones t) = ?e + 1 + ?z" using e n small by (auto simp: unat_word_ariths)
    have "NumEntries t + 1 + NumTombstones t \<noteq> NumBuckets t" using 3(2) by auto
    then have "unat (NumEntries t + 1 + NumTombstones t) \<noteq> ?n" using unsigned_word_eqI by blast
    then have "?e + 1 + ?z < ?n" using s e n by linarith
    moreover obtain j where "j < length (Buckets t)" "LookupBucketFor I t k = Some (False, Some j)"
        "placed I (Buckets t) k j" "reusable I (Buckets t ! j)"
      using LookupBucketFor_absent [OF lawful ok(1) N k(2,1)] by blast
    ultimately show ?thesis
      unfolding room_for_def if_not_P [OF 3(1) [folded not_le]] if_not_P [OF 3(2) [folded not_le]]
      using ok k b small e by (intro exI [of _ j] exI [of _ t]) (simp add: dm_ok_def)
  qed
qed

lemma InsertIntoBucket_ok:
  assumes ok: "dm_ok I t" "own t" and small: "unat (NumBuckets t) \<le> 2 ^ 29"
    and k: "is_live I k" "stored I (Buckets t) k = None" and b: "LookupBucketFor I t k = Some (f, b)"
  shows "\<exists>i t'. InsertIntoBucket D I b k v t = Some (i, t') \<and> dm_ok I t' \<and> own t' \<and> i < length (Buckets t') \<and>
    Buckets t' ! i = (k, v) \<and> dm_map I t' = (dm_map I t)(k := if isPurgeable I v then None else Some v) \<and>
    stored I (Buckets t') k = Some v"
proof -
  obtain j t1 where t1: "room_for D I k b t = Some (Some j, t1)" "dm_ok I t1" "own t1" "dm_map I t1 = dm_map I t"
      "stored I (Buckets t1) k = None" "unat (NumEntries t1) < 2 ^ 30" "j < length (Buckets t1)"
      "placed I (Buckets t1) k j" "reusable I (Buckets t1 ! j)"
      "live_count I (Buckets t1) + tomb_count I (Buckets t1) + 1 < length (Buckets t1)"
    using room_for_ok [OF assms] by blast
  obtain t2 where t2: "count_bucket D I j t1 = Some t2"
     "Buckets t2 = Buckets t1" "same_shape t1 t2" "dm_ok I (t2\<lparr>Buckets := (Buckets t1)[j := (k, v)]\<rparr>)"
    using fill_slot [OF t1(2,3) k(1) t1(5,7,8,9) t1(10) t1(6), of v] by blast
  let ?t' = "t2\<lparr>Buckets := (Buckets t1)[j := (k, v)]\<rparr>"
  have put: "drop_purgeable I (stored I ((Buckets t1)[j := (k, v)])) = (dm_map I t1)(k := if isPurgeable I v then None else Some v)"
      "stored I ((Buckets t1)[j := (k, v)]) k = Some v"
    using bs_put(2,3) [OF lawful _ t1(7,8,9) k(1) t1(5) t1(10)] t1(2) by (auto simp: dm_ok_def dm_map_def)
  have "InsertIntoBucketImpl D I k b t = Some (j, t2)"
    using t1(1) t2(1) by (simp add: InsertIntoBucketImpl_def)
  then have "InsertIntoBucket D I b k v t = Some (j, ?t')" using t2(2) by (simp add: InsertIntoBucket_def)
  moreover have "own ?t'" using frame [OF same_shape_trans [OF t2(3)] t1(3)] by simp
  ultimately show ?thesis
    using t2(4) put t1(4,7) t2(2) by (intro exI [of _ j] exI [of _ ?t']) (simp add: dm_map_def)
qed

lemma lookup_ok:
  assumes "dm_ok I t" "is_live I k"
  shows "lookup I t k = Some (case stored I (Buckets t) k of Some v \<Rightarrow> v | None \<Rightarrow> default_value I)"
  using LookupBucketFor_cases [OF assms] by (auto simp: lookup_def)

lemma find_ok:
  assumes "dm_ok I t" "is_live I k"
  shows "\<exists>it. dm_find I t k = Some it \<and>
    (case stored I (Buckets t) k of Some v \<Rightarrow> \<not> iter_eq it (dm_end t) \<and> iter_deref t it = (k, v) | None \<Rightarrow> iter_eq it (dm_end t))"
  using LookupBucketFor_cases [OF assms] assms(1)
  by (auto simp: dm_find_def makeIterator_def iter_deref_def iter_eq_def dm_end_def dm_ok_def prod_eq_iff)

lemma try_emplace_ok:
  assumes ok: "dm_ok I t" "own t" and small: "unat (NumBuckets t) \<le> 2 ^ 29" and k: "is_live I k"
  shows "\<exists>it t'. try_emplace D I k v t = Some ((it, stored I (Buckets t) k = None), t') \<and> dm_ok I t' \<and> own t' \<and>
    (case stored I (Buckets t) k of
       Some w \<Rightarrow> t' = t \<and> iter_deref t' it = (k, w)
     | None \<Rightarrow> iter_deref t' it = (k, v) \<and> dm_map I t' = (dm_map I t)(k := if isPurgeable I v then None else Some v))"
proof (cases "stored I (Buckets t) k")
  case None
  then obtain b where b: "LookupBucketFor I t k = Some (False, b)" using LookupBucketFor_cases [OF ok(1) k] by auto
  show ?thesis using InsertIntoBucket_ok [OF ok small k None b, of v] None b
    by (auto simp: try_emplace_def makeIterator_def iter_deref_def)
next
  case (Some w)
  then show ?thesis using LookupBucketFor_cases [OF ok(1) k] ok
    by (auto simp: try_emplace_def makeIterator_def iter_deref_def prod_eq_iff)
qed

lemma FindAndConstruct_ok:
  assumes ok: "dm_ok I t" "own t" and small: "unat (NumBuckets t) \<le> 2 ^ 29" and k: "is_live I k"
  shows "\<exists>i t' w. FindAndConstruct D I k t = Some (i, t') \<and> dm_ok I t' \<and> own t' \<and> i < length (Buckets t') \<and>
    Buckets t' ! i = (k, w) \<and> w = (case stored I (Buckets t) k of Some v \<Rightarrow> v | None \<Rightarrow> default_value I) \<and>
    dm_map I t' = (dm_map I t)(k := if isPurgeable I w then None else Some w)"
proof (cases "stored I (Buckets t) k")
  case None
  then obtain b where b: "LookupBucketFor I t k = Some (False, b)" using LookupBucketFor_cases [OF ok(1) k] by auto
  show ?thesis using InsertIntoBucket_ok [OF ok small k None b, of "default_value I"] None b
    by (auto simp: FindAndConstruct_def)
next
  case (Some w)
  then obtain i where i: "i < length (Buckets t)" "LookupBucketFor I t k = Some (True, Some i)" "Buckets t ! i = (k, w)"
    using LookupBucketFor_cases [OF ok(1) k] by (auto simp: prod_eq_iff)
  have "dm_map I t = (dm_map I t)(k := if isPurgeable I w then None else Some w)"
    using Some by (auto simp: dm_map_def drop_purgeable_def fun_eq_iff)
  then show ?thesis using i ok Some by (intro exI [of _ i] exI [of _ t] exI [of _ w]) (simp add: FindAndConstruct_def)
qed

lemma index_set_ok:
  assumes "dm_ok I t" "own t" "unat (NumBuckets t) \<le> 2 ^ 29" and k: "is_live I k"
  shows "\<exists>t'. index_set D I k v t = Some t' \<and> dm_ok I t' \<and> own t' \<and>
    dm_map I t' = (dm_map I t)(k := if isPurgeable I v then None else Some v)"
proof -
  obtain i t1 w where t1: "FindAndConstruct D I k t = Some (i, t1)" "dm_ok I t1" "own t1" "i < length (Buckets t1)"
      "Buckets t1 ! i = (k, w)" "dm_map I t1 = (dm_map I t)(k := if isPurgeable I w then None else Some w)"
    using FindAndConstruct_ok [OF assms] by blast
  let ?t' = "t1\<lparr>Buckets := (Buckets t1)[i := (k, v)]\<rparr>"
  have bok: "bs_ok I (Buckets t1)" using t1(2) by (simp add: dm_ok_def)
  then have inj: "keys_inj I (Buckets t1)" by (simp add: bs_ok_def)
  have new: "\<forall>j < length (Buckets t1). j \<noteq> i \<longrightarrow> fst (Buckets t1 ! j) \<noteq> k"
    using inj t1(4,5) k unfolding keys_inj_def by (metis fst_conv)
  have pl: "placed I (Buckets t1) k i" using bok t1(4,5) k unfolding bs_ok_def by (metis fst_conv)
  have c: "live_count I ((Buckets t1)[i := (k, v)]) = live_count I (Buckets t1)"
      "tomb_count I ((Buckets t1)[i := (k, v)]) = tomb_count I (Buckets t1)"
    using counts_update [OF t1(4), of I "(k, v)"] t1(5) k by (auto simp: is_live_def)
  have "bs_ok I ((Buckets t1)[i := (k, v)])"
    using new pl c k bs_ok_full [OF bok t1(4)]
    by (intro bs_ok_update [OF bok t1(4)]) (auto simp: live_iff [OF lawful])
  then have "dm_ok I ?t'" using t1(2) c by (simp add: dm_ok_def)
  moreover have "dm_map I ?t' = (dm_map I t)(k := if isPurgeable I v then None else Some v)"
  proof -
    have "stored I ((Buckets t1)[i := (k, v)]) = (stored I (Buckets t1))(k \<mapsto> v)"
      using stored_update [OF inj t1(4), of "(k, v)"] new t1(5) k by simp
    then show ?thesis using t1(6) unfolding dm_map_def by (simp add: drop_purgeable_upd)
  qed
  ultimately show ?thesis
    using t1(1,5) frame [OF _ t1(3), of ?t'] by (intro exI [of _ ?t']) (simp add: index_set_def)
qed

lemma erase_bucket_ok:
  assumes ok: "dm_ok I t" "own t" and small: "unat (NumBuckets t) \<le> 2 ^ 30"
    and i: "i < length (Buckets t)" "fst (Buckets t ! i) = k" "is_live I k"
  shows "\<exists>t'. erase_bucket D I i t = Some t' \<and> dm_ok I t' \<and> own t' \<and> dm_map I t' = (dm_map I t)(k := None)"
proof -
  define x where "x = (getTombstoneKey I, snd (Buckets t ! i))"
  let ?bs = "(Buckets t)[i := x]"
  have dead: "\<not> is_live I (fst x)" "fst x \<noteq> getEmptyKey I" "fst x = getTombstoneKey I" and tl: "k \<noteq> getTombstoneKey I"
    using lawful i(3) by (auto simp: x_def is_live_def lawful_key_def)
  have bok: "bs_ok I (Buckets t)" using ok by (simp add: dm_ok_def)
  have c: "live_count I ?bs + 1 = live_count I (Buckets t)" "tomb_count I ?bs = tomb_count I (Buckets t) + 1"
    using counts_update [OF i(1), of I x] dead i(2,3) tl by (auto simp: isEqual_eq [OF lawful])
  have bok': "bs_ok I ?bs"
    using c dead bs_ok_full [OF bok i(1)] by (intro bs_ok_update [OF bok i(1)]) auto
  have st: "stored I ?bs = (stored I (Buckets t))(k := None)"
    using stored_update [of I "Buckets t" i x] bok dead i by (simp add: bs_ok_def)
  define t1 where "t1 = t\<lparr>Buckets := ?bs, NumEntries := NumEntries t - 1, NumTombstones := NumTombstones t + 1\<rparr>"
  have e: "unat (NumEntries t - 1) = unat (NumEntries t) - 1" using c ok by (intro unat_pred) (auto simp: dm_ok_def)
  have lim: "live_count I (Buckets t) + tomb_count I (Buckets t) < 2 ^ 30" using bok ok small i(1) by (auto simp: bs_ok_def dm_ok_def)
  have z: "unat (NumTombstones t + 1) = unat (NumTombstones t) + 1" using lim ok by (intro unat_Suc) (auto simp: dm_ok_def)
  have t1: "dm_ok I t1" "own t1" using bok' ok c e z frame [of t t1] by (auto simp: dm_ok_def t1_def same_shape_def)
  have "setNumEntries D (NumEntries t - 1) (t\<lparr>Buckets := ?bs\<rparr>) = Some (t\<lparr>Buckets := ?bs, NumEntries := NumEntries t - 1\<rparr>)"
    using plain_setterD [OF setter] e lim ok by (simp add: dm_ok_def)
  then have "erase_bucket D I i t = dm_compact D t1" by (simp add: erase_bucket_def t1_def x_def Let_def)
  moreover have "dm_map I t1 = (dm_map I t)(k := None)" by (simp add: dm_map_def t1_def st drop_purgeable_upd)
  moreover have "\<exists>t'. dm_compact D t1 = Some t' \<and> dm_ok I t' \<and> own t' \<and> dm_map I t' = dm_map I t1"
  proof -
    consider "NumEntries t1 = 0" | "NumEntries t1 \<noteq> 0" "NumBuckets t1 div 16 > NumEntries t1 \<and> NumBuckets t1 > MIN_COMPACT"
      | "NumEntries t1 \<noteq> 0" "\<not> (NumBuckets t1 div 16 > NumEntries t1 \<and> NumBuckets t1 > MIN_COMPACT)" by blast
    then show ?thesis
    proof cases
      case 1
      then have "stored I (Buckets t1) = Map.empty" using t1(1) by (simp add: dm_ok_def live_count_0 [symmetric])
      then show ?thesis using shrink_ok [OF t1] small 1 by (auto simp: dm_compact_def dm_map_def t1_def)
    next
      case 2
      have "unat (NumEntries t1 * 2) = unat (NumEntries t1) * 2" "unat (NumEntries t1) * 2 \<le> 2 ^ 30"
      proof -
        have "unat (NumBuckets t1 div 16) = unat (NumBuckets t) div 16" by (simp add: unat_div t1_def)
        then have "unat (NumEntries t1) < 2 ^ 26"
          using 2(2) div_le_mono [OF small, of 16] by (simp add: word_less_nat_alt)
        then show "unat (NumEntries t1 * 2) = unat (NumEntries t1) * 2" "unat (NumEntries t1) * 2 \<le> 2 ^ 30"
          by (simp_all add: unat_word_ariths)
      qed
      moreover from this have "NumEntries t1 < NumEntries t1 * 2"
        using 2(1) unat_eq_zero [of "NumEntries t1"] unfolding word_less_nat_alt by linarith
      ultimately show ?thesis using grow_ok [OF t1, of "NumEntries t1 * 2"] 2 by (auto simp: dm_compact_def grow_law_def)
    next
      case 3
      then show ?thesis using t1 by (auto simp: dm_compact_def)
    qed
  qed
  ultimately show ?thesis by auto
qed

lemma erase_ok:
  assumes ok: "dm_ok I t" "own t" and small: "unat (NumBuckets t) \<le> 2 ^ 30" and k: "is_live I k"
  shows "\<exists>t'. dm_erase D I k t = Some (stored I (Buckets t) k \<noteq> None, t') \<and> dm_ok I t' \<and> own t' \<and>
    dm_map I t' = (dm_map I t)(k := None)"
  using LookupBucketFor_cases [OF ok(1) k]
proof (elim disjE exE conjE)
  fix i assume i: "i < length (Buckets t)" "LookupBucketFor I t k = Some (True, Some i)" "fst (Buckets t ! i) = k"
    "stored I (Buckets t) k = Some (snd (Buckets t ! i))"
  show ?thesis using erase_bucket_ok [OF ok small i(1,3) k] i by (auto simp: dm_erase_def)
next
  fix b assume b: "LookupBucketFor I t k = Some (False, b)" "stored I (Buckets t) k = None"
  have "(dm_map I t)(k := None) = dm_map I t" using b(2) by (auto simp: dm_map_def drop_purgeable_def)
  then show ?thesis using b ok by (simp add: dm_erase_def)
qed

lemma clear_ok:
  assumes ok: "dm_ok I t" "own t" and small: "unat (NumBuckets t) \<le> 2 ^ 30"
  shows "\<exists>t'. clear D I t = Some t' \<and> dm_ok I t' \<and> own t' \<and> stored I (Buckets t') = Map.empty"
proof -
  consider "NumEntries t = 0 \<and> NumTombstones t = 0"
    | "\<not> (NumEntries t = 0 \<and> NumTombstones t = 0)" "NumEntries t * 4 < NumBuckets t \<and> NumBuckets t > MIN_BUCKETS"
    | "\<not> (NumEntries t = 0 \<and> NumTombstones t = 0)" "\<not> (NumEntries t * 4 < NumBuckets t \<and> NumBuckets t > MIN_BUCKETS)"
    by blast
  then show ?thesis
  proof cases
    case 1
    then have "stored I (Buckets t) = Map.empty" using ok(1) by (simp add: dm_ok_def live_count_0 [symmetric])
    then show ?thesis using 1 ok by (auto simp: clear_def)
  next
    case 2
    have "unat (NumEntries t) < 2 ^ 30"
    proof (cases "Buckets t = []")
      case True
      then show ?thesis using ok(1) by (simp add: dm_ok_def live_count_def)
    next
      case False
      then have "0 < length (Buckets t)" by simp
      moreover have "bs_ok I (Buckets t)" using ok(1) by (simp add: dm_ok_def)
      ultimately have "live_count I (Buckets t) + tomb_count I (Buckets t) < length (Buckets t)" by (rule bs_ok_full [rotated])
      then show ?thesis using ok(1) small by (simp add: dm_ok_def)
    qed
    then have "unat (NumEntries t * 4) = unat (NumEntries t) * 4" by (simp add: unat_word_ariths)
    then have "unat (NumEntries t) * 4 < unat (NumBuckets t)" using 2(2) by (simp add: word_less_nat_alt)
    then show ?thesis unfolding clear_def if_not_P [OF 2(1)] if_P [OF 2(2)] using shrink_ok [OF ok small] by blast
  next
    case 3
    let ?bs = "map (\<lambda>b. (getEmptyKey I, snd b)) (Buckets t)"
    let ?t = "t\<lparr>Buckets := ?bs, NumEntries := 0, NumTombstones := 0\<rparr>"
    have n: "NumEntries t - of_nat (length (filter (\<lambda>b. is_live I (fst b)) (Buckets t))) = 0"
      using ok(1) unfolding dm_ok_def live_count_def by simp
    have "clear D I t = Some ?t"
      unfolding clear_def if_not_P [OF 3(1)] if_not_P [OF 3(2)] n
      using plain_setterD [OF setter, of 0] by (simp add: assert_opt_def Let_def)
    moreover have "bs_ok I (Buckets t)" using ok(1) by (simp add: dm_ok_def)
    then have "bs_ok I ?bs" by (intro bs_ok_empty [OF lawful]) (auto simp: bs_ok_def)
    moreover have "own ?t" using frame [OF _ ok(2)] by (simp add: same_shape_def)
    ultimately show ?thesis using ok(1) map_empty_keys [OF lawful, of "Buckets t"]
      by (intro exI [of _ ?t]) (simp add: dm_ok_def live_count_0 [symmetric])
  qed
qed

end

end
