(* ===== verification/DenseMapClass.thy ===== *)
theory DenseMapClass
  imports DenseMapLaws
begin

text \<open>
  The class \<open>DenseMap\<close> meets the contract of \<open>DenseMapBase\<close>, so the laws of the base class hold
  of it; and what they give for the whole life of a table.
\<close>

section \<open>\<open>DenseMap\<close> meets the contract\<close>

lemma unat_ucast_u64: "unat (ucast (x :: u32) :: u64) = unat x"
proof -
  have "unat x < 2 ^ 64" using unsigned_less [of x, where ?'a = nat] by simp
  then show ?thesis by (simp add: unsigned_ucast_eq take_bit_eq_mod)
qed

lemma unat_ucast_u32: "unat (ucast (x :: u64) :: u32) = unat x mod 2 ^ 32"
  by (simp add: unsigned_ucast_eq take_bit_eq_mod)

lemma NextPowerOf2_u32:
  assumes "0 < unat x" "unat x < 2 ^ 31"
  shows "\<exists>h. unat (ucast (NextPowerOf2 (ucast (x :: u32))) :: u32) = 2 ^ h \<and> unat x < 2 ^ h \<and> 2 ^ h \<le> 2 * unat x"
proof -
  have x: "unat (ucast x :: u64) = unat x" by (simp add: unat_ucast_u64)
  have "(ucast x :: u64) \<noteq> 0" using assms(1) x by auto
  then obtain h where h: "top_bit (ucast x :: u64) h" using top_bit_exists by blast
  have b: "2 ^ h \<le> unat x" "unat x < 2 ^ Suc h" using top_bit_bounds [OF h] x by auto
  have "(2 :: nat) ^ h < 2 ^ 31" using b assms(2) by linarith
  then have "h < 31" by (rule power_less_imp_less_exp [rotated]) simp
  then have p: "unat (push_bit (Suc h) 1 :: u64) = 2 ^ Suc h" "(2 :: nat) ^ Suc h < 2 ^ 32"
    by (intro unat_push_bit_1 power_strict_increasing; simp)+
  have "unat (ucast (push_bit (Suc h) 1 :: u64) :: u32) = 2 ^ Suc h"
    by (simp only: unat_ucast_u32 p(1) mod_less [OF p(2)])
  then show ?thesis using b unfolding NextPowerOf2_top [OF h] by (intro exI [of _ "Suc h"]) simp
qed

lemma grow_size:
  fixes a :: u32
  assumes "unat a \<le> 2 ^ 30"
  shows "\<exists>k. unat (max 4 (ucast (NextPowerOf2 (ucast (a - 1)))) :: u32) = 2 ^ k"
    "a \<le> max 4 (ucast (NextPowerOf2 (ucast (a - 1))))"
    "unat (max 4 (ucast (NextPowerOf2 (ucast (a - 1)))) :: u32) \<le> 2 ^ 31"
proof -
  let ?p = "ucast (NextPowerOf2 (ucast (a - 1))) :: u32"
  have "(\<exists>k. unat (max 4 ?p) = 2 ^ k) \<and> a \<le> max 4 ?p \<and> unat (max 4 ?p) \<le> 2 ^ 31"
  proof (cases "unat a \<le> 1")
    case True
    then have "unat a = unat (0 :: u32) \<or> unat a = unat (1 :: u32)" by auto
    then have "a = 0 \<or> a = 1" using unsigned_word_eqI by blast
    moreover have "(ucast (NextPowerOf2 (ucast (0 - 1 :: u32))) :: u32) = 0"
      "(ucast (NextPowerOf2 (ucast (1 - 1 :: u32))) :: u32) = 1" by code_simp+
    ultimately have "?p = 0 \<or> ?p = 1" by metis
    then have "max 4 ?p = 4" by (auto simp: max_absorb1 word_le_nat_alt)
    moreover have "unat (4 :: u32) = 2 ^ 2" "a \<le> 4" using True by (auto simp: word_le_nat_alt)
    ultimately show ?thesis by (intro conjI exI [of _ 2]) simp_all
  next
    case False
    then have a1: "unat (a - 1) = unat a - 1" by (intro unat_pred) simp
    obtain h where h: "unat ?p = 2 ^ h" "unat (a - 1) < 2 ^ h" "2 ^ h \<le> 2 * unat (a - 1)"
      using NextPowerOf2_u32 [of "a - 1"] False assms unfolding a1 by force
    have "\<exists>k. unat (max 4 ?p) = 2 ^ k"
    proof (cases "4 \<le> ?p")
      case True
      then show ?thesis using h(1) by (auto simp: max_absorb2)
    next
      case False
      then have "unat (max 4 ?p) = 2 ^ 2" by (simp add: max_absorb1)
      then show ?thesis by blast
    qed
    moreover have "unat a \<le> unat ?p" using h a1 False by linarith
    moreover have "unat ?p \<le> 2 ^ 31" using h(1,3) a1 assms by simp
    moreover have "unat (max 4 ?p) \<le> 2 ^ 31" using \<open>unat ?p \<le> 2 ^ 31\<close> by (simp add: max_def)
    moreover have "a \<le> max 4 ?p"
      by (rule max.coboundedI2) (use \<open>unat a \<le> unat ?p\<close> in \<open>simp add: word_le_nat_alt\<close>)
    ultimately show ?thesis by blast
  qed
  then show "\<exists>k. unat (max 4 ?p) = 2 ^ k" "a \<le> max 4 ?p" "unat (max 4 ?p) \<le> 2 ^ 31" by auto
qed

lemma DM_allocateBuckets_ok:
  assumes "lawful_map I"
  shows "\<exists>bs. DM_allocateBuckets I n t = Some (n \<noteq> 0, t\<lparr>NumBuckets := n, Buckets := bs\<rparr>) \<and> length bs = unat n"
proof -
  have "unat (sizeof_BucketT I) * unat (ucast n :: u64) < 2 ^ 64"
  proof -
    have "unat (sizeof_BucketT I) \<le> 2 ^ 16" using assms by (simp add: lawful_map_def)
    moreover have "unat (ucast n :: u64) \<le> 2 ^ 32"
      using unsigned_less [of n, where ?'a = nat] by (simp add: unat_ucast_u64)
    ultimately have "unat (sizeof_BucketT I) * unat (ucast n :: u64) \<le> 2 ^ 16 * 2 ^ 32" by (rule mult_le_mono)
    then show ?thesis by simp
  qed
  then show ?thesis using assms
    by (auto simp: DM_allocateBuckets_def alloc_overflow_def Let_def lawful_map_def)
qed

lemma DM_plain: "plain_setter DM_setNumEntries"
  by (simp add: plain_setter_def DM_setNumEntries_def)

lemma DM_grow_ok:
  assumes l: "lawful_map I" and ok: "dm_ok I t" and a: "NumEntries t < a \<or> NumBuckets t = 0 \<and> a = 0" "unat a \<le> 2 ^ 30"
  shows "\<exists>t'. DM_grow I a t = Some t' \<and> grow_law I (\<lambda>_. True) a t t'"
proof -
  define n :: u32 where "n = max 4 (ucast (NextPowerOf2 (ucast (a - 1))))"
  note key = lawful_map_key [OF l]
  have "4 \<le> n" by (simp add: n_def)
  then have n2: "n \<noteq> 0" "2 \<le> n" by (auto simp: word_le_nat_alt)
  obtain k where n: "unat n = 2 ^ k" "a \<le> n" "unat n \<le> 2 ^ 31" "n \<noteq> 0" "2 \<le> n"
    using grow_size [OF a(2)] n2 unfolding n_def [symmetric] by blast
  obtain bs where bs: "DM_allocateBuckets I n t = Some (True, t\<lparr>NumBuckets := n, Buckets := bs\<rparr>)" "length bs = unat n"
    using DM_allocateBuckets_ok [OF l, of n t] n(4) by auto
  let ?t = "t\<lparr>NumBuckets := n, Buckets := bs\<rparr>"
  have ne: "bs \<noteq> []" using bs(2) n(1) by auto
  show ?thesis
  proof (cases "Buckets t = []")
    case True
    then have "stored I (Buckets t) = Map.empty" by (auto simp: stored_def)
    moreover obtain bs' where "initEmpty DM_setNumEntries I ?t = Some (?t\<lparr>NumEntries := 0, NumTombstones := 0, Buckets := bs'\<rparr>)"
        "dm_ok I (?t\<lparr>NumEntries := 0, NumTombstones := 0, Buckets := bs'\<rparr>)" "live_count I bs' = 0"
      using initEmpty_ok [OF key DM_plain, of ?t] bs n by auto
    ultimately show ?thesis using True bs n ne
      by (auto simp: DM_grow_def n_def [symmetric] assert_opt_def grow_law_def dm_map_def live_count_0 word_le_nat_alt)
  next
    case False
    have "NumBuckets t \<noteq> 0" using False ok by (auto simp: dm_ok_def)
    then have "live_count I (Buckets t) < unat n" using a(1) n(2) ok by (auto simp: dm_ok_def word_less_nat_alt word_le_nat_alt)
    then have room: "live_count I (Buckets t) < length (Buckets ?t)" using bs(2) by simp
    have inj: "keys_inj I (Buckets t)" using ok by (simp add: dm_ok_def bs_ok_def)
    have len: "length (Buckets ?t) = unat (NumBuckets ?t)" "unat (NumBuckets ?t) = 2 ^ k" "length (Buckets ?t) \<le> 2 ^ 31"
      using bs(2) n(1,3) by simp_all
    obtain t' where t': "moveFromOldBuckets DM_setNumEntries I (Buckets t) ?t = Some t'" "new_table I t'" "same_shape ?t t'"
        "live_count I (Buckets t') \<le> live_count I (Buckets t)" "dm_map I t' = dm_map I t"
      using moveFromOldBuckets_ok [OF key DM_plain len(1,2) inj room len(3)] unfolding dm_map_def by blast
    have "stored I (Buckets t') \<subseteq>\<^sub>m stored I (Buckets t)"
      using drop_purgeable_le [of I "stored I (Buckets t)"] new_table_stored [OF t'(2)] t'(5) by (simp add: dm_map_def)
    moreover have "DM_grow I a t = Some t'" using False bs ne t'(1) by (simp add: DM_grow_def n_def [symmetric] assert_opt_def)
    ultimately show ?thesis using t' n ok
      by (auto simp: grow_law_def new_table_def dm_ok_def same_shape_def word_le_nat_alt)
  qed
qed

lemma getMinBucket_ok:
  assumes "n \<noteq> 0" "unat n \<le> 2 ^ 29"
  shows "\<exists>h. unat (getMinBucketToReserveForEntries n) = 2 ^ h \<and> unat n * 4 < 3 * 2 ^ h \<and> 2 ^ h \<le> 2 * (unat n * 4 div 3 + 1)"
proof -
  have q: "unat n * 4 div 3 < 2 ^ 30" using assms(2) by (intro less_mult_imp_div_less) simp
  have "unat (n * 4) = unat n * 4" using assms(2) by (simp add: unat_word_ariths)
  then have "unat (n * 4 div 3) = unat n * 4 div 3" by (simp add: unat_div)
  then have x: "unat (n * 4 div 3 + 1) = unat n * 4 div 3 + 1" using q by (simp add: unat_word_ariths)
  obtain h where "unat (ucast (NextPowerOf2 (ucast (n * 4 div 3 + 1))) :: u32) = 2 ^ h"
      "unat (n * 4 div 3 + 1) < 2 ^ h" "2 ^ h \<le> 2 * unat (n * 4 div 3 + 1)"
    using NextPowerOf2_u32 [of "n * 4 div 3 + 1"] x q by auto
  then show ?thesis using x assms(1) unfolding getMinBucketToReserveForEntries_def by (intro exI [of _ h]) auto
qed

lemma DM_init_ok:
  assumes l: "lawful_map I" and n: "unat n \<le> 2 ^ 29"
  shows "\<exists>t'. DM_init I n t = Some t' \<and> dm_ok I t' \<and> stored I (Buckets t') = Map.empty \<and> NumEntries t' = 0 \<and>
    NumTombstones t' = 0 \<and> NumBuckets t' = getMinBucketToReserveForEntries n"
proof -
  let ?m = "getMinBucketToReserveForEntries n"
  note key = lawful_map_key [OF l]
  obtain bs where bs: "DM_allocateBuckets I ?m t = Some (?m \<noteq> 0, t\<lparr>NumBuckets := ?m, Buckets := bs\<rparr>)" "length bs = unat ?m"
    using DM_allocateBuckets_ok [OF l] by blast
  let ?t = "t\<lparr>NumBuckets := ?m, Buckets := bs\<rparr>"
  show ?thesis
  proof (cases "n = 0")
    case True
    then have "?m = 0" "bs = []" using bs(2) by (auto simp: getMinBucketToReserveForEntries_def)
    then show ?thesis using bs(1)
      by (simp add: DM_init_def dm_ok_def bs_ok_def keys_inj_def live_count_def tomb_count_def stored_def fun_eq_iff)
  next
    case False
    then obtain h where h: "unat ?m = 2 ^ h" using getMinBucket_ok n by blast
    then have m0: "?m \<noteq> 0" by auto
    obtain bs' where "initEmpty DM_setNumEntries I ?t = Some (?t\<lparr>NumEntries := 0, NumTombstones := 0, Buckets := bs'\<rparr>)"
        "dm_ok I (?t\<lparr>NumEntries := 0, NumTombstones := 0, Buckets := bs'\<rparr>)" "live_count I bs' = 0"
      using initEmpty_ok [OF key DM_plain, of ?t] bs(2) h by auto
    then show ?thesis using bs(1) m0 by (simp add: DM_init_def live_count_0)
  qed
qed

lemma Log2_32_Ceil_small:
  assumes "unat x \<noteq> 0" "unat x \<le> 2 ^ 28"
  shows "unat (Log2_32_Ceil x + 1) \<le> 29"
proof (cases "x - 1 = 0")
  case True
  then show ?thesis by (simp add: Log2_32_Ceil_def CountLeadingZeros_32_def)
next
  case False
  have x1: "unat (x - 1) = unat x - 1" using assms(1) by (intro unat_pred) simp
  obtain h where h: "top_bit (x - 1) h" using top_bit_exists [OF False] by blast
  then have "2 ^ h \<le> unat (x - 1)" by (rule top_bit_bounds)
  then have "(2 :: nat) ^ h < 2 ^ 28" using x1 assms by linarith
  then have h28: "h < 28" by (rule power_less_imp_less_exp [rotated]) simp
  have "Log2_32_Ceil x = 32 - of_nat (31 - h)"
    using False builtin_clz_top [OF h] by (simp add: Log2_32_Ceil_def CountLeadingZeros_32_def)
  also have "\<dots> = of_nat (Suc h)" using h28 by (simp add: of_nat_diff)
  finally have "unat (Log2_32_Ceil x + 1) = unat (of_nat (Suc (Suc h)) :: u32)" by (simp add: add.commute)
  also have "\<dots> = Suc (Suc h)" using h28 by (simp add: unat_of_nat take_bit_eq_mod del: of_nat_Suc)
  finally show ?thesis using h28 by simp
qed

lemma DM_shrink_ok:
  assumes l: "lawful_map I" and ok: "dm_ok I t" and small: "unat (NumBuckets t) \<le> 2 ^ 30"
    and e: "NumEntries t = 0 \<or> unat (NumEntries t) * 4 < unat (NumBuckets t)"
  shows "\<exists>t'. DM_shrink_and_clear I t = Some t' \<and> dm_ok I t' \<and> stored I (Buckets t') = Map.empty"
proof -
  define m where "m = (if NumEntries t \<noteq> 0
        then max 4 (push_bit (unat (Log2_32_Ceil (NumEntries t) + 1)) 1) else (0 :: u32))"
  have m: "unat m \<le> 2 ^ 29"
  proof (cases "NumEntries t = 0")
    case False
    then have "unat (NumEntries t) \<noteq> 0" by (simp add: unat_eq_zero)
    then have L: "unat (Log2_32_Ceil (NumEntries t) + 1) \<le> 29" using e small by (intro Log2_32_Ceil_small) auto
    then have "unat (push_bit (unat (Log2_32_Ceil (NumEntries t) + 1)) 1 :: u32) = 2 ^ unat (Log2_32_Ceil (NumEntries t) + 1)"
      by (intro unat_push_bit_1) simp
    also have "\<dots> \<le> 2 ^ 29" using L by (intro power_increasing) auto
    finally show ?thesis using False unfolding m_def by (simp add: max_def)
  qed (simp add: m_def)
  have bok: "bs_ok I (Buckets t)" and len: "length (Buckets t) = unat (NumBuckets t)" using ok by (simp_all add: dm_ok_def)
  have pow: "NumBuckets t = 0 \<or> (\<exists>k. unat (NumBuckets t) = 2 ^ k)"
  proof (cases "Buckets t = []")
    case True
    then show ?thesis using len by (simp add: unat_eq_zero)
  next
    case False
    then show ?thesis using bs_ok_pow2 [OF bok] len by metis
  qed
  show ?thesis
  proof (cases "m = NumBuckets t")
    case True
    then have "DM_shrink_and_clear I t = initEmpty DM_setNumEntries I t"
      by (simp add: DM_shrink_and_clear_def m_def [symmetric])
    then show ?thesis using initEmpty_ok [OF lawful_map_key [OF l] DM_plain len pow] by (auto simp: live_count_0)
  next
    case False
    then have "DM_shrink_and_clear I t = DM_init I m t"
      by (simp add: DM_shrink_and_clear_def m_def [symmetric])
    then show ?thesis using DM_init_ok [OF l m] by auto
  qed
qed

lemma DM_impl:
  assumes "lawful_map I"
  shows "dense_map_impl (DM I) I (\<lambda>_. True)"
  using lawful_map_key [OF assms] DM_plain DM_grow_ok [OF assms] DM_shrink_ok [OF assms]
  by unfold_locales (auto simp: DM_def)

section \<open>Sequences of operations refine a map\<close>

definition purge_default :: "('k, 'v, 'y) map_info_scheme \<Rightarrow> bool" where
  "purge_default I \<longleftrightarrow> (\<forall>v. isPurgeable I v \<longrightarrow> v = default_value I)"

fun op_key_ok :: "('k, 'y) key_info_scheme \<Rightarrow> ('k, 'v) map_op \<Rightarrow> bool" where
  "op_key_ok I (Op_assign k v) = is_live I k"
| "op_key_ok I (Op_erase k) = is_live I k"
| "op_key_ok I Op_clear = True"
| "op_key_ok I (Op_lookup k) = is_live I k"

text \<open>No table of the run has more than half a billion buckets.\<close>

fun fits ::
  "('k, 'v, 'z) derived \<Rightarrow> ('k, 'v, 'y) map_info_scheme \<Rightarrow> ('k, 'v) map_op list \<Rightarrow> ('k, 'v, 'z) table_scheme \<Rightarrow> bool" where
  "fits D I [] t = True"
| "fits D I (p # ps) t =
     (NumBuckets t \<le> 0x20000000 \<and> op_key_ok I p \<and>
      (case table_step D I p t of None \<Rightarrow> True | Some (vs, t') \<Rightarrow> fits D I ps t'))"

text \<open>The abstract map, and what the lookups of a run see.\<close>

fun map_step :: "('k, 'v, 'y) map_info_scheme \<Rightarrow> ('k, 'v) map_op \<Rightarrow> ('k \<rightharpoonup> 'v) \<Rightarrow> 'v list \<times> ('k \<rightharpoonup> 'v)" where
  "map_step I (Op_assign k v) m = ([], m(k := if isPurgeable I v then None else Some v))"
| "map_step I (Op_erase k) m = ([], m(k := None))"
| "map_step I Op_clear m = ([], Map.empty)"
| "map_step I (Op_lookup k) m = ([case m k of Some v \<Rightarrow> v | None \<Rightarrow> default_value I], m)"

fun map_run :: "('k, 'v, 'y) map_info_scheme \<Rightarrow> ('k, 'v) map_op list \<Rightarrow> ('k \<rightharpoonup> 'v) \<Rightarrow> 'v list \<times> ('k \<rightharpoonup> 'v)" where
  "map_run I [] m = ([], m)"
| "map_run I (p # ps) m = (let (vs, m1) = map_step I p m; (ws, m2) = map_run I ps m1 in (vs @ ws, m2))"

lemma lookup_purge_default:
  assumes "purge_default I"
  shows "(case stored I (Buckets t) k of Some v \<Rightarrow> v | None \<Rightarrow> default_value I) =
    (case dm_map I t k of Some v \<Rightarrow> v | None \<Rightarrow> default_value I)"
  using assms by (auto simp: dm_map_def drop_purgeable_def purge_default_def split: option.splits)

context dense_map_impl
begin

lemma step_refines:
  assumes "purge_default I" "dm_ok I t" "own t" "NumBuckets t \<le> 0x20000000" "op_key_ok I p"
  shows "\<exists>vs t'. table_step D I p t = Some (vs, t') \<and> dm_ok I t' \<and> own t' \<and> (vs, dm_map I t') = map_step I p (dm_map I t)"
proof -
  have n: "unat (NumBuckets t) \<le> 2 ^ 29" "unat (NumBuckets t) \<le> 2 ^ 30" using assms(4) by (auto simp: word_le_nat_alt)
  have e: "drop_purgeable I Map.empty = Map.empty" by (simp add: drop_purgeable_def fun_eq_iff)
  show ?thesis
  proof (cases p)
    case (Op_assign k v)
    then show ?thesis using index_set_ok [OF assms(2,3) n(1), of k v] assms(5) by auto
  next
    case (Op_erase k)
    then show ?thesis using erase_ok [OF assms(2,3) n(2), of k] assms(5) by auto
  next
    case Op_clear
    then show ?thesis using clear_ok [OF assms(2,3) n(2)] e by (auto simp: dm_map_def)
  next
    case (Op_lookup k)
    then show ?thesis using lookup_ok [OF assms(2), of k] lookup_purge_default [OF assms(1)] assms by auto
  qed
qed

lemma run_refines:
  "purge_default I \<Longrightarrow> dm_ok I t \<Longrightarrow> own t \<Longrightarrow> fits D I ps t \<Longrightarrow>
   \<exists>vs t'. table_run D I ps t = Some (vs, t') \<and> dm_ok I t' \<and> own t' \<and> (vs, dm_map I t') = map_run I ps (dm_map I t)"
proof (induction ps arbitrary: t)
  case (Cons p ps)
  obtain vs t1 where t1: "table_step D I p t = Some (vs, t1)" "dm_ok I t1" "own t1" "(vs, dm_map I t1) = map_step I p (dm_map I t)"
    using step_refines [OF Cons.prems(1-3), of p] Cons.prems(4) by auto
  obtain ws t2 where t2: "table_run D I ps t1 = Some (ws, t2)" "dm_ok I t2" "own t2" "(ws, dm_map I t2) = map_run I ps (dm_map I t1)"
    using Cons.IH [OF Cons.prems(1) t1(2,3)] Cons.prems(4) t1(1) by auto
  have "map_run I (p # ps) (dm_map I t) = (vs @ ws, dm_map I t2)"
    by (simp add: t1(4) [symmetric] t2(4) [symmetric])
  then show ?case using t1(1) t2 by auto
qed simp

end

section \<open>Instances\<close>

lemma RefcountMap_lawful: "lawful_map (RefcountMap mem)"
proof -
  have "unat (16 * ucast n :: u64) div 16 = unat n" for n :: u32
  proof -
    have "16 * unat n < 2 ^ 64" using unsigned_less [of n, where ?'a = nat] by simp
    then show ?thesis by (simp add: unat_word_ariths unat_ucast_u64)
  qed
  then show ?thesis by (simp add: lawful_map_def lawful_key_def RefcountMap_def info_DisguisedPtr_def disguise_def fun_eq_iff)
qed

interpretation refcount_map: dense_map_impl "DM (RefcountMap mem)" "RefcountMap mem" "\<lambda>_. True"
  by (rule DM_impl [OF RefcountMap_lawful])

lemma RefcountMap_purge: "purge_default (RefcountMap mem)"
  by (simp add: purge_default_def RefcountMap_def RefcountMapValuePurgeable_def)

section \<open>Building a table from a range\<close>

lemma room_for_plenty:
  assumes "unat (NumEntries t) < n" "n * 4 < unat (NumBuckets t) * 3" "unat (NumBuckets t) \<le> 2 ^ 30" "NumTombstones t = 0"
  shows "room_for D I k b t = Some (b, t)"
proof -
  let ?e = "unat (NumEntries t)" let ?n = "unat (NumBuckets t)"
  have e: "unat (NumEntries t + 1) = ?e + 1" using assms by (simp add: unat_word_ariths)
  then have "unat ((NumEntries t + 1) * 4) = (?e + 1) * 4" "unat (NumBuckets t * 3) = ?n * 3"
    using assms by (auto simp: unat_word_ariths)
  then have 1: "\<not> (NumEntries t + 1) * 4 \<ge> NumBuckets t * 3" using assms by (simp add: word_le_nat_alt)
  have "unat (NumBuckets t - (NumEntries t + 1)) = ?n - (?e + 1)"
    using e assms(1,2) by (subst unat_sub) (auto simp: word_le_nat_alt)
  moreover have "unat (NumBuckets t div 8) = ?n div 8" by (simp add: unat_div)
  ultimately have 2: "\<not> NumBuckets t - (NumEntries t + 1 + NumTombstones t) \<le> NumBuckets t div 8"
    using assms by (simp add: word_le_nat_alt)
  show ?thesis unfolding room_for_def if_not_P [OF 1] if_not_P [OF 2] ..
qed

definition never_purged :: "('k, 'v, 'y) map_info_scheme \<Rightarrow> bool" where
  "never_purged I \<longleftrightarrow> (\<forall>v. \<not> isPurgeable I v)"

lemma never_purged_stored: "never_purged I \<Longrightarrow> dm_map I t = stored I (Buckets t)"
  by (auto simp: never_purged_def dm_map_def drop_purgeable_def fun_eq_iff split: option.splits)

lemma emplace_no_grow:
  assumes l: "lawful_key I" and np: "never_purged I" and t: "new_table I t" and k: "is_live I k" "stored I (Buckets t) k = None"
    and n: "unat (NumEntries t) < n" "n * 4 < unat (NumBuckets t) * 3" "unat (NumBuckets t) \<le> 2 ^ 30"
  shows "\<exists>r t'. try_emplace (DM I) I k v t = Some (r, t') \<and> new_table I t' \<and> NumBuckets t' = NumBuckets t \<and>
    unat (NumEntries t') = unat (NumEntries t) + 1 \<and> stored I (Buckets t') = (stored I (Buckets t))(k \<mapsto> v)"
proof -
  let ?bs = "Buckets t"
  have ok: "dm_ok I t" "NumBuckets t \<noteq> 0" "NumTombstones t = 0" using t by (auto simp: new_table_def)
  have cnt: "length ?bs = unat (NumBuckets t)" "live_count I ?bs = unat (NumEntries t)" "tomb_count I ?bs = 0"
    using ok by (auto simp: dm_ok_def)
  have v: "\<not> isPurgeable I v" using np by (simp add: never_purged_def)
  have room: "live_count I ?bs + 1 < length ?bs" "length ?bs \<le> 2 ^ 31" using cnt n by (linarith, simp)
  obtain j t' where t': "LookupBucketFor I t k = Some (False, Some j)"
      "t' = t\<lparr>Buckets := ?bs[j := (k, v)], NumEntries := NumEntries t + 1\<rparr>" "new_table I t'"
      "live_count I (Buckets t') = live_count I ?bs + 1" "stored I (Buckets t') = (stored I ?bs)(k \<mapsto> v)"
    using move_one [OF l DM_plain t k v room] by blast
  have j: "j < length ?bs" "reusable I (?bs ! j)"
    using LookupBucketFor_absent [OF l ok(1,2) k(2,1)] t'(1) by auto
  have "fst (?bs ! j) \<noteq> getTombstoneKey I"
    using cnt(3) j(1) unfolding tomb_count_def by (auto simp: filter_empty_conv isEqual_eq [OF l])
  then have "fst (?bs ! j) = getEmptyKey I"
    using j(2) np by (auto simp: reusable_def never_purged_def live_iff [OF l])
  then have "count_bucket (DM I) I j t = Some (t\<lparr>NumEntries := NumEntries t + 1\<rparr>)"
    by (simp add: count_bucket_def isEqual_eq [OF l] DM_def DM_setNumEntries_def)
  then have "InsertIntoBucket (DM I) I (Some j) k v t = Some (j, t')"
    using room_for_plenty [OF n ok(3), of "DM I" I k "Some j"] t'(2)
    by (simp add: InsertIntoBucket_def InsertIntoBucketImpl_def)
  then have "try_emplace (DM I) I k v t = Some (((j, unat (NumBuckets t')), True), t')"
    using t'(1) by (simp add: try_emplace_def makeIterator_def)
  moreover have "unat (NumEntries t') = unat (NumEntries t) + 1" using t'(3,4) cnt(2) by (simp add: new_table_def dm_ok_def)
  ultimately show ?thesis using t'(2,3,5) by auto
qed

lemma insert_range_ok:
  assumes l: "lawful_key I" and np: "never_purged I"
  shows "new_table I t \<Longrightarrow> \<forall>kv \<in> set kvs. is_live I (fst kv) \<Longrightarrow> unat (NumEntries t) + length kvs \<le> n \<Longrightarrow>
    n * 4 < unat (NumBuckets t) * 3 \<Longrightarrow> unat (NumBuckets t) \<le> 2 ^ 30 \<Longrightarrow>
    \<exists>t'. insert_range (DM I) I kvs t = Some t' \<and> dm_ok I t' \<and> NumBuckets t' = NumBuckets t \<and>
      stored I (Buckets t') = map_of kvs ++ stored I (Buckets t)"
proof (induction kvs arbitrary: t)
  case Nil
  then show ?case by (simp add: new_table_def)
next
  case (Cons kv kvs)
  obtain k v where kv: "kv = (k, v)" by (cases kv)
  have k: "is_live I k" using Cons.prems(2) kv by simp
  show ?case
  proof (cases "stored I (Buckets t) k")
    case None
    have lt: "unat (NumEntries t) < n" using Cons.prems(3) by simp
    obtain r t1 where t1: "try_emplace (DM I) I k v t = Some (r, t1)" "new_table I t1" "NumBuckets t1 = NumBuckets t"
        "unat (NumEntries t1) = unat (NumEntries t) + 1" "stored I (Buckets t1) = (stored I (Buckets t))(k \<mapsto> v)"
      using emplace_no_grow [OF l np Cons.prems(1) k None lt Cons.prems(4,5), of v] by blast
    obtain t' where t': "insert_range (DM I) I kvs t1 = Some t'" "dm_ok I t'" "NumBuckets t' = NumBuckets t1"
        "stored I (Buckets t') = map_of kvs ++ stored I (Buckets t1)"
      using Cons.IH [OF t1(2)] Cons.prems t1(3,4) by auto
    have "stored I (Buckets t') = map_of (kv # kvs) ++ stored I (Buckets t)"
      unfolding t'(4) t1(5) using None by (auto simp: kv map_add_def fun_eq_iff split: option.splits)
    moreover have "insert_range (DM I) I (kv # kvs) t = Some t'" using t1(1) t'(1) by (simp add: dm_insert_def kv)
    ultimately show ?thesis using t1(3) t'(2,3) by metis
  next
    case (Some w)
    have ok: "dm_ok I t" using Cons.prems(1) by (simp add: new_table_def)
    obtain i where i: "i < length (Buckets t)" "Buckets t ! i = (k, w)"
      using stored_iff [of I "Buckets t" k w] ok Some by (auto simp: dm_ok_def bs_ok_def)
    have "LookupBucketFor I t k = Some (True, Some i)" using LookupBucketFor_found [OF l ok i(1) _ k] i(2) by simp
    then have "dm_insert (DM I) I kv t = Some (((i, unat (NumBuckets t)), False), t)"
      by (simp add: dm_insert_def kv try_emplace_def makeIterator_def)
    moreover have "map_of kvs ++ stored I (Buckets t) = map_of (kv # kvs) ++ stored I (Buckets t)"
      using Some by (auto simp: kv map_add_def fun_eq_iff split: option.splits)
    moreover obtain t' where "insert_range (DM I) I kvs t = Some t'" "dm_ok I t'" "NumBuckets t' = NumBuckets t"
        "stored I (Buckets t') = map_of kvs ++ stored I (Buckets t)"
      using Cons.IH [OF Cons.prems(1)] Cons.prems by auto
    ultimately show ?thesis by (intro exI [of _ t']) (simp only: insert_range.simps bind.bind_lunit prod.case simp_thms)
  qed
qed

section \<open>Properties\<close>

text \<open>
  C14: looking up a key that is not a marker in a well-formed table ends without finding the
  table corrupt, and \<open>find\<close> returns an iterator to the entry of the key if there is one and
  the end iterator otherwise.
\<close>

theorem DenseMap_find:
  assumes "lawful_map I" "dm_ok I t" "is_live I k"
  shows "\<exists>it. dm_find I t k = Some it \<and>
    (case stored I (Buckets t) k of
       Some v \<Rightarrow> \<not> iter_eq it (dm_end t) \<and> iter_deref t it = (k, v)
     | None \<Rightarrow> iter_eq it (dm_end t))"
  by (rule dense_map_impl.find_ok [OF DM_impl [OF assms(1)] assms(2,3)])

text \<open>
  C13: inserting an entry that is not there yet, into a table of at most half a billion
  buckets, ends, keeps the table well-formed and adds the entry, growing or rehashing the
  table as needed; an entry whose key is there is left alone. Only entries with a purgeable
  value can disappear.
\<close>

theorem DenseMap_insert:
  assumes "lawful_map I" "dm_ok I t" "unat (NumBuckets t) \<le> 2 ^ 29" "is_live I k"
  shows "\<exists>it t'. try_emplace (DM I) I k v t = Some ((it, stored I (Buckets t) k = None), t') \<and> dm_ok I t' \<and>
    (case stored I (Buckets t) k of
       Some w \<Rightarrow> t' = t \<and> iter_deref t' it = (k, w)
     | None \<Rightarrow> iter_deref t' it = (k, v) \<and> dm_map I t' = (dm_map I t)(k := if isPurgeable I v then None else Some v))"
  using dense_map_impl.try_emplace_ok [OF DM_impl [OF assms(1)] assms(2) TrueI assms(3,4)] by blast

text \<open>
  C12: a run of assignments, erasures, clears and lookups on a table does to the map of its
  entries what the operations say, and the lookups see that map, as long as no table of the
  run has more than half a billion buckets: growing, rehashing, purging zero values,
  tombstones and shrinking are not visible.
\<close>

theorem DenseMap_refines_map:
  assumes "lawful_map I" "purge_default I" "dm_ok I t" "fits (DM I) I ps t"
  shows "\<exists>vs t'. table_run (DM I) I ps t = Some (vs, t') \<and> dm_ok I t' \<and> (vs, dm_map I t') = map_run I ps (dm_map I t)"
  using dense_map_impl.run_refines [OF DM_impl [OF assms(1)] assms(2,3) TrueI assms(4)] by blast

text \<open>
  A table built from a range of up to \<open>2 ^ 27\<close> pairs, of a type whose values are never
  purged, holds the first pair of each key, and keeps the number of buckets that was
  reserved for the length of the range: no insertion grows the table.
\<close>

lemma DenseMap_from_range:
  assumes l: "lawful_map I" "never_purged I" and keys: "\<forall>kv \<in> set kvs. is_live I (fst kv)" and n: "kvs \<noteq> []" "length kvs \<le> 2 ^ 27"
  shows "\<exists>t. DM_range_construct I kvs mem = Some t \<and> dm_ok I t \<and> dm_map I t = map_of kvs \<and>
    NumBuckets t = getMinBucketToReserveForEntries (of_nat (length kvs))"
proof -
  let ?n = "of_nat (length kvs) :: u32"
  have un: "unat ?n = length kvs" using n(2) by (simp add: unat_of_nat take_bit_eq_mod)
  then have n0: "?n \<noteq> 0" using n(1) by (metis length_0_conv unat_0)
  obtain t where t: "DM_init I ?n mem = Some t" "dm_ok I t" "stored I (Buckets t) = Map.empty" "NumEntries t = 0"
      "NumTombstones t = 0" "NumBuckets t = getMinBucketToReserveForEntries ?n"
    using DM_init_ok [OF l(1), of ?n mem] un n(2) by auto
  obtain h where h: "unat (NumBuckets t) = 2 ^ h" "length kvs * 4 < 3 * 2 ^ h" "2 ^ h \<le> 2 * (length kvs * 4 div 3 + 1)"
    using getMinBucket_ok [OF n0] un n(2) t(6) by auto
  have "length kvs * 4 div 3 + 1 \<le> 2 ^ 29" using n(2) less_mult_imp_div_less [of "length kvs * 4" "2 ^ 28" 3] by simp
  then have big: "unat (NumBuckets t) \<le> 2 ^ 30" using h(1,3) by simp
  have "no_zeros I (Buckets t)" using l(2) by (simp add: no_zeros_def never_purged_def)
  then have "new_table I t" using t(2,5) h(1) by (auto simp: new_table_def)
  then obtain t' where "insert_range (DM I) I kvs t = Some t'" "dm_ok I t'" "NumBuckets t' = NumBuckets t"
      "stored I (Buckets t') = map_of kvs"
    using insert_range_ok [OF lawful_map_key [OF l(1)] l(2) _ keys, of t "length kvs"] h(1,2) big t(3,4) by auto
  then show ?thesis using t(1,6) never_purged_stored [OF l(2), of t'] by (auto simp: DM_range_construct_def)
qed

text \<open>
  The room to reserve for 48 entries is 128 buckets.
\<close>

lemma reserve_48: "getMinBucketToReserveForEntries 48 = 128"
  by code_simp


section \<open>Witnesses\<close>

definition no_table :: "('k, 'v) table" where
  "no_table = \<lparr>Buckets = [], NumEntries = 0, NumTombstones = 0, NumBuckets = 0\<rparr>"

definition unsigned_map :: "(u32, u32) map_info" where
  "unsigned_map =
     \<lparr>getEmptyKey = getEmptyKey info_unsigned, getTombstoneKey = getTombstoneKey info_unsigned,
      getHashValue = getHashValue info_unsigned, isEqual = isEqual info_unsigned,
      isPurgeable = (\<lambda>_. False), default_value = 0, trivially_copyable = True,
      sizeof_BucketT = 8, raw_mem = (\<lambda>bytes. replicate (unat bytes div 8) (0, 0))\<rparr>"

lemma no_table_ok: "dm_ok I no_table" "dm_map I no_table = Map.empty"
  by (simp_all add: no_table_def dm_ok_def bs_ok_def keys_inj_def live_count_def tomb_count_def dm_map_def drop_purgeable_def
      stored_def fun_eq_iff)

lemma unsigned_map_lawful: "lawful_map unsigned_map" "never_purged unsigned_map"
proof -
  have "unat (8 * ucast n :: u64) div 8 = unat n" for n :: u32
  proof -
    have "8 * unat n < 2 ^ 64" using unsigned_less [of n, where ?'a = nat] by simp
    then show ?thesis by (simp add: unat_word_ariths unat_ucast_u64)
  qed
  then show "lawful_map unsigned_map"
    by (simp add: lawful_map_def lawful_key_def unsigned_map_def info_unsigned_def fun_eq_iff)
  show "never_purged unsigned_map" by (simp add: never_purged_def unsigned_map_def)
qed

definition sample_table :: "(u32, u32) table" where
  "sample_table =
     \<lparr>Buckets = [(-1, 0), (5, 50), (-1, 0), (-1, 0)], NumEntries = 1, NumTombstones = 0, NumBuckets = 4\<rparr>"

lemma sample_table_ok: "dm_ok unsigned_map sample_table"
proof -
  let ?bs = "Buckets sample_table"
  have pl: "placed unsigned_map ?bs 5 1"
    unfolding placed_def by (intro exI [of _ 0]) (simp add: sample_table_def unsigned_map_def info_unsigned_def probe_def)
  have live: "is_live unsigned_map (fst (?bs ! i)) \<longleftrightarrow> i = 1" if "i < length ?bs" for i
    using that by (auto simp: sample_table_def is_live_def unsigned_map_def info_unsigned_def less_Suc_eq)
  have key: "fst (?bs ! i) = 5 \<longleftrightarrow> i = 1" if "i < length ?bs" for i
    using that by (auto simp: sample_table_def less_Suc_eq)
  have "fst (?bs ! 1) = 5" by (simp add: sample_table_def)
  then have "keys_inj unsigned_map ?bs" "\<forall>i < length ?bs. is_live unsigned_map (fst (?bs ! i)) \<longrightarrow> placed unsigned_map ?bs (fst (?bs ! i)) i"
    unfolding keys_inj_def using live key pl by metis+
  moreover have "length ?bs = 2 ^ 2" "live_count unsigned_map ?bs = 1" "tomb_count unsigned_map ?bs = 0"
    by (simp_all add: live_count_def tomb_count_def sample_table_def is_live_def unsigned_map_def info_unsigned_def)
  moreover have "unat (NumBuckets sample_table) = 2 ^ 2" "NumEntries sample_table = 1" "NumTombstones sample_table = 0"
    by (simp_all add: sample_table_def)
  ultimately show ?thesis
    unfolding dm_ok_def bs_ok_def by (intro conjI disjI2 exI [of _ 2]) simp_all
qed

theorem DenseMap_find_witness:
  "dm_ok unsigned_map sample_table \<and> (\<exists>it. dm_find unsigned_map sample_table 5 = Some it \<and> iter_deref sample_table it = (5, 50))"
proof -
  have "is_live unsigned_map 5" "stored unsigned_map (Buckets sample_table) 5 = Some 50"
    by (simp_all add: stored_def sample_table_def is_live_def unsigned_map_def info_unsigned_def)
  then show ?thesis
    using DenseMap_find [OF unsigned_map_lawful(1) sample_table_ok, of 5] sample_table_ok by auto
qed

theorem DenseMap_insert_witness:
  "\<exists>it t'. try_emplace (DM unsigned_map) unsigned_map 9 90 sample_table = Some ((it, True), t') \<and> iter_deref t' it = (9, 90)"
proof -
  have "is_live unsigned_map 9" "stored unsigned_map (Buckets sample_table) 9 = None" "unat (NumBuckets sample_table) \<le> 2 ^ 29"
    by (simp_all add: stored_def sample_table_def is_live_def unsigned_map_def info_unsigned_def)
  then show ?thesis
    using DenseMap_insert [OF unsigned_map_lawful(1) sample_table_ok, of 9 90] by auto
qed

theorem DenseMap_refines_map_witness:
  "\<exists>t'. table_run (DM unsigned_map) unsigned_map [Op_assign 5 51, Op_lookup 5, Op_erase 5, Op_lookup 5] sample_table =
     Some ([51, 0], t') \<and> dm_ok unsigned_map t'"
proof -
  let ?ps = "[Op_assign 5 51, Op_lookup 5, Op_erase 5, Op_lookup 5]"
  have f: "fits (DM unsigned_map) unsigned_map ?ps sample_table" by code_simp
  have p: "purge_default unsigned_map" by (simp add: purge_default_def unsigned_map_def)
  obtain vs t' where r: "table_run (DM unsigned_map) unsigned_map ?ps sample_table = Some (vs, t')" "dm_ok unsigned_map t'"
      "(vs, dm_map unsigned_map t') = map_run unsigned_map ?ps (dm_map unsigned_map sample_table)"
    using DenseMap_refines_map [OF unsigned_map_lawful(1) p sample_table_ok f] by blast
  moreover have "fst (map_run unsigned_map ?ps (dm_map unsigned_map sample_table)) = [51, 0]"
    by (simp add: unsigned_map_def)
  ultimately show ?thesis by (metis fst_conv)
qed


end
