(* ===== verification/SmallDenseMap.thy ===== *)
theory SmallDenseMap
  imports DenseMapClass
begin

text \<open>
  The class \<open>SmallDenseMap\<close> (\<^verbatim>\<open>runtime/llvm-DenseMap.h\<close>): a hash table that keeps up to
  \<open>InlineBuckets\<close> buckets inside the object. The state adds the bit \<open>Small\<close>; in a small table
  the buckets are the inline ones and their number is \<open>InlineBuckets\<close>. The union of the two
  representations becomes one list of buckets. The class meets the contract of
  \<open>DenseMapBase\<close>, so it refines a map just as \<open>DenseMap\<close> does.
\<close>

section \<open>Operations\<close>

record ('k, 'v) small_table = "('k, 'v) table" +
  Small :: bool

text \<open>The number of entries is a bit-field of 31 bits.\<close>

definition SDM_setNumEntries :: "u32 \<Rightarrow> ('k, 'v) small_table \<Rightarrow> ('k, 'v) small_table option" where
  "SDM_setNumEntries Num t = do { assert_opt (Num < push_bit 31 1); Some (t\<lparr>NumEntries := Num\<rparr>) }"

text \<open>Switching to the inline buckets, whose memory holds anything, or to allocated ones.\<close>

definition SDM_use_inline :: "('k, 'v, 'y) map_info_scheme \<Rightarrow> u32 \<Rightarrow> ('k, 'v) small_table \<Rightarrow> ('k, 'v) small_table" where
  "SDM_use_inline I InlineBuckets t =
     t\<lparr>Small := True, NumBuckets := InlineBuckets, Buckets := raw_mem I (sizeof_BucketT I * ucast InlineBuckets)\<rparr>"

definition SDM_allocateBuckets ::
  "('k, 'v, 'y) map_info_scheme \<Rightarrow> u32 \<Rightarrow> u32 \<Rightarrow> ('k, 'v) small_table \<Rightarrow> ('k, 'v) small_table option" where
  "SDM_allocateBuckets I InlineBuckets Num t = do {
     assert_opt (Num > InlineBuckets);
     bs \<leftarrow> alloc_overflow (raw_mem I) (sizeof_BucketT I) (ucast Num);
     Some (t\<lparr>Small := False, NumBuckets := Num, Buckets := bs\<rparr>)
   }"

definition SDM_init ::
  "('k, 'v, 'y) map_info_scheme \<Rightarrow> u32 \<Rightarrow> u32 \<Rightarrow> ('k, 'v) small_table \<Rightarrow> ('k, 'v) small_table option" where
  "SDM_init I InlineBuckets InitBuckets t = do {
     t \<leftarrow> (if InitBuckets > InlineBuckets then SDM_allocateBuckets I InlineBuckets InitBuckets t
           else Some (SDM_use_inline I InlineBuckets t));
     initEmpty SDM_setNumEntries I t
   }"

definition SDM_grow ::
  "('k, 'v, 'y) map_info_scheme \<Rightarrow> u32 \<Rightarrow> u32 \<Rightarrow> ('k, 'v) small_table \<Rightarrow> ('k, 'v) small_table option" where
  "SDM_grow I InlineBuckets AtLeast t =
     (let AtLeast = (if AtLeast \<ge> InlineBuckets then max MIN_BUCKETS (ucast (NextPowerOf2 (ucast AtLeast))) else AtLeast) in
      if Small t then
        if AtLeast < InlineBuckets then Some t
        else do {
          let Tmp = filter (\<lambda>b. is_live I (fst b)) (Buckets t);
          t \<leftarrow> SDM_allocateBuckets I InlineBuckets AtLeast t;
          moveFromOldBuckets SDM_setNumEntries I Tmp t
        }
      else do {
        let OldBuckets = Buckets t;
        t \<leftarrow> (if AtLeast \<le> InlineBuckets then Some (SDM_use_inline I InlineBuckets t)
              else SDM_allocateBuckets I InlineBuckets AtLeast t);
        moveFromOldBuckets SDM_setNumEntries I OldBuckets t
      })"

definition SDM_shrink_and_clear ::
  "('k, 'v, 'y) map_info_scheme \<Rightarrow> u32 \<Rightarrow> ('k, 'v) small_table \<Rightarrow> ('k, 'v) small_table option" where
  "SDM_shrink_and_clear I InlineBuckets t =
     (let n = (if NumEntries t \<noteq> 0 then push_bit (unat (Log2_32_Ceil (NumEntries t) + 1)) 1 else 0);
          NewNumBuckets = (if NumEntries t \<noteq> 0 \<and> n > InlineBuckets \<and> n < MIN_BUCKETS then MIN_BUCKETS else n) in
      if Small t \<and> NewNumBuckets \<le> InlineBuckets \<or> \<not> Small t \<and> NewNumBuckets = NumBuckets t
      then initEmpty SDM_setNumEntries I t
      else SDM_init I InlineBuckets NewNumBuckets t)"

definition SDM :: "('k, 'v, 'y) map_info_scheme \<Rightarrow> u32 \<Rightarrow> ('k, 'v, \<lparr>Small :: bool\<rparr>) derived" where
  "SDM I InlineBuckets =
     \<lparr>grow = SDM_grow I InlineBuckets, shrink_and_clear = SDM_shrink_and_clear I InlineBuckets,
      setNumEntries = SDM_setNumEntries\<rparr>"

definition SDM_copyFrom ::
  "('k, 'v, 'y) map_info_scheme \<Rightarrow> u32 \<Rightarrow> ('k, 'v) small_table \<Rightarrow> ('k, 'v) small_table \<Rightarrow> ('k, 'v) small_table option" where
  "SDM_copyFrom I InlineBuckets other t = do {
     t \<leftarrow> (if NumBuckets other > InlineBuckets then SDM_allocateBuckets I InlineBuckets (NumBuckets other) t
           else Some (SDM_use_inline I InlineBuckets t));
     copyFrom_base SDM_setNumEntries I other t
   }"

text \<open>
  Swapping: two inline arrays are exchanged bucket by bucket, moving a value only where there
  is one; two allocated arrays are exchanged as they are; a mixed pair moves the inline
  buckets across and hands over the allocated array.
\<close>

definition swap_bucket :: "('k, 'y) key_info_scheme \<Rightarrow> 'k \<times> 'v \<Rightarrow> 'k \<times> 'v \<Rightarrow> ('k \<times> 'v) \<times> ('k \<times> 'v)" where
  "swap_bucket I LHSB RHSB =
     (let hasLHSValue = is_live I (fst LHSB); hasRHSValue = is_live I (fst RHSB) in
      if hasLHSValue \<and> hasRHSValue then (RHSB, LHSB)
      else if hasLHSValue then ((fst RHSB, snd LHSB), (fst LHSB, snd LHSB))
      else if hasRHSValue then ((fst RHSB, snd RHSB), (fst LHSB, snd RHSB))
      else ((fst RHSB, snd LHSB), (fst LHSB, snd RHSB)))"

definition move_bucket :: "('k, 'y) key_info_scheme \<Rightarrow> 'k \<times> 'v \<Rightarrow> 'k \<times> 'v \<Rightarrow> 'k \<times> 'v" where
  "move_bucket I NewB OldB = (fst OldB, if is_live I (fst OldB) then snd OldB else snd NewB)"

definition SDM_swap ::
  "('k, 'v, 'y) map_info_scheme \<Rightarrow> u32 \<Rightarrow> ('k, 'v) small_table \<times> ('k, 'v) small_table \<Rightarrow>
   ('k, 'v) small_table \<times> ('k, 'v) small_table" where
  "SDM_swap I InlineBuckets p = (case p of (t, RHS) \<Rightarrow>
     let t1 = t\<lparr>NumEntries := NumEntries RHS, NumTombstones := NumTombstones RHS\<rparr>;
         R1 = RHS\<lparr>NumEntries := NumEntries t, NumTombstones := NumTombstones t\<rparr> in
     if Small t \<and> Small RHS then
       (let bs = map2 (swap_bucket I) (Buckets t) (Buckets RHS) in
        (t1\<lparr>Buckets := map fst bs\<rparr>, R1\<lparr>Buckets := map snd bs\<rparr>))
     else if \<not> Small t \<and> \<not> Small RHS then
       (t1\<lparr>Buckets := Buckets RHS, NumBuckets := NumBuckets RHS\<rparr>,
        R1\<lparr>Buckets := Buckets t, NumBuckets := NumBuckets t\<rparr>)
     else if Small t then
       (t1\<lparr>Small := False, Buckets := Buckets RHS, NumBuckets := NumBuckets RHS\<rparr>,
        (SDM_use_inline I InlineBuckets R1)
          \<lparr>Buckets := map2 (move_bucket I) (raw_mem I (sizeof_BucketT I * ucast InlineBuckets)) (Buckets t)\<rparr>)
     else
       ((SDM_use_inline I InlineBuckets t1)
          \<lparr>Buckets := map2 (move_bucket I) (raw_mem I (sizeof_BucketT I * ucast InlineBuckets)) (Buckets RHS)\<rparr>,
        R1\<lparr>Small := False, Buckets := Buckets t, NumBuckets := NumBuckets t\<rparr>))"

definition SDM_copy_construct ::
  "('k, 'v, 'y) map_info_scheme \<Rightarrow> u32 \<Rightarrow> ('k, 'v) small_table \<Rightarrow> ('k, 'v) small_table \<Rightarrow> ('k, 'v) small_table option" where
  "SDM_copy_construct I InlineBuckets other mem = do {
     t \<leftarrow> SDM_init I InlineBuckets 0 mem;
     SDM_copyFrom I InlineBuckets other t
   }"

definition SDM_move_construct ::
  "('k, 'v, 'y) map_info_scheme \<Rightarrow> u32 \<Rightarrow> ('k, 'v) small_table \<Rightarrow> ('k, 'v) small_table \<Rightarrow>
   (('k, 'v) small_table \<times> ('k, 'v) small_table) option" where
  "SDM_move_construct I InlineBuckets other mem = do {
     t \<leftarrow> SDM_init I InlineBuckets 0 mem;
     Some (SDM_swap I InlineBuckets (t, other))
   }"

definition SDM_range_construct ::
  "('k, 'v, 'y) map_info_scheme \<Rightarrow> u32 \<Rightarrow> ('k \<times> 'v) list \<Rightarrow> ('k, 'v) small_table \<Rightarrow> ('k, 'v) small_table option" where
  "SDM_range_construct I InlineBuckets kvs mem = do {
     t \<leftarrow> SDM_init I InlineBuckets (ucast (NextPowerOf2 (of_nat (length kvs)))) mem;
     insert_range (SDM I InlineBuckets) I kvs t
   }"

definition SDM_copy_assign ::
  "('k, 'v, 'y) map_info_scheme \<Rightarrow> u32 \<Rightarrow> bool \<Rightarrow> ('k, 'v) small_table \<Rightarrow> ('k, 'v) small_table \<Rightarrow> ('k, 'v) small_table option" where
  "SDM_copy_assign I InlineBuckets same_object other t =
     (if \<not> same_object then SDM_copyFrom I InlineBuckets other t else Some t)"

definition SDM_move_assign ::
  "('k, 'v, 'y) map_info_scheme \<Rightarrow> u32 \<Rightarrow> ('k, 'v) small_table \<Rightarrow> ('k, 'v) small_table \<Rightarrow>
   (('k, 'v) small_table \<times> ('k, 'v) small_table) option" where
  "SDM_move_assign I InlineBuckets other t = do {
     t \<leftarrow> SDM_init I InlineBuckets 0 t;
     Some (SDM_swap I InlineBuckets (t, other))
   }"

section \<open>The contract\<close>

definition SDM_ok :: "u32 \<Rightarrow> ('k, 'v) small_table \<Rightarrow> bool" where
  "SDM_ok InlineBuckets t \<longleftrightarrow> (if Small t then NumBuckets t = InlineBuckets else NumBuckets t > InlineBuckets)"

definition inline_ok :: "u32 \<Rightarrow> bool" where
  "inline_ok InlineBuckets \<longleftrightarrow> (\<exists>k. unat InlineBuckets = 2 ^ k) \<and> unat InlineBuckets \<le> 2 ^ 30"

lemma SDM_plain: "plain_setter SDM_setNumEntries"
  by (auto simp: plain_setter_def SDM_setNumEntries_def assert_opt_def word_less_nat_alt)

lemma SDM_frame: "same_shape t t' \<Longrightarrow> SDM_ok n t \<Longrightarrow> SDM_ok n t'"
  by (cases t, cases t') (auto simp: same_shape_def SDM_ok_def split: if_splits)

lemma keys_inj_ConsI:
  assumes "keys_inj I bs" "is_live I (fst b) \<Longrightarrow> fst b \<notin> fst ` set bs"
  shows "keys_inj I (b # bs)"
  unfolding keys_inj_def
proof (intro allI impI)
  fix i j assume a: "i < length (b # bs)" "j < length (b # bs)" "is_live I (fst ((b # bs) ! i))"
    "fst ((b # bs) ! i) = fst ((b # bs) ! j)"
  show "i = j"
    using a assms unfolding keys_inj_def fst_mem_nth by (cases i; cases j) auto
qed

lemma filter_live:
  shows "keys_inj I bs \<Longrightarrow> keys_inj I (filter (\<lambda>b. is_live I (fst b)) bs)"
    "stored I (filter (\<lambda>b. is_live I (fst b)) bs) = stored I bs"
    "live_count I (filter (\<lambda>b. is_live I (fst b)) bs) = live_count I bs"
proof (induction bs)
  case (Cons b bs)
  { case 1
    have "is_live I (fst b) \<Longrightarrow> fst b \<notin> fst ` set bs"
      using keys_inj_Cons(2) [OF 1] by (simp add: stored_def map_of_eq_None_iff)
    moreover have "fst ` set (filter (\<lambda>b. is_live I (fst b)) bs) \<subseteq> fst ` set bs" by auto
    ultimately have "is_live I (fst b) \<Longrightarrow> fst b \<notin> fst ` set (filter (\<lambda>b. is_live I (fst b)) bs)" by blast
    then show ?case using keys_inj_ConsI [OF Cons(1) [OF keys_inj_Cons(1) [OF 1]]] Cons(1) [OF keys_inj_Cons(1) [OF 1]] by simp
  next
    case 2
    show ?case using Cons(2) by (auto simp: stored_Cons fun_eq_iff)
  next
    case 3
    show ?case by (simp add: live_count_def)
  }
qed (simp_all add: keys_inj_def)

lemma rehash_grow_law:
  assumes l: "lawful_key I" and s: "plain_setter sne" and ok: "dm_ok I t"
    and t1: "length (Buckets t1) = unat (NumBuckets t1)" "unat (NumBuckets t1) = 2 ^ k" "unat (NumBuckets t1) \<le> 2 ^ 31"
    and old: "keys_inj I old" "stored I old = stored I (Buckets t)" "live_count I old = live_count I (Buckets t)"
    and a: "NumEntries t < NumBuckets t1" "a \<le> NumBuckets t1" "2 \<le> NumBuckets t1"
    and own: "\<And>t'. same_shape t1 t' \<Longrightarrow> own t'"
  shows "\<exists>t'. moveFromOldBuckets sne I old t1 = Some t' \<and> grow_law I own a t t'"
proof -
  have room: "live_count I old < length (Buckets t1)" using old(3) ok t1(1) a(1) by (simp add: dm_ok_def word_less_nat_alt)
  have big: "length (Buckets t1) \<le> 2 ^ 31" using t1 by simp
  obtain t' where t': "moveFromOldBuckets sne I old t1 = Some t'" "new_table I t'" "same_shape t1 t'"
      "live_count I (Buckets t') \<le> live_count I old" "dm_map I t' = drop_purgeable I (stored I old)"
    using moveFromOldBuckets_ok [OF l s t1(1,2) old(1) room big] by blast
  have "stored I (Buckets t') \<subseteq>\<^sub>m stored I (Buckets t)"
    using drop_purgeable_le [of I "stored I (Buckets t)"] new_table_stored [OF t'(2)] t'(5) old(2) by (simp add: dm_map_def)
  then show ?thesis
    using t' own [OF t'(3)] old(2,3) ok a by (intro exI [of _ t'])
      (auto simp: grow_law_def new_table_def dm_ok_def same_shape_def dm_map_def word_le_nat_alt)
qed

lemma alloc_ok:
  assumes "lawful_map I"
  shows "\<exists>bs. alloc_overflow (raw_mem I) (sizeof_BucketT I) (ucast (n :: u32)) = Some bs \<and> length bs = unat n"
proof -
  have "unat (sizeof_BucketT I) * unat (ucast n :: u64) \<le> 2 ^ 16 * 2 ^ 32"
    using assms unsigned_less [of n, where ?'a = nat] by (intro mult_le_mono) (simp_all add: lawful_map_def unat_ucast_u64)
  then show ?thesis using assms by (simp add: alloc_overflow_def lawful_map_def)
qed

lemma SDM_allocateBuckets_ok:
  assumes "lawful_map I" "n > inl"
  shows "\<exists>bs. SDM_allocateBuckets I inl n t = Some (t\<lparr>Small := False, NumBuckets := n, Buckets := bs\<rparr>) \<and> length bs = unat n"
  using alloc_ok [OF assms(1), of n] assms(2) by (auto simp: SDM_allocateBuckets_def assert_opt_def)

lemma grow_size_strict:
  fixes a :: u32
  assumes "0 < unat a" "unat a \<le> 2 ^ 30"
  shows "\<exists>n k. max 4 (ucast (NextPowerOf2 (ucast a))) = (n :: u32) \<and> unat n = 2 ^ k \<and> a < n \<and> 2 \<le> n \<and> unat n \<le> 2 ^ 31"
proof -
  let ?p = "ucast (NextPowerOf2 (ucast a)) :: u32"
  obtain h where h: "unat ?p = 2 ^ h" "unat a < 2 ^ h" "2 ^ h \<le> 2 * unat a" using NextPowerOf2_u32 [of a] assms by auto
  have p: "unat ?p \<le> 2 ^ 31" "a < ?p" using h assms by (simp_all add: word_less_nat_alt)
  show ?thesis
  proof (cases "4 \<le> ?p")
    case True
    then have "2 \<le> ?p" by (simp add: word_le_nat_alt)
    then show ?thesis using h(1) p True by (intro exI [of _ ?p] exI [of _ h]) (simp add: max_absorb2)
  next
    case False
    then have "max 4 ?p = 4" "a < 4" using p(2) by auto
    then show ?thesis by (intro exI [of _ 4] exI [of _ 2]) (simp add: word_le_nat_alt)
  qed
qed

lemma SDM_grow_ok:
  assumes l: "lawful_map I" and inl: "inline_ok inl" and ok: "dm_ok I t" "SDM_ok inl t"
    and a: "NumEntries t < a \<or> NumBuckets t = 0 \<and> a = 0" "unat a \<le> 2 ^ 30"
  shows "\<exists>t'. SDM_grow I inl a t = Some t' \<and> grow_law I (SDM_ok inl) a t t'"
proof -
  note key = lawful_map_key [OF l]
  obtain k where k: "unat inl = 2 ^ k" "unat inl \<le> 2 ^ 30" using inl by (auto simp: inline_ok_def)
  have "NumBuckets t \<noteq> 0" using ok(2) k by (auto simp: SDM_ok_def split: if_splits)
  then have e: "NumEntries t < a" using a(1) by simp
  have inj: "keys_inj I (Buckets t)" using ok(1) by (simp add: dm_ok_def bs_ok_def)
  show ?thesis
  proof (cases "a \<ge> inl")
    case True
    have "0 < unat a" using e by (simp add: word_less_nat_alt)
    then obtain n h where n: "max 4 (ucast (NextPowerOf2 (ucast a))) = n" "unat n = 2 ^ h" "a < n" "2 \<le> n" "unat n \<le> 2 ^ 31"
      using grow_size_strict [OF _ a(2)] by blast
    then have ninl: "n > inl" using True by simp
    obtain bs where bs: "SDM_allocateBuckets I inl n t = Some (t\<lparr>Small := False, NumBuckets := n, Buckets := bs\<rparr>)" "length bs = unat n"
      using SDM_allocateBuckets_ok [OF l ninl] by blast
    let ?t = "t\<lparr>Small := False, NumBuckets := n, Buckets := bs\<rparr>"
    have own: "SDM_ok inl t'" if "same_shape ?t t'" for t' using SDM_frame [OF that] ninl by (simp add: SDM_ok_def)
    have "\<exists>t'. moveFromOldBuckets SDM_setNumEntries I old ?t = Some t' \<and> grow_law I (SDM_ok inl) a t t'"
      if "keys_inj I old" "stored I old = stored I (Buckets t)" "live_count I old = live_count I (Buckets t)" for old
      using that n e bs(2) by (intro rehash_grow_law [OF key SDM_plain ok(1), where k = h]) (auto intro: own)
    then show ?thesis
      using True n bs(1) ninl filter_live [of I "Buckets t"] inj by (auto simp: SDM_grow_def Let_def)
  next
    case False
    then have al: "a < inl" by simp
    moreover have "0 < unat a" using e by (simp add: word_less_nat_alt)
    ultimately have two: "2 \<le> inl" by (simp add: word_less_nat_alt word_le_nat_alt)
    show ?thesis
    proof (cases "Small t")
      case True
      then show ?thesis using ok al two False by (auto simp: SDM_grow_def Let_def grow_law_def SDM_ok_def)
    next
      case large: False
      let ?t = "SDM_use_inline I inl t"
      have len: "length (Buckets ?t) = unat (NumBuckets ?t)" using l by (simp add: SDM_use_inline_def lawful_map_def)
      have own: "SDM_ok inl t'" if "same_shape ?t t'" for t'
        using SDM_frame [OF that] by (simp add: SDM_ok_def SDM_use_inline_def)
      have "\<exists>t'. moveFromOldBuckets SDM_setNumEntries I (Buckets t) ?t = Some t' \<and> grow_law I (SDM_ok inl) a t t'"
        using e al two k len inj
        by (intro rehash_grow_law [OF key SDM_plain ok(1), where k = k]) (auto intro: own simp: SDM_use_inline_def)
      then show ?thesis using False large al by (auto simp: SDM_grow_def Let_def)
    qed
  qed
qed

lemma SDM_init_ok:
  assumes l: "lawful_map I" and inl: "inline_ok inl" and n: "n > inl \<Longrightarrow> \<exists>k. unat n = 2 ^ k"
  shows "\<exists>t'. SDM_init I inl n t = Some t' \<and> dm_ok I t' \<and> SDM_ok inl t' \<and> stored I (Buckets t') = Map.empty"
proof -
  define t1 where "t1 = (if n > inl then t\<lparr>Small := False, NumBuckets := n, Buckets := raw_mem I (sizeof_BucketT I * ucast n)\<rparr>
    else SDM_use_inline I inl t)"
  have len: "length (Buckets t1) = unat (NumBuckets t1)" using l by (simp add: t1_def SDM_use_inline_def lawful_map_def)
  have pow: "NumBuckets t1 = 0 \<or> (\<exists>k. unat (NumBuckets t1) = 2 ^ k)"
    using n inl by (auto simp: t1_def SDM_use_inline_def inline_ok_def)
  have own: "SDM_ok inl t1" by (simp add: t1_def SDM_ok_def SDM_use_inline_def)
  have "alloc_overflow (raw_mem I) (sizeof_BucketT I) (ucast n) = Some (raw_mem I (sizeof_BucketT I * ucast n))"
    using alloc_ok [OF l, of n] by (auto simp: alloc_overflow_def split: if_splits)
  then have "SDM_init I inl n t = initEmpty SDM_setNumEntries I t1"
    by (simp add: SDM_init_def t1_def SDM_allocateBuckets_def assert_opt_def)
  moreover obtain bs where "initEmpty SDM_setNumEntries I t1 = Some (t1\<lparr>NumEntries := 0, NumTombstones := 0, Buckets := bs\<rparr>)"
      "dm_ok I (t1\<lparr>NumEntries := 0, NumTombstones := 0, Buckets := bs\<rparr>)" "live_count I bs = 0"
    using initEmpty_ok [OF lawful_map_key [OF l] SDM_plain len pow] by blast
  moreover have "SDM_ok inl (t1\<lparr>NumEntries := 0, NumTombstones := 0, Buckets := bs\<rparr>)" for bs
    by (rule SDM_frame [OF _ own]) (simp add: same_shape_def)
  ultimately show ?thesis by (simp add: live_count_0)
qed

lemma SDM_shrink_ok:
  assumes l: "lawful_map I" and inl: "inline_ok inl" and ok: "dm_ok I t" "SDM_ok inl t" and small: "unat (NumBuckets t) \<le> 2 ^ 30"
    and e: "NumEntries t = 0 \<or> unat (NumEntries t) * 4 < unat (NumBuckets t)"
  shows "\<exists>t'. SDM_shrink_and_clear I inl t = Some t' \<and> dm_ok I t' \<and> SDM_ok inl t' \<and> stored I (Buckets t') = Map.empty"
proof -
  define n :: u32 where "n = (if NumEntries t \<noteq> 0 then push_bit (unat (Log2_32_Ceil (NumEntries t) + 1)) 1 else 0)"
  define m where "m = (if NumEntries t \<noteq> 0 \<and> n > inl \<and> n < MIN_BUCKETS then MIN_BUCKETS else n)"
  have pow: "\<exists>k. unat m = 2 ^ k" if "m > inl"
  proof -
    have nz: "NumEntries t \<noteq> 0" using that by (auto simp: m_def n_def)
    then have L: "unat (Log2_32_Ceil (NumEntries t) + 1) \<le> 29" using e small by (intro Log2_32_Ceil_small) (auto simp: unat_eq_zero)
    have n: "unat n = 2 ^ unat (Log2_32_Ceil (NumEntries t) + 1)"
      unfolding n_def if_P [OF nz] by (rule unat_push_bit_1) (use L in simp)
    show ?thesis
    proof (cases "NumEntries t \<noteq> 0 \<and> n > inl \<and> n < MIN_BUCKETS")
      case True
      then have "unat m = 2 ^ 2" by (simp add: m_def)
      then show ?thesis by blast
    next
      case False
      then have "m = n" unfolding m_def by (rule if_not_P)
      then show ?thesis using n by blast
    qed
  qed
  have bok: "bs_ok I (Buckets t)" and len: "length (Buckets t) = unat (NumBuckets t)" using ok by (simp_all add: dm_ok_def)
  have npow: "NumBuckets t = 0 \<or> (\<exists>k. unat (NumBuckets t) = 2 ^ k)"
  proof (cases "Buckets t = []")
    case True
    then show ?thesis using len by (simp add: unat_eq_zero)
  next
    case False
    then show ?thesis using bs_ok_pow2 [OF bok] len by metis
  qed
  show ?thesis
  proof (cases "Small t \<and> m \<le> inl \<or> \<not> Small t \<and> m = NumBuckets t")
    case True
    then have "SDM_shrink_and_clear I inl t = initEmpty SDM_setNumEntries I t"
      by (simp add: SDM_shrink_and_clear_def Let_def n_def [symmetric] m_def [symmetric])
    moreover obtain bs where "initEmpty SDM_setNumEntries I t = Some (t\<lparr>NumEntries := 0, NumTombstones := 0, Buckets := bs\<rparr>)"
        "dm_ok I (t\<lparr>NumEntries := 0, NumTombstones := 0, Buckets := bs\<rparr>)" "live_count I bs = 0"
      using initEmpty_ok [OF lawful_map_key [OF l] SDM_plain len npow] by blast
    moreover have "SDM_ok inl (t\<lparr>NumEntries := 0, NumTombstones := 0, Buckets := bs\<rparr>)" for bs
      by (rule SDM_frame [OF _ ok(2)]) (simp add: same_shape_def)
    ultimately show ?thesis by (simp add: live_count_0)
  next
    case False
    then have "SDM_shrink_and_clear I inl t = SDM_init I inl m t"
      by (auto simp: SDM_shrink_and_clear_def Let_def n_def [symmetric] m_def [symmetric])
    then show ?thesis using SDM_init_ok [OF l inl pow] by simp
  qed
qed

lemma SDM_impl:
  assumes "lawful_map I" "inline_ok inl"
  shows "dense_map_impl (SDM I inl) I (SDM_ok inl)"
  using lawful_map_key [OF assms(1)] SDM_plain SDM_frame SDM_grow_ok [OF assms] SDM_shrink_ok [OF assms]
  by unfold_locales (auto simp: SDM_def)

lemma inline_ok_4: "inline_ok 4"
  unfolding inline_ok_def by (intro conjI exI [of _ 2]) simp_all

interpretation small_counts: dense_map_impl "SDM (RefcountMap mem) 4" "RefcountMap mem" "SDM_ok 4"
  by (rule SDM_impl [OF RefcountMap_lawful inline_ok_4])

section \<open>Swapping\<close>

lemma bs_ok_units: "bs_ok I bs \<longleftrightarrow> bs_ok I (map (\<lambda>k. (k, ())) (map fst bs))"
proof -
  let ?us = "map (\<lambda>k. (k, ())) (map fst bs)"
  have nth: "fst (?us ! i) = fst (bs ! i)" if "i < length bs" for i using that by simp
  have c: "live_count I ?us = live_count I bs" "tomb_count I ?us = tomb_count I bs"
    by (simp_all add: live_count_def tomb_count_def filter_map comp_def)
  have pl: "placed I ?us k i = placed I bs k i" for k i
  proof -
    have "fst (?us ! probe (length bs) h q) = fst (bs ! probe (length bs) h q)" if "p < length bs" for h p q
      using that by (intro nth) (auto simp: probe_def intro!: mod_less_divisor)
    then show ?thesis unfolding placed_def by (metis length_map)
  qed
  have "keys_inj I ?us = keys_inj I bs" unfolding keys_inj_def using nth by (metis length_map)
  then show ?thesis unfolding bs_ok_def using c pl nth by (metis length_map map_is_Nil_conv)
qed

lemma same_live:
  assumes "list_all2 (\<lambda>a b. fst a = fst b \<and> (is_live I (fst b) \<longrightarrow> snd a = snd b)) bs bs'"
  shows "bs_ok I bs = bs_ok I bs'" "live_count I bs = live_count I bs'" "tomb_count I bs = tomb_count I bs'"
    "stored I bs = stored I bs'" "length bs = length bs'"
proof -
  have k: "map fst bs = map fst bs'" using assms by (induction rule: list_all2_induct) auto
  then show "bs_ok I bs = bs_ok I bs'" by (simp only: bs_ok_units [of I bs] bs_ok_units [of I bs'])
  show "live_count I bs = live_count I bs'" "tomb_count I bs = tomb_count I bs'"
    using arg_cong [OF k, of "\<lambda>ks. length (filter (is_live I) ks)"]
      arg_cong [OF k, of "\<lambda>ks. length (filter (\<lambda>k. isEqual I k (getTombstoneKey I)) ks)"]
    by (simp_all add: live_count_def tomb_count_def filter_map comp_def)
  show "stored I bs = stored I bs'"
    using assms by (induction rule: list_all2_induct) (auto simp: stored_Cons)
  show "length bs = length bs'" using assms by (rule list_all2_lengthD)
qed

lemma swapped_buckets:
  assumes "length bs = length bs'"
  shows "list_all2 (\<lambda>a b. fst a = fst b \<and> (is_live I (fst b) \<longrightarrow> snd a = snd b)) (map fst (map2 (swap_bucket I) bs bs')) bs'"
    "list_all2 (\<lambda>a b. fst a = fst b \<and> (is_live I (fst b) \<longrightarrow> snd a = snd b)) (map snd (map2 (swap_bucket I) bs bs')) bs"
  using assms by (induction bs bs' rule: list_induct2) (auto simp: swap_bucket_def Let_def)

lemma moved_buckets:
  assumes "length raw = length bs"
  shows "list_all2 (\<lambda>a b. fst a = fst b \<and> (is_live I (fst b) \<longrightarrow> snd a = snd b)) (map2 (move_bucket I) raw bs) bs"
  using assms by (induction raw bs rule: list_induct2) (auto simp: move_bucket_def)

section \<open>Properties\<close>

text \<open>
  C16: a run of assignments, erasures, clears and lookups on a \<open>SmallDenseMap\<close> does to the map
  of its entries what the operations say, whether the entries are inline or not.
\<close>

theorem SmallDenseMap_refines_map:
  assumes "lawful_map I" "purge_default I" "inline_ok inl" "dm_ok I t" "SDM_ok inl t" "fits (SDM I inl) I ps t"
  shows "\<exists>vs t'. table_run (SDM I inl) I ps t = Some (vs, t') \<and> dm_ok I t' \<and> SDM_ok inl t' \<and>
    (vs, dm_map I t') = map_run I ps (dm_map I t)"
  using dense_map_impl.run_refines [OF SDM_impl [OF assms(1,3)] assms(2,4,5,6)] by blast

text \<open>
  C17: swapping two small maps exchanges their entries and keeps both well-formed, in each of
  the cases of inline and allocated buckets.
\<close>

theorem SmallDenseMap_swap:
  assumes l: "lawful_map I" and t: "dm_ok I t" "SDM_ok inl t" and R: "dm_ok I RHS" "SDM_ok inl RHS"
    and s: "SDM_swap I inl (t, RHS) = (t', R')"
  shows "dm_ok I t' \<and> SDM_ok inl t' \<and> dm_map I t' = dm_map I RHS \<and> dm_ok I R' \<and> SDM_ok inl R' \<and> dm_map I R' = dm_map I t"
proof -
  have len: "length (raw_mem I (sizeof_BucketT I * ucast inl)) = unat inl" using l by (simp add: lawful_map_def)
  consider "Small t \<and> Small RHS" | "\<not> Small t \<and> \<not> Small RHS" | "Small t \<and> \<not> Small RHS" | "\<not> Small t \<and> Small RHS" by blast
  then show ?thesis
  proof cases
    case 1
    then have "length (Buckets t) = length (Buckets RHS)" using t R by (simp add: dm_ok_def SDM_ok_def)
    note sw = same_live [OF swapped_buckets(1) [OF this, of I]] same_live [OF swapped_buckets(2) [OF this, of I]]
    show ?thesis using 1 s t R sw by (auto simp: SDM_swap_def Let_def dm_ok_def SDM_ok_def dm_map_def)
  next
    case 2
    then show ?thesis using s t R by (auto simp: SDM_swap_def Let_def dm_ok_def SDM_ok_def dm_map_def)
  next
    case 3
    then have "length (raw_mem I (sizeof_BucketT I * ucast inl)) = length (Buckets t)" using len t by (simp add: dm_ok_def SDM_ok_def)
    note sw = same_live [OF moved_buckets [OF this, of I]]
    show ?thesis using 3 s t R sw by (auto simp: SDM_swap_def Let_def dm_ok_def SDM_ok_def dm_map_def SDM_use_inline_def)
  next
    case 4
    then have "length (raw_mem I (sizeof_BucketT I * ucast inl)) = length (Buckets RHS)" using len R by (simp add: dm_ok_def SDM_ok_def)
    note sw = same_live [OF moved_buckets [OF this, of I]]
    show ?thesis using 4 s t R sw by (auto simp: SDM_swap_def Let_def dm_ok_def SDM_ok_def dm_map_def SDM_use_inline_def)
  qed
qed

section \<open>Witnesses\<close>

definition sample_small :: "u32 \<Rightarrow> (u32, u32) small_table" where
  "sample_small v =
     \<lparr>Buckets = [(-1, 0), (5, v), (-1, 0), (-1, 0)], NumEntries = 1, NumTombstones = 0, NumBuckets = 4, Small = True\<rparr>"

lemma sample_small_ok: "dm_ok unsigned_map (sample_small v)" "SDM_ok 4 (sample_small v)"
proof -
  have k: "map fst (Buckets (sample_small v)) = map fst (Buckets sample_table)" by (simp add: sample_small_def sample_table_def)
  have "bs_ok unsigned_map (Buckets (sample_small v))"
    using sample_table_ok unfolding dm_ok_def bs_ok_units [of _ "Buckets (sample_small v)"] k bs_ok_units [of _ "Buckets sample_table"] by simp
  then show "dm_ok unsigned_map (sample_small v)"
    by (simp add: dm_ok_def sample_small_def live_count_def tomb_count_def is_live_def unsigned_map_def info_unsigned_def)
  show "SDM_ok 4 (sample_small v)" by (simp add: SDM_ok_def sample_small_def)
qed

theorem SmallDenseMap_refines_map_witness:
  "\<exists>t'. table_run (SDM unsigned_map 4) unsigned_map [Op_assign 5 51, Op_lookup 5, Op_erase 5, Op_lookup 5] (sample_small 50) =
     Some ([51, 0], t') \<and> SDM_ok 4 t'"
proof -
  let ?ps = "[Op_assign 5 51, Op_lookup 5, Op_erase 5, Op_lookup 5]"
  have f: "fits (SDM unsigned_map 4) unsigned_map ?ps (sample_small 50)" by code_simp
  have p: "purge_default unsigned_map" by (simp add: purge_default_def unsigned_map_def)
  obtain vs t' where r: "table_run (SDM unsigned_map 4) unsigned_map ?ps (sample_small 50) = Some (vs, t')" "SDM_ok 4 t'"
      "(vs, dm_map unsigned_map t') = map_run unsigned_map ?ps (dm_map unsigned_map (sample_small 50))"
    using SmallDenseMap_refines_map [OF unsigned_map_lawful(1) p inline_ok_4 sample_small_ok f] by blast
  moreover have "fst (map_run unsigned_map ?ps (dm_map unsigned_map (sample_small 50))) = [51, 0]"
    by (simp add: unsigned_map_def)
  ultimately show ?thesis by (metis fst_conv)
qed

theorem SmallDenseMap_swap_witness:
  "dm_ok unsigned_map (fst (SDM_swap unsigned_map 4 (sample_small 50, sample_small 51))) \<and>
   dm_map unsigned_map (fst (SDM_swap unsigned_map 4 (sample_small 50, sample_small 51))) 5 = Some 51"
proof -
  have "dm_map unsigned_map (sample_small 51) 5 = Some 51"
    by (simp add: dm_map_def drop_purgeable_def stored_def sample_small_def is_live_def unsigned_map_def info_unsigned_def)
  then show ?thesis
    using SmallDenseMap_swap [OF unsigned_map_lawful(1) sample_small_ok sample_small_ok prod.collapse [symmetric], of 50 51]
    by simp
qed

end
