(* ===== verification/BlockLayout.thy ===== *)
theory BlockLayout
  imports RawObjects
begin

text \<open>
  Blocks as the blocks runtime sees them (\<^verbatim>\<open>libclosure\<close>: \<^verbatim>\<open>runtime.cpp\<close>, \<^verbatim>\<open>Block_private.h\<close>): the
  flags word with its latching reference count, and the descriptor, which is either a
  large one of pointers or a small one of 32-bit offsets relative to the field they are in.
  The build is the one without pointer authentication, where small descriptors are
  supported. Memory is a function from addresses to bytes, read in little-endian order.

  A compare-and-swap loop runs against a schedule: each element is what another thread has
  stored in the word between the load and the conditional store, which fails if it differs.
\<close>

section \<open>Flags\<close>

definition BLOCK_DEALLOCATING :: u32 where "BLOCK_DEALLOCATING = 0x0001"
definition BLOCK_REFCOUNT_MASK :: u32 where "BLOCK_REFCOUNT_MASK = 0xfffe"
definition BLOCK_INLINE_LAYOUT_STRING :: u32 where "BLOCK_INLINE_LAYOUT_STRING = push_bit 21 1"
definition BLOCK_SMALL_DESCRIPTOR :: u32 where "BLOCK_SMALL_DESCRIPTOR = push_bit 22 1"
definition BLOCK_NEEDS_FREE :: u32 where "BLOCK_NEEDS_FREE = push_bit 24 1"
definition BLOCK_HAS_COPY_DISPOSE :: u32 where "BLOCK_HAS_COPY_DISPOSE = push_bit 25 1"
definition BLOCK_IS_GLOBAL :: u32 where "BLOCK_IS_GLOBAL = push_bit 28 1"
definition BLOCK_USE_STRET :: u32 where "BLOCK_USE_STRET = push_bit 29 1"
definition BLOCK_HAS_SIGNATURE :: u32 where "BLOCK_HAS_SIGNATURE = push_bit 30 1"
definition BLOCK_HAS_EXTENDED_LAYOUT :: u32 where "BLOCK_HAS_EXTENDED_LAYOUT = push_bit 31 1"

lemmas block_flag_defs = BLOCK_DEALLOCATING_def BLOCK_REFCOUNT_MASK_def BLOCK_INLINE_LAYOUT_STRING_def
  BLOCK_SMALL_DESCRIPTOR_def BLOCK_NEEDS_FREE_def BLOCK_HAS_COPY_DISPOSE_def BLOCK_IS_GLOBAL_def
  BLOCK_USE_STRET_def BLOCK_HAS_SIGNATURE_def BLOCK_HAS_EXTENDED_LAYOUT_def

section \<open>The latching count\<close>

fun latching_incr_int :: "u32 list \<Rightarrow> u32 \<Rightarrow> u32 \<times> u32" where
  "latching_incr_int [] old_value =
     (if old_value AND BLOCK_REFCOUNT_MASK = BLOCK_REFCOUNT_MASK then (BLOCK_REFCOUNT_MASK, old_value)
      else (old_value + 2, old_value + 2))"
| "latching_incr_int (other # sched) old_value =
     (if old_value AND BLOCK_REFCOUNT_MASK = BLOCK_REFCOUNT_MASK then (BLOCK_REFCOUNT_MASK, old_value)
      else if other = old_value then (old_value + 2, old_value + 2)
      else latching_incr_int sched other)"

fun latching_incr_int_not_deallocating :: "u32 list \<Rightarrow> u32 \<Rightarrow> bool \<times> u32" where
  "latching_incr_int_not_deallocating [] old_value =
     (if old_value AND BLOCK_DEALLOCATING \<noteq> 0 then (False, old_value)
      else if old_value AND BLOCK_REFCOUNT_MASK = BLOCK_REFCOUNT_MASK then (True, old_value)
      else (True, old_value + 2))"
| "latching_incr_int_not_deallocating (other # sched) old_value =
     (if old_value AND BLOCK_DEALLOCATING \<noteq> 0 then (False, old_value)
      else if old_value AND BLOCK_REFCOUNT_MASK = BLOCK_REFCOUNT_MASK then (True, old_value)
      else if other = old_value then (True, old_value + 2)
      else latching_incr_int_not_deallocating sched other)"

definition decr_result :: "u32 \<Rightarrow> bool \<times> u32" where
  "decr_result old_value =
     (if old_value AND (BLOCK_REFCOUNT_MASK OR BLOCK_DEALLOCATING) = 2 then (True, old_value - 1)
      else (False, old_value - 2))"

fun latching_decr_int_should_deallocate :: "u32 list \<Rightarrow> u32 \<Rightarrow> bool \<times> u32" where
  "latching_decr_int_should_deallocate [] old_value =
     (if old_value AND BLOCK_REFCOUNT_MASK = BLOCK_REFCOUNT_MASK then (False, old_value)
      else if old_value AND BLOCK_REFCOUNT_MASK = 0 then (False, old_value)
      else decr_result old_value)"
| "latching_decr_int_should_deallocate (other # sched) old_value =
     (if old_value AND BLOCK_REFCOUNT_MASK = BLOCK_REFCOUNT_MASK then (False, old_value)
      else if old_value AND BLOCK_REFCOUNT_MASK = 0 then (False, old_value)
      else if other = old_value then decr_result old_value
      else latching_decr_int_should_deallocate sched other)"

section \<open>Descriptors\<close>

type_synonym memory = "u64 \<Rightarrow> u8"

definition rd32 :: "memory \<Rightarrow> u64 \<Rightarrow> u32" where
  "rd32 m a = (\<Sum>i\<leftarrow>[0..<4]. push_bit (8 * i) (ucast (m (a + of_nat i))))"

definition rd64 :: "memory \<Rightarrow> u64 \<Rightarrow> u64" where
  "rd64 m a = (\<Sum>i\<leftarrow>[0..<8]. push_bit (8 * i) (ucast (m (a + of_nat i))))"

record Block_layout =
  bl_isa :: u64
  bl_flags :: u32
  bl_reserved :: u32
  bl_invoke :: u64
  bl_descriptor :: u64

definition has_flag :: "Block_layout \<Rightarrow> u32 \<Rightarrow> bool" where
  "has_flag aBlock f \<longleftrightarrow> bl_flags aBlock AND f \<noteq> 0"

definition Block_get_descriptor :: "Block_layout \<Rightarrow> u64" where
  "Block_get_descriptor aBlock = bl_descriptor aBlock"

definition unwrap_relative_pointer :: "memory \<Rightarrow> u64 \<Rightarrow> u64" where
  "unwrap_relative_pointer m base =
     (let offset = rd32 m base in
      if offset = 0 then 0 else base + scast offset)"

definition Block_descriptor_2 :: "Block_layout \<Rightarrow> u64" where
  "Block_descriptor_2 aBlock = Block_get_descriptor aBlock + 16"

definition Block_descriptor_3 :: "Block_layout \<Rightarrow> u64" where
  "Block_descriptor_3 aBlock =
     (let desc = Block_get_descriptor aBlock + 16 in
      if has_flag aBlock BLOCK_HAS_COPY_DISPOSE then desc + 16 else desc)"

definition Block_size :: "memory \<Rightarrow> Block_layout \<Rightarrow> u64" where
  "Block_size m aBlock =
     (let desc = Block_get_descriptor aBlock in
      if has_flag aBlock BLOCK_SMALL_DESCRIPTOR then ucast (take_bit 31 (rd32 m desc))
      else rd64 m (desc + 8))"

definition Block_use_stret :: "Block_layout \<Rightarrow> bool" where
  "Block_use_stret aBlock \<longleftrightarrow>
     bl_flags aBlock AND (BLOCK_HAS_SIGNATURE OR BLOCK_USE_STRET) = BLOCK_HAS_SIGNATURE OR BLOCK_USE_STRET"

definition Block_signature :: "memory \<Rightarrow> Block_layout \<Rightarrow> u64" where
  "Block_signature m aBlock =
     (if \<not> has_flag aBlock BLOCK_HAS_SIGNATURE then 0
      else if has_flag aBlock BLOCK_SMALL_DESCRIPTOR
      then unwrap_relative_pointer m (Block_get_descriptor aBlock + 4)
      else rd64 m (Block_descriptor_3 aBlock))"

definition Block_has_signature :: "memory \<Rightarrow> Block_layout \<Rightarrow> bool" where
  "Block_has_signature m aBlock \<longleftrightarrow> Block_signature m aBlock \<noteq> 0"

definition Block_layout_string :: "memory \<Rightarrow> Block_layout \<Rightarrow> u64" where
  "Block_layout_string m aBlock =
     (if has_flag aBlock BLOCK_HAS_EXTENDED_LAYOUT \<or> \<not> has_flag aBlock BLOCK_HAS_SIGNATURE then 0
      else if has_flag aBlock BLOCK_SMALL_DESCRIPTOR
      then unwrap_relative_pointer m (Block_get_descriptor aBlock + 8)
      else rd64 m (Block_descriptor_3 aBlock + 8))"

text \<open>\<open>empty_string\<close> is the address of the literal the code returns for a null layout.\<close>

definition Block_extended_layout :: "memory \<Rightarrow> u64 \<Rightarrow> Block_layout \<Rightarrow> u64" where
  "Block_extended_layout m empty_string aBlock =
     (if \<not> has_flag aBlock BLOCK_HAS_EXTENDED_LAYOUT \<or> \<not> has_flag aBlock BLOCK_HAS_SIGNATURE then 0
      else
        let extLayout =
          (if has_flag aBlock BLOCK_SMALL_DESCRIPTOR then
             if has_flag aBlock BLOCK_INLINE_LAYOUT_STRING then scast (rd32 m (Block_get_descriptor aBlock + 8))
             else unwrap_relative_pointer m (Block_get_descriptor aBlock + 8)
           else rd64 m (Block_descriptor_3 aBlock + 8)) in
        if extLayout = 0 then empty_string else extLayout)"

text \<open>Offsets to functions are taken without a test for zero.\<close>

definition relative_function_pointer :: "memory \<Rightarrow> u64 \<Rightarrow> u64" where
  "relative_function_pointer m field = field + scast (rd32 m field)"

definition Block_get_copy_function :: "memory \<Rightarrow> Block_layout \<Rightarrow> u64" where
  "Block_get_copy_function m aBlock =
     (if \<not> has_flag aBlock BLOCK_HAS_COPY_DISPOSE then 0
      else if has_flag aBlock BLOCK_SMALL_DESCRIPTOR
      then relative_function_pointer m (Block_get_descriptor aBlock + 12)
      else rd64 m (Block_descriptor_2 aBlock))"

definition Block_get_dispose_function :: "memory \<Rightarrow> Block_layout \<Rightarrow> u64" where
  "Block_get_dispose_function m aBlock =
     (if \<not> has_flag aBlock BLOCK_HAS_COPY_DISPOSE then 0
      else if has_flag aBlock BLOCK_SMALL_DESCRIPTOR
      then relative_function_pointer m (Block_get_descriptor aBlock + 16)
      else rd64 m (Block_descriptor_2 aBlock + 8))"

section \<open>Generic helper information\<close>

definition extractBitfield :: "nat \<Rightarrow> nat \<Rightarrow> u32 \<Rightarrow> u32" where
  "extractBitfield pos width layoutint = drop_bit pos layoutint AND (push_bit width 1 - 1)"

definition hasInDescriptorFlags :: "memory \<Rightarrow> Block_layout \<Rightarrow> bool" where
  "hasInDescriptorFlags m aBlock \<longleftrightarrow>
     (let desc = Block_get_descriptor aBlock in
      if has_flag aBlock BLOCK_SMALL_DESCRIPTOR then bit (rd32 m desc) 31 else rd64 m desc \<noteq> 0)"

definition getInDescriptorFlags :: "memory \<Rightarrow> Block_layout \<Rightarrow> u32" where
  "getInDescriptorFlags m aBlock =
     (let desc = Block_get_descriptor aBlock in
      if has_flag aBlock BLOCK_SMALL_DESCRIPTOR then rd32 m (desc - 4) else ucast (rd64 m desc))"

definition hasInlineExtendedLayout :: "memory \<Rightarrow> u64 \<Rightarrow> Block_layout \<Rightarrow> bool" where
  "hasInlineExtendedLayout m empty_string bl \<longleftrightarrow> Block_extended_layout m empty_string bl < 0x1000"

definition getGenericHelperInfo :: "memory \<Rightarrow> Block_layout \<Rightarrow> bool \<Rightarrow> u64" where
  "getGenericHelperInfo m aBlock IsInline =
     (let desc = Block_get_descriptor aBlock in
      if has_flag aBlock BLOCK_SMALL_DESCRIPTOR then
        if IsInline then ucast (rd32 m (desc - 8)) else unwrap_relative_pointer m (desc - 8)
      else rd64 m (desc - 8))"

definition getGenericHelperFlags :: "memory \<Rightarrow> Block_layout \<Rightarrow> u32" where
  "getGenericHelperFlags m aBlock = extractBitfield 14 2 (getInDescriptorFlags m aBlock)"

definition getOutOfLineOpcodeCount :: "u8 \<Rightarrow> nat \<times> nat" where
  "getOutOfLineOpcodeCount c = (unat (drop_bit 4 c AND 0xf), unat (c AND 0xf) + 1)"

section \<open>Arithmetic of the count\<close>

definition bcount :: "u32 \<Rightarrow> nat" where
  "bcount w = unat w div 2 mod 32768"

text \<open>Everything in the flags but the count: the deallocating bit and the upper half.\<close>

definition same_rest :: "u32 \<Rightarrow> u32 \<Rightarrow> bool" where
  "same_rest w w' \<longleftrightarrow> drop_bit 16 w' = drop_bit 16 w \<and> bit w' 0 = bit w 0"

lemma and_push_mask: "w AND push_bit j (mask k) = push_bit j (take_bit k (drop_bit j w))" for w :: u32
  by (intro bit_word_eqI) (auto simp: bit_simps)

lemma bit_0_unat: "bit w 0 \<longleftrightarrow> unat w mod 2 = 1" for w :: u32
  using bit_unat [of w 0] by (simp add: bit_0 odd_iff_mod_2_eq_one)

lemma unat_count: "unat (w AND BLOCK_REFCOUNT_MASK) = 2 * bcount w"
proof -
  have m: "BLOCK_REFCOUNT_MASK = push_bit 1 (mask 15)" by (simp add: BLOCK_REFCOUNT_MASK_def mask_numeral)
  have e: "w AND BLOCK_REFCOUNT_MASK = push_bit 1 (take_bit 15 (drop_bit 1 w))"
    unfolding m by (rule and_push_mask)
  have "unat (take_bit 15 (drop_bit 1 w)) = bcount w" by (simp add: bcount_def unat_take_bit unat_drop_bit)
  moreover have "bcount w < 32768" by (simp add: bcount_def)
  ultimately show ?thesis unfolding e by (simp add: push_bit_eq_mult unat_word_ariths)
qed

lemma count_tests:
  "w AND BLOCK_REFCOUNT_MASK = BLOCK_REFCOUNT_MASK \<longleftrightarrow> bcount w = 32767"
  "w AND BLOCK_REFCOUNT_MASK = 0 \<longleftrightarrow> bcount w = 0"
proof -
  have "unat BLOCK_REFCOUNT_MASK = 2 * 32767" by (simp add: BLOCK_REFCOUNT_MASK_def)
  then show "w AND BLOCK_REFCOUNT_MASK = BLOCK_REFCOUNT_MASK \<longleftrightarrow> bcount w = 32767"
    using unat_count [of w] by (simp add: word_unat_eq_iff)
  show "w AND BLOCK_REFCOUNT_MASK = 0 \<longleftrightarrow> bcount w = 0"
    using unat_count [of w] by (simp add: word_unat_eq_iff)
qed

lemma dealloc_test: "w AND BLOCK_DEALLOCATING \<noteq> 0 \<longleftrightarrow> bit w 0"
  by (simp add: BLOCK_DEALLOCATING_def and_one_eq bit_0 odd_iff_mod_2_eq_one)

lemma last_test: "w AND (BLOCK_REFCOUNT_MASK OR BLOCK_DEALLOCATING) = 2 \<longleftrightarrow> bcount w = 1 \<and> \<not> bit w 0"
proof -
  have m: "BLOCK_REFCOUNT_MASK OR BLOCK_DEALLOCATING = mask 16" by (simp add: block_flag_defs mask_numeral)
  have u: "unat (w AND mask 16) = 2 * bcount w + unat w mod 2"
    using mod_mult2_eq [of "unat w" 2 32768] by (simp add: take_bit_eq_mask [symmetric] unat_take_bit bcount_def)
  have "w AND mask 16 = 2 \<longleftrightarrow> unat (w AND mask 16) = 2" by (simp add: word_unat_eq_iff)
  then show ?thesis unfolding m u bit_0_unat by presburger
qed

lemma nat_incr:
  fixes n :: nat
  assumes "n div 2 mod 32768 < 32767"
  shows "(n + 2) div 2 mod 32768 = n div 2 mod 32768 + 1" "(n + 2) div 65536 = n div 65536" "(n + 2) mod 2 = n mod 2"
proof -
  have s: "(n + 2) div 2 = Suc (n div 2)" by simp
  show "(n + 2) div 2 mod 32768 = n div 2 mod 32768 + 1" unfolding s using assms by (simp add: mod_Suc)
  have "(n + 2) div (2 * 32768) = Suc (n div 2) div 32768" unfolding div_mult2_eq s ..
  also have "\<dots> = n div 2 div 32768" using assms by (simp add: div_Suc mod_Suc)
  also have "\<dots> = n div (2 * 32768)" unfolding div_mult2_eq ..
  finally show "(n + 2) div 65536 = n div 65536" by simp
  show "(n + 2) mod 2 = n mod 2" by simp
qed

lemma same_rest_nat: "same_rest w w' \<longleftrightarrow> unat w' div 65536 = unat w div 65536 \<and> unat w' mod 2 = unat w mod 2"
proof -
  have "drop_bit 16 w' = drop_bit 16 w \<longleftrightarrow> unat (drop_bit 16 w') = unat (drop_bit 16 w)"
    by (rule word_unat_eq_iff)
  then show ?thesis unfolding same_rest_def unat_drop_bit bit_0_unat by auto
qed

lemma incr_count:
  assumes "bcount w \<noteq> 32767"
  shows "bcount (w + 2) = bcount w + 1" "same_rest w (w + 2)"
proof -
  have lt: "unat w div 2 mod 32768 < 32767" using assms mod_less_divisor [of 32768 "unat w div 2"] unfolding bcount_def by linarith
  have "unat w + 2 < 2 ^ 32"
  proof (rule ccontr)
    assume "\<not> unat w + 2 < 2 ^ 32"
    moreover have "unat w < 2 ^ 32" using unsigned_less [of w, where ?'a = nat] by simp
    ultimately have "unat w = 4294967294 \<or> unat w = 4294967295" by auto
    then show False using lt by auto
  qed
  then have u: "unat (w + 2) = unat w + 2" by (simp add: unat_word_ariths)
  show "bcount (w + 2) = bcount w + 1" "same_rest w (w + 2)"
    unfolding bcount_def same_rest_nat u using nat_incr [OF lt] by auto
qed

lemma decr_count:
  assumes "bcount w \<noteq> 0"
  shows "bcount (w - 2) = bcount w - 1" "same_rest w (w - 2)"
proof -
  have "2 \<le> unat w" using assms unfolding bcount_def by (cases "unat w < 2") auto
  then have u: "unat w = unat (w - 2) + 2" by (subst unat_sub) (simp_all add: word_le_nat_alt)
  have "Suc (unat (w - 2) div 2) mod 32768 = bcount w" unfolding bcount_def u by simp
  then have c: "unat (w - 2) div 2 mod 32768 + 1 = bcount w" using assms by (auto simp: mod_Suc split: if_splits)
  then have "unat (w - 2) div 2 mod 32768 < 32767" unfolding bcount_def using mod_less_divisor [of 32768 "unat w div 2"] by linarith
  note inc = nat_incr [OF this]
  show "bcount (w - 2) = bcount w - 1" using c unfolding bcount_def by simp
  show "same_rest w (w - 2)" unfolding same_rest_nat using inc(2,3) u by simp
qed

lemma last_count:
  assumes "bcount w = 1" "\<not> bit w 0"
  shows "bcount (w - 1) = 0" "bit (w - 1) 0" "drop_bit 16 (w - 1) = drop_bit 16 w"
proof -
  have e: "unat w mod 2 = 0" using assms(2) by (simp add: bit_0_unat)
  have "unat w mod 65536 = 2" using mod_mult2_eq [of "unat w" 2 32768] assms(1) e by (simp add: bcount_def)
  then obtain q where q: "unat w = 65536 * q + 2" by (metis mult_div_mod_eq)
  have u: "unat (w - 1) = 65536 * q + 1" using q by (subst unat_sub) (simp_all add: word_le_nat_alt)
  have d: "(65536 * q + 1) div 2 = 32768 * q" "(65536 * q + 1) div 65536 = q" "(65536 * q + 2) div 65536 = q"
    by (rule div_nat_eqI; simp)+
  then show "bcount (w - 1) = 0" unfolding bcount_def u d(1) by simp
  have "odd (65536 * q + 1)" by simp
  then have "(65536 * q + 1) mod 2 = 1" by (simp only: odd_iff_mod_2_eq_one)
  then show "bit (w - 1) 0" unfolding bit_0_unat u .
  show "drop_bit 16 (w - 1) = drop_bit 16 w" using d(2,3) by (simp add: word_unat_eq_iff unat_drop_bit u q)
qed

lemmas count_simps = count_tests dealloc_test last_test incr_count decr_count last_count

section \<open>The count is a counter\<close>

definition blk_retain :: "u32 \<Rightarrow> (u32 \<times> u32) option" where
  "blk_retain w = Some (latching_incr_int [] w)"

definition blk_release :: "u32 \<Rightarrow> (bool \<times> u32) option" where
  "blk_release w = Some (latching_decr_int_should_deallocate [] w)"

definition blk_room :: "nat \<Rightarrow> u32 \<Rightarrow> bool" where
  "blk_room n w \<longleftrightarrow> bcount w + n < 32767 \<and> (0 < bcount w \<longrightarrow> \<not> bit w 0)"

interpretation blk: counter blk_retain blk_release bcount blk_room
proof
  fix n w
  show "blk_room (Suc n) w \<Longrightarrow> blk_room n w" by (simp add: blk_room_def)
  show "\<exists>r w'. blk_retain w = Some (r, w') \<and> bcount w' = Suc (bcount w) \<and> blk_room n w'"
    if "blk_room (Suc n) w" "0 < bcount w"
    using that incr_count [of w] by (auto simp: blk_retain_def blk_room_def count_tests same_rest_def)
  show "\<exists>w'. blk_release w = Some (bcount w = 1, w') \<and> bcount w' = bcount w - 1 \<and> blk_room n w'"
    if "blk_room n w" "0 < bcount w"
    using that decr_count [of w] last_count [of w]
    by (auto simp: blk_release_def blk_room_def count_tests decr_result_def last_test same_rest_def)
qed

section \<open>Properties\<close>



text \<open>
  C19: a sequence of retains and releases of a heap block, none of them after the last
  reference is gone and few enough for the count not to latch, answers on each release
  whether it was the last one, and ends with the count the specification says.
\<close>

theorem block_refcount_refines_counter:
  assumes "bcount w + length ops < 0x7fff" "\<not> bit w 0" "spec_ops ops (bcount w) = Some (answers, n)"
  shows "\<exists>w'. run_ops blk_retain blk_release ops w = Some (answers, w') \<and> bcount w' = n"
  using assms by (intro blk.ops_refine) (auto simp: blk_room_def)

theorem block_refcount_refines_counter_witness:
  "\<exists>w'. run_ops blk_retain blk_release [True, False, False] 0x1000002 = Some ([False, True], w') \<and> bcount w' = 0"
  using block_refcount_refines_counter [of "0x1000002" "[True, False, False]" "[False, True]" 0] by (simp add: bcount_def bit_0)

text \<open>
  The offset from a field of a small descriptor to an address less than two gigabytes
  away, other than the field itself, leads back to that address.
\<close>

lemma relative_pointer_roundtrip:
  assumes "p \<noteq> base" "- (2 ^ 31) \<le> sint (p - base)" "sint (p - base) < 2 ^ 31" "rd32 m base = ucast (p - base)"
  shows "unwrap_relative_pointer m base = p"
proof -
  let ?d = "p - base"
  have "signed_take_bit 31 (sint ?d) = sint ?d" using assms(2,3) by (simp add: signed_take_bit_int_eq_self_iff)
  moreover have "signed_take_bit 31 (sint ?d) = signed_take_bit 31 (uint ?d)" by (simp add: sint_uint)
  moreover have "sint (ucast ?d :: u32) = signed_take_bit 31 (uint ?d)" by (simp add: signed_ucast_eq)
  ultimately have s: "sint (ucast ?d :: u32) = sint ?d" by simp
  have sc: "scast (ucast ?d :: u32) = ?d" by (simp add: scast_eq s)
  have "(ucast ?d :: u32) \<noteq> 0"
  proof
    assume "(ucast ?d :: u32) = 0"
    then have "?d = 0" using sc by simp
    then show False using assms(1) by simp
  qed
  then show ?thesis unfolding unwrap_relative_pointer_def Let_def assms(4) sc by simp
qed

end
