(* ===== verification/BlockHelpers.thy ===== *)
theory BlockHelpers
  imports BlockLayout
begin

text \<open>
  The generic copy and dispose helpers of blocks (\<^verbatim>\<open>runtime.cpp\<close>, \<^verbatim>\<open>generic_helpers.c\<close>), which
  walk the captures of a block as described by one of four encodings and undo a copy that
  an exception cuts short. The build is the one with unwinding, Objective-C and
  assertions; a failed assertion is the outcome \<open>Fails\<close>.

  A position among the captures is a byte offset from the head of the block; the source and
  the destination pointer of the code are the two offsets \<open>srccapptr\<close> and \<open>capptr\<close>. What is done
  to a capture is a call of another function; \<open>perform\<close> says what that call does to the state
  of the program, and whether it throws. The custom helpers the compiler generates are a
  parameter too. A string of captures ends at its terminator, which the fuel of the walk has
  to reach.
\<close>

section \<open>Calls and outcomes\<close>

datatype capture_call =
    Call_objc_retain nat | Call_objc_release nat | Call_objc_copyWeak nat nat | Call_objc_destroyWeak nat
  | Call_object_assign nat nat u32 | Call_object_dispose nat u32

datatype 'a outcome = Returns 'a | Throws 'a | Fails | Out_of_fuel

fun and_then :: "'a outcome \<Rightarrow> ('a \<Rightarrow> 'b outcome) \<Rightarrow> ('a \<Rightarrow> 'b) \<Rightarrow> 'b outcome" where
  "and_then (Returns x) f g = f x"
| "and_then (Throws x) f g = Throws (g x)"
| "and_then Fails f g = Fails"
| "and_then Out_of_fuel f g = Out_of_fuel"

abbreviation (input) BCK_DONE :: nat where "BCK_DONE \<equiv> 0"
abbreviation (input) BCK_NON_OBJECT_BYTES :: nat where "BCK_NON_OBJECT_BYTES \<equiv> 1"
abbreviation (input) BCK_NON_OBJECT_WORDS :: nat where "BCK_NON_OBJECT_WORDS \<equiv> 2"
abbreviation (input) BCK_STRONG :: nat where "BCK_STRONG \<equiv> 3"
abbreviation (input) BCK_BLOCK :: nat where "BCK_BLOCK \<equiv> 4"
abbreviation (input) BCK_BYREF :: nat where "BCK_BYREF \<equiv> 5"
abbreviation (input) BCK_WEAK :: nat where "BCK_WEAK \<equiv> 6"
abbreviation (input) BLOCK_FIELD_IS_BLOCK :: u32 where "BLOCK_FIELD_IS_BLOCK \<equiv> 7"
abbreviation (input) BLOCK_FIELD_IS_BYREF :: u32 where "BLOCK_FIELD_IS_BYREF \<equiv> 8"

record helper =
  capptr :: nat
  srccapptr :: nat
  capcounter :: nat

definition copy_call :: "nat \<Rightarrow> nat \<Rightarrow> nat \<Rightarrow> capture_call option" where
  "copy_call BCK dst src =
     (if BCK = BCK_STRONG then Some (Call_objc_retain src)
      else if BCK = BCK_BYREF then Some (Call_object_assign dst src BLOCK_FIELD_IS_BYREF)
      else if BCK = BCK_BLOCK then Some (Call_object_assign dst src BLOCK_FIELD_IS_BLOCK)
      else if BCK = BCK_WEAK then Some (Call_objc_copyWeak dst src)
      else None)"

definition dispose_call :: "nat \<Rightarrow> nat \<Rightarrow> capture_call option" where
  "dispose_call BCK p =
     (if BCK = BCK_STRONG then Some (Call_objc_release p)
      else if BCK = BCK_BYREF then Some (Call_object_dispose p BLOCK_FIELD_IS_BYREF)
      else if BCK = BCK_BLOCK then Some (Call_object_dispose p BLOCK_FIELD_IS_BLOCK)
      else if BCK = BCK_WEAK then Some (Call_objc_destroyWeak p)
      else None)"

text \<open>
  The four functions of the Objective-C runtime are declared \<^verbatim>\<open>noexcept\<close>: an exception that
  leaves one of them ends the program.
\<close>

definition is_noexcept :: "capture_call \<Rightarrow> bool" where
  "is_noexcept c = (case c of Call_object_assign d s f \<Rightarrow> False | Call_object_dispose p f \<Rightarrow> False | _ \<Rightarrow> True)"

definition invoke :: "(capture_call \<Rightarrow> 's \<Rightarrow> 's outcome) \<Rightarrow> capture_call \<Rightarrow> 's \<Rightarrow> 's outcome" where
  "invoke perform c st =
     (case perform c st of Throws st' \<Rightarrow> if is_noexcept c then Fails else Throws st' | r \<Rightarrow> r)"

section \<open>Encodings of the captures\<close>

text \<open>A position in an encoding is a bit position or the address of a byte.\<close>

record decoder =
  d_init :: u64
  d_next :: "u64 \<Rightarrow> u64"
  d_get :: "u64 \<Rightarrow> (nat \<times> nat) option"

definition GenericInline :: "u32 \<Rightarrow> decoder" where
  "GenericInline layoutint =
     \<lparr>d_init = 8, d_next = (\<lambda>pos. pos + 4),
      d_get = (\<lambda>pos.
        if pos = 24 then Some (BCK_DONE, 0)
        else map_option (\<lambda>opcode. (opcode, unat (extractBitfield (unat pos) 4 layoutint)))
          (if pos = 8 then Some BCK_STRONG
           else if pos = 12 then Some BCK_BLOCK
           else if pos = 16 then Some BCK_BYREF
           else if pos = 20 then Some BCK_WEAK
           else None))\<rparr>"

definition GenericOutOfLine :: "memory \<Rightarrow> u64 \<Rightarrow> decoder" where
  "GenericOutOfLine m layoutstr =
     \<lparr>d_init = layoutstr + 1, d_next = (\<lambda>p. p + 1), d_get = (\<lambda>p. Some (getOutOfLineOpcodeCount (m p)))\<rparr>"

definition ExtendedInline :: "u16 \<Rightarrow> decoder" where
  "ExtendedInline layoutint =
     \<lparr>d_init = 8, d_next = (\<lambda>pos. pos - 4),
      d_get = (\<lambda>pos.
        if pos = -4 then Some (BCK_DONE, 0)
        else map_option (\<lambda>opcode. (opcode, unat (extractBitfield (unat pos) 4 (ucast layoutint))))
          (if pos = 8 then Some BCK_STRONG
           else if pos = 4 then Some BCK_BYREF
           else if pos = 0 then Some BCK_WEAK
           else None))\<rparr>"

definition extended_opcode :: "nat \<Rightarrow> nat option" where
  "extended_opcode opcode =
     (if opcode = 0 then Some BCK_DONE
      else if opcode = 1 then Some BCK_NON_OBJECT_BYTES
      else if opcode = 2 then Some BCK_NON_OBJECT_WORDS
      else if opcode = 3 then Some BCK_STRONG
      else if opcode = 4 then Some BCK_BYREF
      else if opcode = 5 then Some BCK_WEAK
      else if opcode = 6 then Some BCK_NON_OBJECT_WORDS
      else None)"

definition ExtendedOutOfLine :: "memory \<Rightarrow> u64 \<Rightarrow> decoder" where
  "ExtendedOutOfLine m layoutstr =
     \<lparr>d_init = layoutstr, d_next = (\<lambda>p. p + 1),
      d_get = (\<lambda>p. case getOutOfLineOpcodeCount (m p) of (opcode, cnt) \<Rightarrow>
        map_option (\<lambda>k. (k, cnt)) (extended_opcode opcode))\<rparr>"

section \<open>Copying and destroying captures\<close>

definition advancePointers :: "nat \<Rightarrow> helper \<Rightarrow> helper" where
  "advancePointers distance h = h\<lparr>capptr := capptr h + distance, srccapptr := srccapptr h + distance\<rparr>"

definition advancePointer :: "nat \<Rightarrow> helper \<Rightarrow> helper" where
  "advancePointer distance h = h\<lparr>capptr := capptr h + distance\<rparr>"

fun copy_loop :: "(capture_call \<Rightarrow> 's \<Rightarrow> 's outcome) \<Rightarrow> nat \<Rightarrow> nat \<Rightarrow> helper \<Rightarrow> 's \<Rightarrow> (helper \<times> 's) outcome" where
  "copy_loop perform BCK 0 h st = Returns (h, st)"
| "copy_loop perform BCK (Suc n) h st =
     (case copy_call BCK (capptr h) (srccapptr h) of
        None \<Rightarrow> Fails
      | Some c \<Rightarrow> and_then (invoke perform c st)
          (\<lambda>st'. copy_loop perform BCK n ((advancePointers 8 h)\<lparr>capcounter := capcounter h + 1\<rparr>) st')
          (\<lambda>st'. (h, st')))"

definition copyCapture :: "(capture_call \<Rightarrow> 's \<Rightarrow> 's outcome) \<Rightarrow> nat \<Rightarrow> nat \<Rightarrow> helper \<Rightarrow> 's \<Rightarrow> (helper \<times> 's) outcome" where
  "copyCapture perform BCK cnt h st =
     (if capcounter h \<noteq> 0 then Fails else copy_loop perform BCK (cnt - capcounter h) h st)"

definition initState :: "helper" where
  "initState = \<lparr>capptr = 32, srccapptr = 32, capcounter = 0\<rparr>"

fun copy_run ::
  "decoder \<Rightarrow> (capture_call \<Rightarrow> 's \<Rightarrow> 's outcome) \<Rightarrow> nat \<Rightarrow> u64 \<Rightarrow> helper \<Rightarrow> 's \<Rightarrow> (u64 \<times> helper \<times> 's) outcome" where
  "copy_run D perform 0 d h st = Out_of_fuel"
| "copy_run D perform (Suc fuel) d h st =
     (case d_get D d of
        None \<Rightarrow> Fails
      | Some (opcode, cnt) \<Rightarrow>
          if opcode = BCK_DONE then Returns (d, h, st)
          else and_then
            (if opcode = BCK_NON_OBJECT_BYTES then Returns (advancePointers cnt h, st)
             else if opcode = BCK_NON_OBJECT_WORDS then Returns (advancePointers (8 * cnt) h, st)
             else if opcode \<in> {BCK_STRONG, BCK_BYREF, BCK_BLOCK, BCK_WEAK} then copyCapture perform opcode cnt h st
             else Fails)
            (\<lambda>(h', st'). copy_run D perform fuel (d_next D d) (h'\<lparr>capcounter := 0\<rparr>) st')
            (\<lambda>(h', st'). (d, h', st')))"

definition copyBlock ::
  "decoder \<Rightarrow> (capture_call \<Rightarrow> 's \<Rightarrow> 's outcome) \<Rightarrow> nat \<Rightarrow> 's \<Rightarrow> (u64 \<times> helper \<times> 's) outcome" where
  "copyBlock D perform fuel st = copy_run D perform fuel (d_init D) initState st"

text \<open>Disposing stops, with the answer true, at the capture \<open>endptr\<close> if there is one.\<close>

fun dispose_loop ::
  "(capture_call \<Rightarrow> 's \<Rightarrow> 's outcome) \<Rightarrow> nat \<Rightarrow> nat option \<Rightarrow> nat \<Rightarrow> helper \<Rightarrow> 's \<Rightarrow> (bool \<times> helper \<times> 's) outcome" where
  "dispose_loop perform BCK endptr 0 h st = Returns (False, h, st)"
| "dispose_loop perform BCK endptr (Suc n) h st =
     (if endptr = Some (capptr h) then Returns (True, h, st)
      else case dispose_call BCK (capptr h) of
        None \<Rightarrow> Fails
      | Some c \<Rightarrow> and_then (invoke perform c st)
          (\<lambda>st'. dispose_loop perform BCK endptr n ((advancePointer 8 h)\<lparr>capcounter := capcounter h + 1\<rparr>) st')
          (\<lambda>st'. (False, h, st')))"

definition disposeCapture ::
  "(capture_call \<Rightarrow> 's \<Rightarrow> 's outcome) \<Rightarrow> nat \<Rightarrow> nat option \<Rightarrow> nat \<Rightarrow> helper \<Rightarrow> 's \<Rightarrow> (bool \<times> helper \<times> 's) outcome" where
  "disposeCapture perform BCK endptr cnt h st = dispose_loop perform BCK endptr (cnt - capcounter h) h st"

fun destroy_run ::
  "decoder \<Rightarrow> (capture_call \<Rightarrow> 's \<Rightarrow> 's outcome) \<Rightarrow> nat option \<Rightarrow> nat \<Rightarrow> u64 \<Rightarrow> helper \<Rightarrow> 's \<Rightarrow> (u64 \<times> helper \<times> 's) outcome" where
  "destroy_run D perform endptr 0 d h st = Out_of_fuel"
| "destroy_run D perform endptr (Suc fuel) d h st =
     (case d_get D d of
        None \<Rightarrow> Fails
      | Some (opcode, cnt) \<Rightarrow>
          if opcode = BCK_DONE then Returns (d, h, st)
          else and_then
            (if opcode = BCK_NON_OBJECT_BYTES then Returns (False, advancePointer cnt h, st)
             else if opcode = BCK_NON_OBJECT_WORDS then Returns (False, advancePointer (8 * cnt) h, st)
             else if opcode \<in> {BCK_STRONG, BCK_BYREF, BCK_BLOCK, BCK_WEAK} then disposeCapture perform opcode endptr cnt h st
             else Fails)
            (\<lambda>(earlyExit, h', st').
               if earlyExit then if endptr = None then Fails else Returns (d, h', st')
               else destroy_run D perform endptr fuel (d_next D d) (h'\<lparr>capcounter := 0\<rparr>) st')
            (\<lambda>(e, h', st'). (d, h', st')))"

definition destroyBlock ::
  "decoder \<Rightarrow> (capture_call \<Rightarrow> 's \<Rightarrow> 's outcome) \<Rightarrow> nat option \<Rightarrow> nat \<Rightarrow> 's \<Rightarrow> (u64 \<times> helper \<times> 's) outcome" where
  "destroyBlock D perform endptr fuel st = destroy_run D perform endptr fuel (d_init D) initState st"

section \<open>Exceptions\<close>

datatype excp_state = EXCP_NONE | EXCP_COPY_GENERIC | EXCP_COPY_CUSTOM | EXCP_DESTROY_GENERIC | EXCP_DESTROY_CUSTOM

text \<open>The walk that threw is given by its position \<open>d\<close> and helper \<open>h\<close>.\<close>

definition cleanup_captures ::
  "decoder \<Rightarrow> (capture_call \<Rightarrow> 's \<Rightarrow> 's outcome) \<Rightarrow> nat \<Rightarrow> excp_state \<Rightarrow> u64 \<Rightarrow> helper \<Rightarrow> 's \<Rightarrow> (u64 \<times> helper \<times> 's) outcome" where
  "cleanup_captures D perform fuel state d h st =
     (if state = EXCP_COPY_CUSTOM \<or> state = EXCP_DESTROY_CUSTOM then destroyBlock D perform None fuel st
      else if state = EXCP_COPY_GENERIC then destroyBlock D perform (Some (capptr h)) fuel st
      else if state = EXCP_DESTROY_GENERIC then
        destroy_run D perform None fuel d ((advancePointer 8 h)\<lparr>capcounter := capcounter h + 1\<rparr>) st
      else Fails)"

definition cleanup_generic_captures ::
  "decoder option \<Rightarrow> (capture_call \<Rightarrow> 's \<Rightarrow> 's outcome) \<Rightarrow> ('s \<Rightarrow> 's) \<Rightarrow> nat \<Rightarrow> excp_state \<Rightarrow> u64 \<Rightarrow> helper \<Rightarrow> 's \<Rightarrow> 's outcome" where
  "cleanup_generic_captures H perform free fuel state d h st =
     (if state = EXCP_NONE then Returns st
      else case H of
        None \<Rightarrow> Returns (free st)
      | Some D \<Rightarrow> and_then (cleanup_captures D perform fuel state d h st)
          (\<lambda>(d, h, st'). Returns (free st')) (\<lambda>(d, h, st'). st'))"

text \<open>An exception leaves the function once the clean-up is done.\<close>

definition unwind :: "'s outcome \<Rightarrow> 's outcome" where
  "unwind r = (case r of Returns st \<Rightarrow> Throws st | _ \<Rightarrow> r)"

definition call_copy_helpers_excp ::
  "decoder option \<Rightarrow> (capture_call \<Rightarrow> 's \<Rightarrow> 's outcome) \<Rightarrow> ('s \<Rightarrow> 's outcome) \<Rightarrow> ('s \<Rightarrow> 's) \<Rightarrow> nat \<Rightarrow> 's \<Rightarrow> 's outcome" where
  "call_copy_helpers_excp H perform custom free fuel st =
     (let run_custom = (\<lambda>st. case custom st of
            Throws st' \<Rightarrow> unwind (cleanup_generic_captures H perform free fuel EXCP_COPY_CUSTOM 0 initState st')
          | r \<Rightarrow> r) in
      case H of
        None \<Rightarrow> run_custom st
      | Some D \<Rightarrow>
          (case copyBlock D perform fuel st of
             Returns (d, h, st') \<Rightarrow> run_custom st'
           | Throws (d, h, st') \<Rightarrow> unwind (cleanup_generic_captures H perform free fuel EXCP_COPY_GENERIC d h st')
           | Fails \<Rightarrow> Fails
           | Out_of_fuel \<Rightarrow> Out_of_fuel))"

definition call_dispose_helpers_excp ::
  "decoder option \<Rightarrow> (capture_call \<Rightarrow> 's \<Rightarrow> 's outcome) \<Rightarrow> ('s \<Rightarrow> 's outcome) \<Rightarrow> ('s \<Rightarrow> 's) \<Rightarrow> nat \<Rightarrow> 's \<Rightarrow> 's outcome" where
  "call_dispose_helpers_excp H perform custom free fuel st =
     (case custom st of
        Throws st' \<Rightarrow> unwind (cleanup_generic_captures H perform free fuel EXCP_DESTROY_CUSTOM 0 initState st')
      | Returns st' \<Rightarrow>
          (case H of
             None \<Rightarrow> Returns st'
           | Some D \<Rightarrow>
               (case destroyBlock D perform None fuel st' of
                  Returns (d, h, st'') \<Rightarrow> Returns st''
                | Throws (d, h, st'') \<Rightarrow> unwind (cleanup_generic_captures H perform free fuel EXCP_DESTROY_GENERIC d h st'')
                | Fails \<Rightarrow> Fails
                | Out_of_fuel \<Rightarrow> Out_of_fuel))
      | r \<Rightarrow> r)"

text \<open>
  The helper is chosen by the flags of the source block; it reads its layout from the
  block it is started on, which is the destination when copying.
\<close>

datatype helper_kind = Kind_ExtendedInline | Kind_ExtendedOutOfLine | Kind_GenericInline | Kind_GenericOutOfLine

definition helper_kind_of :: "memory \<Rightarrow> u64 \<Rightarrow> Block_layout \<Rightarrow> helper_kind option" where
  "helper_kind_of m empty_string bl =
     (if \<not> hasInDescriptorFlags m bl then None
      else if getGenericHelperFlags m bl = 0 then None
      else if getGenericHelperFlags m bl = 1 then
        if hasInlineExtendedLayout m empty_string bl then Some Kind_ExtendedInline else Some Kind_ExtendedOutOfLine
      else if getGenericHelperFlags m bl = 2 then Some Kind_GenericInline
      else Some Kind_GenericOutOfLine)"

definition decoder_of :: "memory \<Rightarrow> u64 \<Rightarrow> helper_kind \<Rightarrow> Block_layout \<Rightarrow> decoder" where
  "decoder_of m empty_string k bl =
     (case k of
        Kind_ExtendedInline \<Rightarrow> ExtendedInline (ucast (Block_extended_layout m empty_string bl))
      | Kind_ExtendedOutOfLine \<Rightarrow> ExtendedOutOfLine m (Block_extended_layout m empty_string bl)
      | Kind_GenericInline \<Rightarrow> GenericInline (ucast (getGenericHelperInfo m bl True))
      | Kind_GenericOutOfLine \<Rightarrow> GenericOutOfLine m (getGenericHelperInfo m bl False))"

definition call_copy_helpers where
  "call_copy_helpers m empty_string dstbl srcbl =
     call_copy_helpers_excp (map_option (\<lambda>k. decoder_of m empty_string k dstbl) (helper_kind_of m empty_string srcbl))"

definition call_dispose_helpers where
  "call_dispose_helpers m empty_string bl =
     call_dispose_helpers_excp (map_option (\<lambda>k. decoder_of m empty_string k bl) (helper_kind_of m empty_string bl))"

section \<open>The captures of an encoding\<close>

fun captures :: "decoder \<Rightarrow> nat \<Rightarrow> u64 \<Rightarrow> nat \<Rightarrow> (nat \<times> nat) list option" where
  "captures D 0 d off = None"
| "captures D (Suc fuel) d off =
     (case d_get D d of
        None \<Rightarrow> None
      | Some (opcode, cnt) \<Rightarrow>
          if opcode = BCK_DONE then Some []
          else if opcode = BCK_NON_OBJECT_BYTES then captures D fuel (d_next D d) (off + cnt)
          else if opcode = BCK_NON_OBJECT_WORDS then captures D fuel (d_next D d) (off + 8 * cnt)
          else if opcode \<in> {BCK_STRONG, BCK_BYREF, BCK_BLOCK, BCK_WEAK} then
            map_option (\<lambda>cs. map (\<lambda>i. (opcode, off + 8 * i)) [0..<cnt] @ cs)
              (captures D fuel (d_next D d) (off + 8 * cnt))
          else None)"

definition copied :: "nat \<times> nat \<Rightarrow> capture_call" where
  "copied c = the (copy_call (fst c) (snd c) (snd c))"

definition disposed :: "nat \<times> nat \<Rightarrow> capture_call" where
  "disposed c = the (dispose_call (fst c) (snd c))"

text \<open>The calls made, in order; the copy numbered \<open>n\<close> throws, disposals do not.\<close>

definition log_call :: "nat \<Rightarrow> capture_call \<Rightarrow> capture_call list \<Rightarrow> capture_call list outcome" where
  "log_call n c log =
     (case c of
        Call_objc_release p \<Rightarrow> Returns (log @ [c])
      | Call_objc_destroyWeak p \<Rightarrow> Returns (log @ [c])
      | Call_object_dispose p f \<Rightarrow> Returns (log @ [c])
      | _ \<Rightarrow> if length log = n then Throws log else Returns (log @ [c]))"

definition object_kind :: "nat \<Rightarrow> bool" where
  "object_kind k \<longleftrightarrow> k \<in> {3, 4, 5, 6}"

definition run_of :: "nat \<Rightarrow> nat \<Rightarrow> nat \<Rightarrow> (nat \<times> nat) list" where
  "run_of k off cnt = map (\<lambda>i. (k, off + 8 * i)) [0..<cnt]"

lemma run_of_Suc: "run_of k off (Suc c) = (k, off) # run_of k (off + 8) c"
  unfolding run_of_def by (simp add: upt_conv_Cons map_Suc_upt [symmetric] del: upt_Suc)

lemma run_of_0 [simp]: "run_of k off 0 = []"
  by (simp add: run_of_def)

lemma length_run_of [simp]: "length (run_of k off c) = c"
  by (simp add: run_of_def)

lemma run_of_nth: "i < c \<Longrightarrow> run_of k off c ! i = (k, off + 8 * i)"
  by (simp add: run_of_def)

lemma run_of_range: "x \<in> set (run_of k off c) \<Longrightarrow> fst x = k \<and> off \<le> snd x \<and> snd x < off + 8 * c"
  by (auto simp: run_of_def)

lemma invoke_copy:
  assumes "object_kind k"
  shows "copy_call k a a = Some (copied (k, a))"
    and "length log \<noteq> n \<Longrightarrow> invoke (log_call n) (copied (k, a)) log = Returns (log @ [copied (k, a)])"
    and "k \<in> {4, 5} \<Longrightarrow> length log = n \<Longrightarrow> invoke (log_call n) (copied (k, a)) log = Throws log"
  using assms by (auto simp: object_kind_def copied_def copy_call_def invoke_def log_call_def is_noexcept_def)

lemma dispose_call_disposed: "object_kind k \<Longrightarrow> dispose_call k a = Some (disposed (k, a))"
  by (auto simp: object_kind_def disposed_def dispose_call_def)

lemma captures_cases:
  assumes "captures D (Suc f) d off = Some cs"
  obtains (stop) c where "d_get D d = Some (0, c)" "cs = []"
  | (gap) op c g where "d_get D d = Some (op, c)" "op = 1 \<and> g = c \<or> op = 2 \<and> g = 8 * c"
      "captures D f (d_next D d) (off + g) = Some cs"
  | (run) op c ds where "d_get D d = Some (op, c)" "object_kind op"
      "captures D f (d_next D d) (off + 8 * c) = Some ds" "cs = run_of op off c @ ds"
  using assms by (auto simp: object_kind_def run_of_def split: option.splits prod.splits if_splits)

lemma captures_range:
  "captures D f d off = Some cs \<Longrightarrow> sorted_wrt (<) (map snd cs) \<and> (\<forall>x\<in>set cs. off \<le> snd x \<and> object_kind (fst x))"
proof (induction f arbitrary: d off cs)
  case (Suc f)
  from Suc.prems show ?case
  proof (cases rule: captures_cases)
    case (gap op c g)
    show ?thesis using Suc.IH [OF gap(3)] by force
  next
    case (run op c ds)
    have "sorted_wrt (<) (map snd (run_of op off c))"
      by (simp add: run_of_def sorted_wrt_map sorted_wrt_iff_nth_less)
    then show ?thesis
      using Suc.IH [OF run(3)] run(2,4) run_of_range [of _ op off c] by (fastforce simp: sorted_wrt_append)
  qed simp
qed simp

section \<open>Copying\<close>

lemma copy_loop_all:
  assumes "object_kind k" "length log + c \<le> n" "srccapptr h = capptr h"
  shows "copy_loop (log_call n) k c h log =
    Returns (h\<lparr>capptr := capptr h + 8 * c, srccapptr := capptr h + 8 * c, capcounter := capcounter h + c\<rparr>,
      log @ map copied (run_of k (capptr h) c))"
  using assms(2,3)
  by (induction c arbitrary: h log)
    (simp_all add: invoke_copy [OF assms(1)] advancePointers_def run_of_Suc algebra_simps)

lemma copy_loop_throws:
  assumes "k \<in> {4, 5}" "length log \<le> n" "n < length log + c" "srccapptr h = capptr h"
  shows "\<exists>h'. copy_loop (log_call n) k c h log =
      Throws (h', log @ map copied (take (n - length log) (run_of k (capptr h) c))) \<and>
    capptr h' = snd (run_of k (capptr h) c ! (n - length log))"
  using assms(2-)
proof (induction c arbitrary: h log)
  case (Suc c)
  have k: "object_kind k" using assms(1) by (auto simp: object_kind_def)
  show ?case
  proof (cases "length log = n")
    case True
    then show ?thesis using Suc.prems assms(1) by (simp add: invoke_copy [OF k] run_of_Suc)
  next
    case False
    let ?h = "(advancePointers 8 h)\<lparr>capcounter := capcounter h + 1\<rparr>"
    have "n - length log = Suc (n - Suc (length log))" using False Suc.prems by simp
    then show ?thesis
      using Suc.IH [of "log @ [copied (k, capptr h)]" ?h] Suc.prems False
      by (simp add: invoke_copy [OF k] run_of_Suc advancePointers_def)
  qed
qed simp

lemma copy_run_all:
  assumes "captures D f d (capptr h) = Some cs" "length log + length cs \<le> n"
    "srccapptr h = capptr h" "capcounter h = 0"
  shows "\<exists>d' h'. copy_run D (log_call n) f d h log = Returns (d', h', log @ map copied cs)"
  using assms
proof (induction f arbitrary: d h log cs)
  case (Suc f)
  from Suc.prems(1) show ?case
  proof (cases rule: captures_cases)
    case (gap op c g)
    then show ?thesis
      using Suc.IH [of "d_next D d" "(advancePointers g h)\<lparr>capcounter := 0\<rparr>" cs log] Suc.prems
      by (auto simp: advancePointers_def)
  next
    case (run op c ds)
    let ?h = "h\<lparr>capptr := capptr h + 8 * c, srccapptr := capptr h + 8 * c, capcounter := 0\<rparr>"
    have "copyCapture (log_call n) op c h log =
        Returns (?h\<lparr>capcounter := c\<rparr>, log @ map copied (run_of op (capptr h) c))"
      using copy_loop_all [OF run(2), of log c n h] Suc.prems run(4) by (simp add: copyCapture_def)
    then show ?thesis
      using Suc.IH [of "d_next D d" ?h ds "log @ map copied (run_of op (capptr h) c)"] Suc.prems run
      by (auto simp: object_kind_def)
  qed simp
qed simp

lemma copy_run_throws:
  assumes "captures D f d (capptr h) = Some cs" "length log \<le> n" "n < length log + length cs"
    "fst (cs ! (n - length log)) \<in> {4, 5}" "srccapptr h = capptr h" "capcounter h = 0"
  shows "\<exists>d' h'. copy_run D (log_call n) f d h log =
      Throws (d', h', log @ map copied (take (n - length log) cs)) \<and> capptr h' = snd (cs ! (n - length log))"
  using assms
proof (induction f arbitrary: d h log cs)
  case (Suc f)
  from Suc.prems(1) show ?case
  proof (cases rule: captures_cases)
    case stop
    then show ?thesis using Suc.prems by simp
  next
    case (gap op c g)
    then show ?thesis
      using Suc.IH [of "d_next D d" "(advancePointers g h)\<lparr>capcounter := 0\<rparr>" cs log] Suc.prems
      by (auto simp: advancePointers_def)
  next
    case (run op c ds)
    show ?thesis
    proof (cases "n < length log + c")
      case True
      then have nth: "cs ! (n - length log) = run_of op (capptr h) c ! (n - length log)"
        and tk: "take (n - length log) cs = take (n - length log) (run_of op (capptr h) c)"
        using Suc.prems(2) run(4) by (auto simp: nth_append)
      have "op \<in> {4, 5}" using Suc.prems(2,4) True by (simp add: nth run_of_nth)
      then show ?thesis
        using copy_loop_throws [of op log n c h] True Suc.prems(2,5,6) run(1,2)
        by (auto simp: copyCapture_def nth tk object_kind_def)
    next
      case False
      let ?h = "h\<lparr>capptr := capptr h + 8 * c, srccapptr := capptr h + 8 * c, capcounter := 0\<rparr>"
      let ?log = "log @ map copied (run_of op (capptr h) c)"
      have "copyCapture (log_call n) op c h log = Returns (?h\<lparr>capcounter := c\<rparr>, ?log)"
        using copy_loop_all [OF run(2), of log c n h] Suc.prems False by (simp add: copyCapture_def)
      moreover have "n - length log = c + (n - length ?log)" using False by simp
      ultimately show ?thesis
        using Suc.IH [of "d_next D d" ?h ds ?log] Suc.prems run False
        by (auto simp: object_kind_def nth_append)
    qed
  qed
qed simp

section \<open>Destroying\<close>

text \<open>The captures before the one at \<open>endptr\<close>.\<close>

definition before :: "nat option \<Rightarrow> (nat \<times> nat) list \<Rightarrow> (nat \<times> nat) list" where
  "before endptr cs = takeWhile (\<lambda>c. endptr \<noteq> Some (snd c)) cs"

lemma before_None [simp]: "before None cs = cs"
  by (simp add: before_def)

lemma before_nth:
  assumes "sorted_wrt (<) (map snd cs)" "j < length cs"
  shows "before (Some (snd (cs ! j))) cs = take j cs"
  unfolding before_def
  using assms by (intro takeWhile_eq_take_P_nth) (simp_all add: sorted_wrt_iff_nth_less, metis less_irrefl)

text \<open>Disposals are logged and do not throw once \<open>l\<close> calls have been made.\<close>

definition quiet :: "nat \<Rightarrow> (capture_call \<Rightarrow> capture_call list \<Rightarrow> capture_call list outcome) \<Rightarrow> bool" where
  "quiet l P \<longleftrightarrow> (\<forall>k a log. object_kind k \<longrightarrow> l \<le> length log \<longrightarrow>
     invoke P (disposed (k, a)) log = Returns (log @ [disposed (k, a)]))"

lemma dispose_loop_log:
  assumes "object_kind k" "quiet l P" "l \<le> length log"
  shows "\<exists>h'. dispose_loop P k e c h log =
      Returns (\<exists>x\<in>set (run_of k (capptr h) c). e = Some (snd x), h',
        log @ map disposed (before e (run_of k (capptr h) c))) \<and>
    ((\<forall>x\<in>set (run_of k (capptr h) c). e \<noteq> Some (snd x)) \<longrightarrow> capptr h' = capptr h + 8 * c)"
  using assms(3)
proof (induction c arbitrary: h log)
  case (Suc c)
  have "invoke P (disposed (k, capptr h)) log = Returns (log @ [disposed (k, capptr h)])"
    using assms(1,2) Suc.prems unfolding quiet_def by blast
  then show ?case
    using Suc.IH [of "log @ [disposed (k, capptr h)]" "(advancePointer 8 h)\<lparr>capcounter := capcounter h + 1\<rparr>"] Suc.prems
    by (auto simp: run_of_Suc before_def dispose_call_disposed [OF assms(1)] advancePointer_def)
qed (simp add: before_def)

lemma destroy_run_log:
  assumes "captures D f d (capptr h) = Some cs" "capcounter h = 0" "quiet l P" "l \<le> length log"
  shows "\<exists>d' h'. destroy_run D P e f d h log = Returns (d', h', log @ map disposed (before e cs))"
  using assms
proof (induction f arbitrary: d h log cs)
  case (Suc f)
  from Suc.prems(1) show ?case
  proof (cases rule: captures_cases)
    case stop
    then show ?thesis by (simp add: before_def)
  next
    case (gap op c g)
    then show ?thesis
      using Suc.IH [of "d_next D d" "(advancePointer g h)\<lparr>capcounter := 0\<rparr>" cs log] Suc.prems
      by (auto simp: advancePointer_def)
  next
    case (run op c ds)
    let ?r = "run_of op (capptr h) c"
    obtain h' where h': "disposeCapture P op e c h log =
        Returns (\<exists>x\<in>set ?r. e = Some (snd x), h', log @ map disposed (before e ?r))"
      and cap: "(\<forall>x\<in>set ?r. e \<noteq> Some (snd x)) \<Longrightarrow> capptr h' = capptr h + 8 * c"
      using dispose_loop_log [OF run(2) Suc.prems(3,4), of e c h] Suc.prems(2) by (auto simp: disposeCapture_def)
    show ?thesis
    proof (cases "\<exists>x\<in>set ?r. e = Some (snd x)")
      case True
      then have "before e cs = before e ?r" using run(4) by (auto simp: before_def takeWhile_append1)
      then show ?thesis using True h' run(1,2) by (auto simp: object_kind_def)
    next
      case False
      then have "before e cs = ?r @ before e ds" "before e ?r = ?r"
        using run(4) by (auto simp: before_def takeWhile_append2)
      then show ?thesis
        using False h' run(1,2,3) cap Suc.IH [of "d_next D d" "h'\<lparr>capcounter := 0\<rparr>" ds "log @ map disposed ?r"] Suc.prems(3,4)
        by (auto simp: object_kind_def)
    qed
  qed
qed simp

lemma captures_mono: "captures D f d off = Some cs \<Longrightarrow> f \<le> g \<Longrightarrow> captures D g d off = Some cs"
proof (induction f arbitrary: d off cs g)
  case (Suc f)
  then obtain g' where g: "g = Suc g'" "f \<le> g'" by (cases g) auto
  from Suc.prems(1) show ?case
  proof (cases rule: captures_cases)
    case (gap op c w)
    then show ?thesis using Suc.IH [OF gap(3) g(2)] g(1) by auto
  next
    case (run op c ds)
    then show ?thesis using Suc.IH [OF run(3) g(2)] g(1) by (auto simp: object_kind_def run_of_def)
  qed (simp add: g)
qed simp

lemma log_call_quiet: "quiet 0 (log_call n)"
  by (auto simp: quiet_def object_kind_def disposed_def dispose_call_def invoke_def log_call_def)

lemma destroy_resume:
  assumes "d_get D d = Some (op, c)" "object_kind op" "quiet l P" "l \<le> length log"
    "captures D f (d_next D d) (capptr h + 8 * (c - capcounter h)) = Some ds" "f < g"
  shows "\<exists>d' h'. destroy_run D P None g d h log =
    Returns (d', h', log @ map disposed (run_of op (capptr h) (c - capcounter h) @ ds))"
proof -
  obtain g' where g: "g = Suc g'" "f \<le> g'" using assms(6) by (cases g) auto
  let ?r = "run_of op (capptr h) (c - capcounter h)"
  obtain h' where h': "disposeCapture P op None c h log = Returns (False, h', log @ map disposed ?r)"
      "capptr h' = capptr h + 8 * (c - capcounter h)"
    using dispose_loop_log [OF assms(2-4), of None "c - capcounter h" h] by (auto simp: disposeCapture_def)
  then show ?thesis
    using destroy_run_log [of D g' "d_next D d" "h'\<lparr>capcounter := 0\<rparr>" ds l P "log @ map disposed ?r" None]
      captures_mono [OF assms(5) g(2)] assms(1-4) g(1)
    by (auto simp: object_kind_def)
qed

text \<open>The disposal numbered \<open>j\<close> is logged and throws.\<close>

definition log_dispose :: "nat \<Rightarrow> capture_call \<Rightarrow> capture_call list \<Rightarrow> capture_call list outcome" where
  "log_dispose j c log = (if length log = j then Throws (log @ [c]) else Returns (log @ [c]))"

lemma invoke_log_dispose:
  "length log \<noteq> j \<Longrightarrow> invoke (log_dispose j) c log = Returns (log @ [c])"
  "k \<in> {4, 5} \<Longrightarrow> invoke (log_dispose (length log)) (disposed (k, a)) log = Throws (log @ [disposed (k, a)])"
  by (auto simp: invoke_def log_dispose_def disposed_def dispose_call_def is_noexcept_def)

lemma log_dispose_quiet: "quiet (Suc j) (log_dispose j)"
  by (auto simp: quiet_def invoke_log_dispose)

lemma dispose_loop_before:
  assumes "object_kind k" "length log + c \<le> j"
  shows "dispose_loop (log_dispose j) k None c h log =
    Returns (False, h\<lparr>capptr := capptr h + 8 * c, capcounter := capcounter h + c\<rparr>,
      log @ map disposed (run_of k (capptr h) c))"
  using assms(2)
  by (induction c arbitrary: h log)
    (simp_all add: dispose_call_disposed [OF assms(1)] invoke_log_dispose advancePointer_def run_of_Suc algebra_simps)

lemma dispose_loop_throws:
  assumes "k \<in> {4, 5}" "length log \<le> j" "j < length log + c"
  shows "dispose_loop (log_dispose j) k None c h log =
    Throws (False, h\<lparr>capptr := capptr h + 8 * (j - length log), capcounter := capcounter h + (j - length log)\<rparr>,
      log @ map disposed (take (Suc (j - length log)) (run_of k (capptr h) c)))"
  using assms(2-)
proof (induction c arbitrary: h log)
  case (Suc c)
  have k: "object_kind k" using assms(1) by (auto simp: object_kind_def)
  show ?case
  proof (cases "length log = j")
    case True
    then show ?thesis
      using invoke_log_dispose(2) [OF assms(1), of log "capptr h"]
      by (simp add: dispose_call_disposed [OF k] run_of_Suc)
  next
    case False
    have "j - length log = Suc (j - Suc (length log))" using False Suc.prems by simp
    then show ?thesis
      using Suc.IH [of "log @ [disposed (k, capptr h)]" "(advancePointer 8 h)\<lparr>capcounter := capcounter h + 1\<rparr>"] Suc.prems False
      by (simp add: dispose_call_disposed [OF k] invoke_log_dispose run_of_Suc advancePointer_def)
  qed
qed simp

lemma run_of_drop: "drop i (run_of k off c) = run_of k (off + 8 * i) (c - i)"
  by (rule nth_equalityI) (auto simp: run_of_nth)

text \<open>
  A walk over the captures \<open>cs\<close> that threw at the one numbered \<open>i\<close>, and from where the
  captures after that one can be reached.
\<close>

definition threw_at ::
  "decoder \<Rightarrow> nat \<Rightarrow> (nat \<times> nat) list \<Rightarrow> nat \<Rightarrow> capture_call list \<Rightarrow> (u64 \<times> helper \<times> capture_call list) outcome \<Rightarrow> bool" where
  "threw_at D f cs i log r \<longleftrightarrow>
     (\<exists>d' h' op c f' ds. r = Throws (d', h', log @ map disposed (take (Suc i) cs)) \<and>
       d_get D d' = Some (op, c) \<and> object_kind op \<and> f' < f \<and>
       captures D f' (d_next D d') (capptr h' + 8 + 8 * (c - Suc (capcounter h'))) = Some ds \<and>
       drop (Suc i) cs = run_of op (capptr h' + 8) (c - Suc (capcounter h')) @ ds)"

lemma threw_at_Suc: "threw_at D f cs i log r \<Longrightarrow> threw_at D (Suc f) cs i log r"
  unfolding threw_at_def using less_SucI by blast

lemma threw_at_append:
  "threw_at D f ds i (log @ map disposed rs) r \<Longrightarrow> threw_at D f (rs @ ds) (length rs + i) log r"
  unfolding threw_at_def by simp

lemma destroy_run_throws:
  assumes "captures D f d (capptr h) = Some cs" "length log \<le> j" "j < length log + length cs"
    "fst (cs ! (j - length log)) \<in> {4, 5}" "capcounter h = 0"
  shows "threw_at D f cs (j - length log) log (destroy_run D (log_dispose j) None f d h log)"
  using assms
proof (induction f arbitrary: d h log cs)
  case (Suc f)
  from Suc.prems(1) show ?case
  proof (cases rule: captures_cases)
    case stop
    then show ?thesis using Suc.prems by simp
  next
    case (gap op c g)
    then have "destroy_run D (log_dispose j) None (Suc f) d h log =
        destroy_run D (log_dispose j) None f (d_next D d) ((advancePointer g h)\<lparr>capcounter := 0\<rparr>) log"
      by auto
    then show ?thesis
      using Suc.IH [of "d_next D d" "(advancePointer g h)\<lparr>capcounter := 0\<rparr>" cs log] Suc.prems gap(3)
      by (simp add: advancePointer_def threw_at_Suc del: destroy_run.simps)
  next
    case (run op c ds)
    let ?r = "run_of op (capptr h) c"
    show ?thesis
    proof (cases "j < length log + c")
      case True
      let ?i = "j - length log"
      let ?h = "h\<lparr>capptr := capptr h + 8 * ?i, capcounter := ?i\<rparr>"
      have i: "?i < c" using True Suc.prems(2) by simp
      have eq: "capptr h + 8 * ?i + 8 + 8 * (c - Suc ?i) = capptr h + 8 * c" using i by simp
      have "op \<in> {4, 5}" using Suc.prems(4) i run(4) by (simp add: nth_append run_of_nth)
      then have "disposeCapture (log_dispose j) op None c h log = Throws (False, ?h, log @ map disposed (take (Suc ?i) ?r))"
        using dispose_loop_throws [of op log j c h] True Suc.prems(2,5) by (simp add: disposeCapture_def)
      then have "destroy_run D (log_dispose j) None (Suc f) d h log =
          Throws (d, ?h, log @ map disposed (take (Suc ?i) cs))"
        using run i by (auto simp: object_kind_def)
      moreover have "drop (Suc ?i) cs = run_of op (capptr ?h + 8) (c - Suc ?i) @ ds"
        using run(4) i by (simp add: run_of_drop algebra_simps)
      moreover have "captures D f (d_next D d) (capptr ?h + 8 + 8 * (c - Suc (capcounter ?h))) = Some ds"
        using run(3) by (simp add: eq)
      ultimately show ?thesis
        unfolding threw_at_def using run(1,2)
        by - (rule exI [of _ d], rule exI [of _ ?h], rule exI [of _ op], rule exI [of _ c], rule exI [of _ f],
            rule exI [of _ ds], simp del: destroy_run.simps)
    next
      case False
      let ?h = "h\<lparr>capptr := capptr h + 8 * c, capcounter := 0\<rparr>"
      let ?log = "log @ map disposed ?r"
      have "disposeCapture (log_dispose j) op None c h log = Returns (False, ?h\<lparr>capcounter := c\<rparr>, ?log)"
        using dispose_loop_before [OF run(2), of log c j h] Suc.prems False by (simp add: disposeCapture_def)
      then have "destroy_run D (log_dispose j) None (Suc f) d h log =
          destroy_run D (log_dispose j) None f (d_next D d) ?h ?log"
        using run(1,2) by (auto simp: object_kind_def)
      moreover have E: "j - length log = c + (j - length ?log)" using False by simp
      moreover have "fst (ds ! (j - length ?log)) \<in> {4, 5}"
        using Suc.prems(4) nth_append_length_plus [of ?r ds "j - length ?log"] unfolding run(4) E length_run_of by simp
      then have "threw_at D f ds (j - length ?log) ?log (destroy_run D (log_dispose j) None f (d_next D d) ?h ?log)"
        using Suc.prems(2,3,5) run(3,4) False by (intro Suc.IH) simp_all
      ultimately show ?thesis
        using threw_at_Suc [OF threw_at_append, of D f ds "j - length ?log" log ?r] run(4) by (simp del: destroy_run.simps)
    qed
  qed
qed simp

section \<open>Exceptions while copying and disposing\<close>

text \<open>The inline encodings end after four and three kinds of captures.\<close>

lemma GenericInline_captures: "\<exists>cs. captures (GenericInline w) 5 (d_init (GenericInline w)) off = Some cs"
  by (simp add: GenericInline_def eval_nat_numeral)

lemma ExtendedInline_captures: "\<exists>cs. captures (ExtendedInline w) 4 (d_init (ExtendedInline w)) off = Some cs"
  by (simp add: ExtendedInline_def eval_nat_numeral)

lemma copy_excp_undo:
  assumes "captures D fuel (d_init D) 32 = Some cs" "n < length cs" "fst (cs ! n) \<in> {4, 5}"
  shows "call_copy_helpers_excp (Some D) (log_call n) custom free fuel [] =
    Throws (free (map copied (take n cs) @ map disposed (take n cs)))"
proof -
  obtain d h where c: "copyBlock D (log_call n) fuel [] = Throws (d, h, map copied (take n cs))"
      and h: "capptr h = snd (cs ! n)"
    using copy_run_throws [of D fuel "d_init D" initState cs "[]" n] assms
    by (auto simp: copyBlock_def initState_def)
  have "before (Some (capptr h)) cs = take n cs"
    using before_nth [of cs n] captures_range [OF assms(1)] assms(2) h by simp
  then obtain d' h' where "destroyBlock D (log_call n) (Some (capptr h)) fuel (map copied (take n cs)) =
      Returns (d', h', map copied (take n cs) @ map disposed (take n cs))"
    using destroy_run_log [of D fuel "d_init D" initState cs 0 "log_call n" "map copied (take n cs)" "Some (capptr h)"]
      assms(1) log_call_quiet by (auto simp: destroyBlock_def initState_def)
  then show ?thesis
    by (simp add: call_copy_helpers_excp_def c cleanup_generic_captures_def cleanup_captures_def unwind_def)
qed

lemma dispose_excp_complete:
  assumes "captures D fuel (d_init D) 32 = Some cs" "j < length cs" "fst (cs ! j) \<in> {4, 5}"
  shows "call_dispose_helpers_excp (Some D) (log_dispose j) Returns free fuel [] = Throws (free (map disposed cs))"
proof -
  obtain d h op c f' ds where
    t: "destroyBlock D (log_dispose j) None fuel [] = Throws (d, h, map disposed (take (Suc j) cs))"
    and g: "d_get D d = Some (op, c)" "object_kind op" "f' < fuel"
      "captures D f' (d_next D d) (capptr h + 8 + 8 * (c - Suc (capcounter h))) = Some ds"
    and r: "drop (Suc j) cs = run_of op (capptr h + 8) (c - Suc (capcounter h)) @ ds"
    using destroy_run_throws [of D fuel "d_init D" initState cs "[]" j] assms
    by (auto simp: destroyBlock_def initState_def threw_at_def)
  let ?h = "(advancePointer 8 h)\<lparr>capcounter := capcounter h + 1\<rparr>"
  have "\<exists>d' h'. destroy_run D (log_dispose j) None fuel d ?h (map disposed (take (Suc j) cs)) =
      Returns (d', h', map disposed (take (Suc j) cs) @ map disposed (drop (Suc j) cs))"
    using destroy_resume [of D d op c "Suc j" "log_dispose j" "map disposed (take (Suc j) cs)" f' ?h ds fuel]
      g r assms(2) log_dispose_quiet by (simp add: advancePointer_def)
  then show ?thesis
    by (auto simp: call_dispose_helpers_excp_def t cleanup_generic_captures_def cleanup_captures_def unwind_def
        simp flip: map_append)
qed

text \<open>
  C20: when copying a captured block or \<^verbatim>\<open>__block\<close> variable throws, exactly the captures that were
  copied before it are disposed, in order, the new block is freed, and the exception
  leaves the copy. This holds for each of the four encodings of the captures.
\<close>

theorem copy_helpers_undo:
  assumes "helper_kind_of m empty_string srcbl = Some k"
    and "captures (decoder_of m empty_string k dstbl) fuel (d_init (decoder_of m empty_string k dstbl)) 32 = Some cs"
    and "n < length cs" and "fst (cs ! n) \<in> {4, 5}"
  shows "call_copy_helpers m empty_string dstbl srcbl (log_call n) custom free fuel [] =
    Throws (free (map copied (take n cs) @ map disposed (take n cs)))"
  using copy_excp_undo [OF assms(2-4)] assms(1) by (simp add: call_copy_helpers_def)

text \<open>A block with one strong, one block and one byref capture, described inline.\<close>

definition example_memory :: memory where
  "example_memory = (\<lambda>a. if a = 0x101 then 0x80 else if a = 0xF9 then 0x11 else if a = 0xFA then 1 else 0)"

definition example_block :: Block_layout where
  "example_block = \<lparr>bl_isa = 0, bl_flags = 0, bl_reserved = 0, bl_invoke = 0, bl_descriptor = 0x100\<rparr>"

lemma example_kind: "helper_kind_of example_memory 0 example_block = Some Kind_GenericInline"
  by code_simp

lemma example_captures:
  "captures (decoder_of example_memory 0 Kind_GenericInline example_block) 5
     (d_init (decoder_of example_memory 0 Kind_GenericInline example_block)) 32 = Some [(3, 32), (4, 40), (5, 48)]"
  by code_simp

theorem copy_helpers_undo_witness:
  "call_copy_helpers example_memory 0 example_block example_block (log_call 2) Returns rev 5 [] =
     Throws [Call_object_dispose 40 7, Call_objc_release 32, Call_object_assign 40 40 7, Call_objc_retain 32]"
  using copy_helpers_undo [OF example_kind example_captures, of 2 Returns rev]
  by (simp add: copied_def disposed_def copy_call_def dispose_call_def numeral_2_eq_2)

text \<open>
  C21: when disposing a captured block or \<^verbatim>\<open>__block\<close> variable throws, the clean-up goes on after it,
  so that every capture is disposed once and in order before the block is freed and the
  exception leaves.
\<close>

theorem dispose_helpers_complete:
  assumes "helper_kind_of m empty_string bl = Some k"
    and "captures (decoder_of m empty_string k bl) fuel (d_init (decoder_of m empty_string k bl)) 32 = Some cs"
    and "j < length cs" and "fst (cs ! j) \<in> {4, 5}"
  shows "call_dispose_helpers m empty_string bl (log_dispose j) Returns free fuel [] = Throws (free (map disposed cs))"
  using dispose_excp_complete [OF assms(2-4)] assms(1) by (simp add: call_dispose_helpers_def)

theorem dispose_helpers_complete_witness:
  "call_dispose_helpers example_memory 0 example_block (log_dispose 1) Returns rev 5 [] =
     Throws [Call_object_dispose 48 8, Call_object_dispose 40 7, Call_objc_release 32]"
  using dispose_helpers_complete [OF example_kind example_captures, of 1 rev]
  by (simp add: disposed_def dispose_call_def)

end
