(* ===== verification/BlockCopy.thy ===== *)
theory BlockCopy
  imports BlockHelpers
begin

text \<open>
  Copying and releasing blocks and \<^verbatim>\<open>__block\<close> variables (\<^verbatim>\<open>runtime.cpp\<close> of \<^verbatim>\<open>libclosure\<close> from
  \<open>_Block_copy\<close> on). The state holds all of memory as bytes, the answers \<open>malloc\<close> will give, zero
  when it fails, and the blocks that were freed. Calls that leave the library are a
  parameter: the functions of the Objective-C runtime and those the compiler generates. One
  thread runs at a time; \<open>BlockLayout\<close> has the counts under interference. A block that captures
  blocks is copied to a given depth. The helpers read descriptors and layout strings, which are
  constant data, from the memory they start with.
\<close>

section \<open>Memory\<close>

datatype ext_call =
    Ext_retain u64 | Ext_release u64 | Ext_copyWeak u64 u64 | Ext_destroyWeak u64
  | Ext_copy u64 u64 u64 | Ext_dispose u64 u64 | Ext_keep u64 u64 u64 | Ext_destroy u64 u64
  | Ext_retain_object u64 | Ext_release_object u64 | Ext_destructInstance u64

record world =
  bytes :: memory
  mallocs :: "u64 list"
  freed :: "u64 list"
  ext_calls :: "ext_call list"

record block_env =
  ext :: "ext_call \<Rightarrow> world \<Rightarrow> world outcome"
  empty_string :: u64
  NSConcreteMallocBlock :: u64
  layout_fuel :: nat

definition wr32 :: "memory \<Rightarrow> u64 \<Rightarrow> u32 \<Rightarrow> memory" where
  "wr32 m a v = (\<lambda>x. if unat (x - a) < 4 then ucast (drop_bit (8 * unat (x - a)) v) else m x)"

definition wr64 :: "memory \<Rightarrow> u64 \<Rightarrow> u64 \<Rightarrow> memory" where
  "wr64 m a v = (\<lambda>x. if unat (x - a) < 8 then ucast (drop_bit (8 * unat (x - a)) v) else m x)"

definition memmove :: "u64 \<Rightarrow> u64 \<Rightarrow> u64 \<Rightarrow> memory \<Rightarrow> memory" where
  "memmove dst src n m = (\<lambda>x. if x - dst < n then m (src + (x - dst)) else m x)"

definition malloc :: "world \<Rightarrow> u64 \<times> world" where
  "malloc w = (case mallocs w of [] \<Rightarrow> (0, w) | p # ps \<Rightarrow> (p, w\<lparr>mallocs := ps\<rparr>))"

definition free_block :: "u64 \<Rightarrow> world \<Rightarrow> world" where
  "free_block p w = w\<lparr>freed := freed w @ [p]\<rparr>"

definition load_block :: "memory \<Rightarrow> u64 \<Rightarrow> Block_layout" where
  "load_block m a = \<lparr>bl_isa = rd64 m a, bl_flags = rd32 m (a + 8), bl_reserved = rd32 m (a + 12),
     bl_invoke = rd64 m (a + 16), bl_descriptor = rd64 m (a + 24)\<rparr>"

definition Block_flags :: "u64 \<Rightarrow> world \<Rightarrow> u32" where
  "Block_flags a w = rd32 (bytes w) (a + 8)"

definition set_Block_flags :: "u64 \<Rightarrow> u32 \<Rightarrow> world \<Rightarrow> world" where
  "set_Block_flags a v w = w\<lparr>bytes := wr32 (bytes w) (a + 8) v\<rparr>"

section \<open>Variables shared by blocks\<close>

definition BLOCK_BYREF_LAYOUT_EXTENDED :: u32 where "BLOCK_BYREF_LAYOUT_EXTENDED = push_bit 28 1"
definition BLOCK_BYREF_HAS_COPY_DISPOSE :: u32 where "BLOCK_BYREF_HAS_COPY_DISPOSE = push_bit 25 1"
definition BLOCK_BYREF_NEEDS_FREE :: u32 where "BLOCK_BYREF_NEEDS_FREE = push_bit 24 1"

text \<open>The fields of a \<open>Block_byref\<close>, of the two functions after it, and of the layout after those.\<close>

definition forwarding :: "u64 \<Rightarrow> world \<Rightarrow> u64" where
  "forwarding a w = rd64 (bytes w) (a + 8)"

definition byref_flags :: "u64 \<Rightarrow> world \<Rightarrow> u32" where
  "byref_flags a w = rd32 (bytes w) (a + 16)"

definition byref_size :: "u64 \<Rightarrow> world \<Rightarrow> u32" where
  "byref_size a w = rd32 (bytes w) (a + 20)"

definition byref_word :: "u64 \<Rightarrow> nat \<Rightarrow> world \<Rightarrow> u64" where
  "byref_word a off w = rd64 (bytes w) (a + of_nat off)"

definition put32 :: "u64 \<Rightarrow> u32 \<Rightarrow> world \<Rightarrow> world" where
  "put32 a v w = w\<lparr>bytes := wr32 (bytes w) a v\<rparr>"

definition put64 :: "u64 \<Rightarrow> u64 \<Rightarrow> world \<Rightarrow> world" where
  "put64 a v w = w\<lparr>bytes := wr64 (bytes w) a v\<rparr>"

definition new_byref :: "u64 \<Rightarrow> u64 \<Rightarrow> world \<Rightarrow> world" where
  "new_byref src copy w =
     (let w1 = put64 copy 0 w;
          w2 = put32 (copy + 16) (byref_flags src w1 OR BLOCK_BYREF_NEEDS_FREE OR 4) w1;
          w3 = put64 (copy + 8) copy w2;
          w4 = put64 (src + 8) copy w3
      in put32 (copy + 20) (byref_size src w4) w4)"

definition Block_byref_copy :: "block_env \<Rightarrow> u64 \<Rightarrow> world \<Rightarrow> (u64 \<times> world) outcome" where
  "Block_byref_copy E src w =
     (if byref_flags (forwarding src w) w AND BLOCK_REFCOUNT_MASK = 0 then
        let (copy, w0) = malloc w in
        if copy = 0 then Fails
        else
          let w1 = new_byref src copy w0 in
          if byref_flags src w1 AND BLOCK_BYREF_HAS_COPY_DISPOSE \<noteq> 0 then
            let w2 = put64 (copy + 24) (byref_word src 24 w1) w1;
                w3 = put64 (copy + 32) (byref_word src 32 w2) w2;
                w4 = (if byref_flags src w3 AND BLOCK_BYREF_LAYOUT_EXTENDED \<noteq> 0
                      then put64 (copy + 40) (byref_word src 40 w3) w3 else w3)
            in and_then (ext E (Ext_keep (byref_word src 24 w4) copy src) w4)
                 (\<lambda>w5. Returns (forwarding src w5, w5)) (\<lambda>w5. (0, w5))
          else
            let w2 = w1\<lparr>bytes := memmove (copy + 24) (src + 24) (ucast (byref_size src w1) - 24) (bytes w1)\<rparr>
            in Returns (forwarding src w2, w2)
      else if byref_flags (forwarding src w) w AND BLOCK_BYREF_NEEDS_FREE = BLOCK_BYREF_NEEDS_FREE then
        let w1 = put32 (forwarding src w + 16) (snd (latching_incr_int [] (byref_flags (forwarding src w) w))) w
        in Returns (forwarding src w1, w1)
      else Returns (forwarding src w, w))"

definition Block_byref_release :: "block_env \<Rightarrow> u64 \<Rightarrow> world \<Rightarrow> world outcome" where
  "Block_byref_release E arg w =
     (let byref = forwarding arg w in
      if byref_flags byref w AND BLOCK_BYREF_NEEDS_FREE \<noteq> 0 then
        if byref_flags byref w AND BLOCK_REFCOUNT_MASK = 0 then Fails
        else
          let (dealloc, fl) = latching_decr_int_should_deallocate [] (byref_flags byref w);
              w1 = put32 (byref + 16) fl w in
          if dealloc then
            and_then
              (if byref_flags byref w1 AND BLOCK_BYREF_HAS_COPY_DISPOSE \<noteq> 0
               then ext E (Ext_destroy (byref_word byref 32 w1) byref) w1 else Returns w1)
              (\<lambda>w2. Returns (free_block byref w2)) id
          else Returns w1
      else Returns w)"

section \<open>Assigning and disposing of a field\<close>

abbreviation (input) BLOCK_FIELD_IS_OBJECT :: u32 where "BLOCK_FIELD_IS_OBJECT \<equiv> 3"
abbreviation (input) BLOCK_FIELD_IS_WEAK :: u32 where "BLOCK_FIELD_IS_WEAK \<equiv> 16"
abbreviation (input) BLOCK_BYREF_CALLER :: u32 where "BLOCK_BYREF_CALLER \<equiv> 128"

definition BLOCK_ALL_COPY_DISPOSE_FLAGS :: u32 where
  "BLOCK_ALL_COPY_DISPOSE_FLAGS =
     BLOCK_FIELD_IS_OBJECT OR BLOCK_FIELD_IS_BLOCK OR BLOCK_FIELD_IS_BYREF OR BLOCK_FIELD_IS_WEAK OR BLOCK_BYREF_CALLER"

definition Block_object_assign ::
  "block_env \<Rightarrow> (u64 \<Rightarrow> world \<Rightarrow> (u64 \<times> world) outcome) \<Rightarrow> u64 \<Rightarrow> u64 \<Rightarrow> u32 \<Rightarrow> world \<Rightarrow> world outcome" where
  "Block_object_assign E copy dest object flags w =
     (let f = flags AND BLOCK_ALL_COPY_DISPOSE_FLAGS in
      if f = BLOCK_FIELD_IS_OBJECT
      then and_then (ext E (Ext_retain_object object) w) (\<lambda>w'. Returns (put64 dest object w')) id
      else if f = BLOCK_FIELD_IS_BLOCK
      then and_then (copy object w) (\<lambda>(r, w'). Returns (put64 dest r w')) snd
      else if f = BLOCK_FIELD_IS_BYREF OR BLOCK_FIELD_IS_WEAK \<or> f = BLOCK_FIELD_IS_BYREF
      then and_then (Block_byref_copy E object w) (\<lambda>(r, w'). Returns (put64 dest r w')) snd
      else if f = BLOCK_BYREF_CALLER OR BLOCK_FIELD_IS_OBJECT \<or> f = BLOCK_BYREF_CALLER OR BLOCK_FIELD_IS_BLOCK
      then Returns (put64 dest object w)
      else if f = BLOCK_BYREF_CALLER OR BLOCK_FIELD_IS_OBJECT OR BLOCK_FIELD_IS_WEAK \<or>
              f = BLOCK_BYREF_CALLER OR BLOCK_FIELD_IS_BLOCK OR BLOCK_FIELD_IS_WEAK
      then Returns (put64 dest object w)
      else Returns w)"

definition Block_object_dispose ::
  "block_env \<Rightarrow> (u64 \<Rightarrow> world \<Rightarrow> world outcome) \<Rightarrow> u64 \<Rightarrow> u32 \<Rightarrow> world \<Rightarrow> world outcome" where
  "Block_object_dispose E rel object flags w =
     (let f = flags AND BLOCK_ALL_COPY_DISPOSE_FLAGS in
      if f = BLOCK_FIELD_IS_BYREF OR BLOCK_FIELD_IS_WEAK \<or> f = BLOCK_FIELD_IS_BYREF then Block_byref_release E object w
      else if f = BLOCK_FIELD_IS_BLOCK then rel object w
      else if f = BLOCK_FIELD_IS_OBJECT then ext E (Ext_release_object object) w
      else Returns w)"

text \<open>What the generic helpers call for the captures of the block \<open>dst\<close>, copied from \<open>src\<close>.\<close>

definition perform_capture ::
  "block_env \<Rightarrow> (u64 \<Rightarrow> world \<Rightarrow> (u64 \<times> world) outcome) \<Rightarrow> (u64 \<Rightarrow> world \<Rightarrow> world outcome) \<Rightarrow> u64 \<Rightarrow> u64 \<Rightarrow>
   capture_call \<Rightarrow> world \<Rightarrow> world outcome" where
  "perform_capture E copy rel dst src c w =
     (let field = (\<lambda>bl off. rd64 (bytes w) (bl + of_nat off)) in
      case c of
        Call_objc_retain s \<Rightarrow> ext E (Ext_retain (field src s)) w
      | Call_objc_release p \<Rightarrow> ext E (Ext_release (field dst p)) w
      | Call_objc_copyWeak d s \<Rightarrow> ext E (Ext_copyWeak (dst + of_nat d) (src + of_nat s)) w
      | Call_objc_destroyWeak p \<Rightarrow> ext E (Ext_destroyWeak (dst + of_nat p)) w
      | Call_object_assign d s flags \<Rightarrow> Block_object_assign E copy (dst + of_nat d) (field src s) flags w
      | Call_object_dispose p flags \<Rightarrow> Block_object_dispose E rel (field dst p) flags w)"

section \<open>Copying and releasing blocks\<close>

definition call_custom_copy_helper :: "block_env \<Rightarrow> u64 \<Rightarrow> u64 \<Rightarrow> world \<Rightarrow> world outcome" where
  "call_custom_copy_helper E result aBlock w =
     (let pFn = Block_get_copy_function (bytes w) (load_block (bytes w) aBlock) in
      if pFn \<noteq> 0 then ext E (Ext_copy pFn result aBlock) w else Returns w)"

definition call_custom_dispose_helper :: "block_env \<Rightarrow> u64 \<Rightarrow> world \<Rightarrow> world outcome" where
  "call_custom_dispose_helper E aBlock w =
     (let pFn = Block_get_dispose_function (bytes w) (load_block (bytes w) aBlock) in
      if pFn \<noteq> 0 then ext E (Ext_dispose pFn aBlock) w else Returns w)"

primrec Block_release :: "nat \<Rightarrow> block_env \<Rightarrow> u64 \<Rightarrow> world \<Rightarrow> world outcome" where
  "Block_release 0 E aBlock w = Out_of_fuel"
| "Block_release (Suc depth) E aBlock w =
     (if aBlock = 0 then Returns w
      else if Block_flags aBlock w AND BLOCK_IS_GLOBAL \<noteq> 0 then Returns w
      else if Block_flags aBlock w AND BLOCK_NEEDS_FREE = 0 then Returns w
      else
        let (dealloc, fl) = latching_decr_int_should_deallocate [] (Block_flags aBlock w);
            w1 = set_Block_flags aBlock fl w in
        if dealloc then
          and_then
            (call_dispose_helpers (bytes w1) (empty_string E) (load_block (bytes w1) aBlock)
              (perform_capture E (\<lambda>a w. Fails) (Block_release depth E) aBlock aBlock)
              (call_custom_dispose_helper E aBlock) (free_block aBlock) (layout_fuel E) w1)
            (\<lambda>w2. and_then (ext E (Ext_destructInstance aBlock) w2) (\<lambda>w3. Returns (free_block aBlock w3)) id) id
        else Returns w1)"

primrec Block_copy :: "nat \<Rightarrow> block_env \<Rightarrow> u64 \<Rightarrow> world \<Rightarrow> (u64 \<times> world) outcome" where
  "Block_copy 0 E arg w = Out_of_fuel"
| "Block_copy (Suc depth) E arg w =
     (if arg = 0 then Returns (0, w)
      else if Block_flags arg w AND BLOCK_NEEDS_FREE \<noteq> 0
      then Returns (arg, set_Block_flags arg (snd (latching_incr_int [] (Block_flags arg w))) w)
      else if Block_flags arg w AND BLOCK_IS_GLOBAL \<noteq> 0 then Returns (arg, w)
      else
        let sz = Block_size (bytes w) (load_block (bytes w) arg);
            (result, w0) = malloc w in
        if result = 0 then Returns (0, w0)
        else
          let w1 = w0\<lparr>bytes := memmove result arg sz (bytes w0)\<rparr>;
              w2 = set_Block_flags result (Block_flags result w1 AND NOT (BLOCK_REFCOUNT_MASK OR BLOCK_DEALLOCATING)) w1;
              w3 = set_Block_flags result (Block_flags result w2 OR (BLOCK_NEEDS_FREE OR 2)) w2 in
          and_then
            (call_copy_helpers (bytes w3) (empty_string E) (load_block (bytes w3) result) (load_block (bytes w3) arg)
              (perform_capture E (Block_copy depth E) (Block_release depth E) result arg)
              (call_custom_copy_helper E result arg) (free_block result) (layout_fuel E) w3)
            (\<lambda>w4. Returns (result, put64 result (NSConcreteMallocBlock E) w4)) (\<lambda>w4. (0, w4)))"

definition Block_tryRetain :: "u64 \<Rightarrow> world \<Rightarrow> bool \<times> world" where
  "Block_tryRetain aBlock w =
     (let (ok, fl) = latching_incr_int_not_deallocating [] (Block_flags aBlock w) in (ok, set_Block_flags aBlock fl w))"

definition Block_isDeallocating :: "u64 \<Rightarrow> world \<Rightarrow> bool" where
  "Block_isDeallocating aBlock w \<longleftrightarrow> Block_flags aBlock w AND BLOCK_DEALLOCATING \<noteq> 0"

section \<open>Reading what was written\<close>

lemma sum_digits: "(\<Sum>i\<leftarrow>[0..<k]. n div 256 ^ i mod 256 * 256 ^ i) = n mod (256 :: nat) ^ k"
proof (induction k)
  case (Suc k)
  have "n mod (256 ^ k * 256) = 256 ^ k * (n div 256 ^ k mod 256) + n mod 256 ^ k" by (rule mod_mult2_eq)
  then show ?case using Suc by (simp add: mult.commute)
qed simp

lemma rd32_nat: "rd32 m a = of_nat (\<Sum>i\<leftarrow>[0..<4]. unat (m (a + of_nat i)) * 256 ^ i)"
  by (simp add: rd32_def upt_rec push_bit_eq_mult)

lemma rd64_nat: "rd64 m a = of_nat (\<Sum>i\<leftarrow>[0..<8]. unat (m (a + of_nat i)) * 256 ^ i)"
  by (simp add: rd64_def upt_rec push_bit_eq_mult)

lemma unat_small: "i < 18446744073709551616 \<Longrightarrow> unat (of_nat i :: u64) = i"
  by (simp add: unat_of_nat take_bit_nat_eq_self)

lemma byte_digit:
  fixes v :: "'a::len word"
  shows "unat (ucast (drop_bit (8 * i) v) :: u8) = unat v div 256 ^ i mod 256"
  unfolding unsigned_ucast_eq unat_drop_bit by (simp add: take_bit_eq_mod drop_bit_eq_div power_mult)

lemma rd32_wr32 [simp]: "rd32 (wr32 m a v) a = v"
proof -
  have "(\<Sum>i\<leftarrow>[0..<4]. unat (wr32 m a v (a + of_nat i)) * 256 ^ i) = (\<Sum>i\<leftarrow>[0..<4]. unat v div 256 ^ i mod 256 * 256 ^ i)"
    by (intro arg_cong [of _ _ sum_list] map_cong) (auto simp: wr32_def unat_small byte_digit)
  also have "\<dots> = unat v" using unsigned_less [of v, where ?'a = nat] by (simp add: sum_digits del: upt_rec_numeral)
  finally show ?thesis unfolding rd32_nat by simp
qed

lemma rd64_wr64 [simp]: "rd64 (wr64 m a v) a = v"
proof -
  have "(\<Sum>i\<leftarrow>[0..<8]. unat (wr64 m a v (a + of_nat i)) * 256 ^ i) = (\<Sum>i\<leftarrow>[0..<8]. unat v div 256 ^ i mod 256 * 256 ^ i)"
    by (intro arg_cong [of _ _ sum_list] map_cong) (auto simp: wr64_def unat_small byte_digit)
  also have "\<dots> = unat v" using unsigned_less [of v, where ?'a = nat] by (simp add: sum_digits del: upt_rec_numeral)
  finally show ?thesis unfolding rd64_nat by simp
qed

lemma rd32_cong: "(\<And>i. i < 4 \<Longrightarrow> m' (a + of_nat i) = m (a + of_nat i)) \<Longrightarrow> rd32 m' a = rd32 m a"
  unfolding rd32_def by (intro arg_cong [of _ _ sum_list] map_cong) auto

lemma rd64_cong: "(\<And>i. i < 8 \<Longrightarrow> m' (a + of_nat i) = m (a + of_nat i)) \<Longrightarrow> rd64 m' a = rd64 m a"
  unfolding rd64_def by (intro arg_cong [of _ _ sum_list] map_cong) auto

lemma wr32_other: "(\<And>k. k < 4 \<Longrightarrow> x \<noteq> a + of_nat k) \<Longrightarrow> wr32 m a v x = m x"
  by (auto simp: wr32_def) (metis add_diff_cancel_left' diff_add_cancel add.commute of_nat_unat ucast_id)

lemma wr64_other: "(\<And>k. k < 8 \<Longrightarrow> x \<noteq> a + of_nat k) \<Longrightarrow> wr64 m a v x = m x"
  by (auto simp: wr64_def) (metis add_diff_cancel_left' diff_add_cancel add.commute of_nat_unat ucast_id)

lemma and_bit_test:
  fixes w :: u32
  assumes "n < 32"
  shows "w AND push_bit n 1 = 0 \<longleftrightarrow> \<not> bit w n" "w AND push_bit n 1 = push_bit n 1 \<longleftrightarrow> bit w n"
proof -
  have i: "bit (w AND push_bit n 1) k \<longleftrightarrow> k = n \<and> bit w n" for k using assms by (auto simp: bit_simps)
  have o: "bit (push_bit n 1 :: u32) k \<longleftrightarrow> k = n" for k using assms by (auto simp: bit_simps)
  show "w AND push_bit n 1 = 0 \<longleftrightarrow> \<not> bit w n" by (metis i bit_0_eq bot_apply bot_bool_def bit_word_eqI)
  show "w AND push_bit n 1 = push_bit n 1 \<longleftrightarrow> bit w n" by (metis i o bit_word_eqI)
qed

text \<open>Two records of \<open>n\<close> bytes that do not overlap.\<close>

definition apart :: "nat \<Rightarrow> u64 \<Rightarrow> u64 \<Rightarrow> bool" where
  "apart n s a \<longleftrightarrow> n \<le> unat (s - a) \<and> n \<le> unat (a - s)"

lemma apart_ne:
  assumes "apart n s a" "p < n" "q < n" "n \<le> 4294967296"
  shows "s + of_nat p \<noteq> a + of_nat q"
proof
  assume e: "s + of_nat p = a + of_nat q"
  show False
  proof (cases "p \<le> q")
    case True
    then have "s - a = of_nat (q - p)" using e by (simp add: of_nat_diff algebra_simps)
    then have "unat (s - a) = q - p" using assms by (simp only:) (simp add: unat_small del: of_nat_diff)
    then show False using assms by (auto simp: apart_def)
  next
    case False
    then have "a - s = of_nat (p - q)" using e by (simp add: of_nat_diff algebra_simps)
    then have "unat (a - s) = p - q" using assms by (simp only:) (simp add: unat_small del: of_nat_diff)
    then show False using assms by (auto simp: apart_def)
  qed
qed

lemma field_ne: "p \<noteq> q \<Longrightarrow> p < 4294967296 \<Longrightarrow> q < 4294967296 \<Longrightarrow> a + of_nat p \<noteq> a + (of_nat q :: u64)"
  using unat_small [of p] unat_small [of q] by auto

text \<open>\<open>k\<close> bytes at \<open>x + P\<close> and \<open>l\<close> bytes at \<open>y + Q\<close>, in the header of one variable or of two that are apart.\<close>

definition sep :: "u64 \<Rightarrow> u64 \<Rightarrow> nat \<Rightarrow> u64 \<Rightarrow> u64 \<Rightarrow> nat \<Rightarrow> bool" where
  "sep x P k y Q l \<longleftrightarrow> unat P + k \<le> 24 \<and> unat Q + l \<le> 24 \<and>
     (apart 24 x y \<or> x = y \<and> (unat P + k \<le> unat Q \<or> unat Q + l \<le> unat P))"

lemma sep_ne:
  assumes "sep x P k y Q l" "i < k" "j < l"
  shows "x + P + of_nat i \<noteq> y + Q + of_nat j"
proof -
  have e: "x + P + of_nat i = x + of_nat (unat P + i)" "y + Q + of_nat j = y + of_nat (unat Q + j)" by (simp_all add: add.assoc)
  have b: "unat P + i < 24" "unat Q + j < 24" using assms by (auto simp: sep_def)
  from assms(1) consider "apart 24 x y" | "x = y" "unat P + i \<noteq> unat Q + j" using assms(2,3) by (auto simp: sep_def)
  then show ?thesis
  proof cases
    case 1 then show ?thesis unfolding e using b by (intro apart_ne [of 24]) auto
  next
    case 2 show ?thesis unfolding e unfolding 2(1) using b 2(2) by (intro field_ne) auto
  qed
qed

lemma read_frame:
  "sep x P 8 y Q 8 \<Longrightarrow> rd64 (wr64 m (y + Q) v) (x + P) = rd64 m (x + P)"
  "sep x P 8 y Q 4 \<Longrightarrow> rd64 (wr32 m (y + Q) u) (x + P) = rd64 m (x + P)"
  "sep x P 4 y Q 8 \<Longrightarrow> rd32 (wr64 m (y + Q) v) (x + P) = rd32 m (x + P)"
  "sep x P 4 y Q 4 \<Longrightarrow> rd32 (wr32 m (y + Q) u) (x + P) = rd32 m (x + P)"
  by (intro rd64_cong rd32_cong wr64_other wr32_other sep_ne; assumption)+

lemma read_frame_0:
  "sep x P 8 y 0 8 \<Longrightarrow> rd64 (wr64 m y v) (x + P) = rd64 m (x + P)"
  "sep x P 4 y 0 8 \<Longrightarrow> rd32 (wr64 m y v) (x + P) = rd32 m (x + P)"
  using read_frame(1,3) [of x P y 0 m v] by simp_all

lemma apart_sym: "apart n s a \<longleftrightarrow> apart n a s"
  by (auto simp: apart_def)

lemmas byref_reads = forwarding_def byref_flags_def byref_size_def put32_def put64_def

section \<open>A shared variable is copied once and freed once\<close>

lemma new_byref_fields:
  assumes "apart 24 s a"
  shows "forwarding s (new_byref s a w) = a" "forwarding a (new_byref s a w) = a"
    "byref_flags a (new_byref s a w) = byref_flags s w OR BLOCK_BYREF_NEEDS_FREE OR 4"
    "byref_flags s (new_byref s a w) = byref_flags s w"
    "byref_size s (new_byref s a w) = byref_size s w" "byref_size a (new_byref s a w) = byref_size s w"
    "mallocs (new_byref s a w) = mallocs w" "freed (new_byref s a w) = freed w"
  using assms apart_sym [of 24 s a]
  by (simp_all add: new_byref_def byref_reads Let_def read_frame read_frame_0 sep_def)

lemma new_byref_other:
  assumes "\<And>k. k < 24 \<Longrightarrow> x \<noteq> a + of_nat k" "\<And>k. k < 24 \<Longrightarrow> x \<noteq> s + of_nat k"
  shows "bytes (new_byref s a w) x = bytes w x"
proof -
  have a: "x \<noteq> a + of_nat p + of_nat k" if "p + k < 24" for p k using assms(1) [OF that] by (simp add: add.assoc)
  have s: "x \<noteq> s + of_nat p + of_nat k" if "p + k < 24" for p k using assms(2) [OF that] by (simp add: add.assoc)
  have "wr64 m a v x = m x" for m v using a [of 0] by (intro wr64_other) simp
  moreover have "wr64 m (a + 8) v x = m x" for m v using a [of 8] by (intro wr64_other) simp
  moreover have "wr64 m (s + 8) v x = m x" for m v using s [of 8] by (intro wr64_other) simp
  moreover have "wr32 m (a + 16) v x = m x" for m v using a [of 16] by (intro wr32_other) simp
  moreover have "wr32 m (a + 20) v x = m x" for m v using a [of 20] by (intro wr32_other) simp
  ultimately show ?thesis by (simp add: new_byref_def put32_def put64_def Let_def)
qed

lemma memmove_other:
  assumes "\<And>j. j < unat n \<Longrightarrow> x \<noteq> dst + of_nat j"
  shows "memmove dst src n m x = m x"
proof -
  have "dst + of_nat (unat (x - dst)) = x" by simp
  then have "\<not> x - dst < n" using assms [of "unat (x - dst)"] unfolding word_less_nat_alt by metis
  then show ?thesis by (simp add: memmove_def)
qed

lemma memmove_moved: "j < unat n \<Longrightarrow> memmove dst src n m (dst + of_nat j) = m (src + of_nat j)"
  using unsigned_less [of n, where ?'a = nat] by (simp add: memmove_def word_less_nat_alt unat_small)

definition stack_byref :: "nat \<Rightarrow> u64 \<Rightarrow> world \<Rightarrow> bool" where
  "stack_byref n s w \<longleftrightarrow> forwarding s w = s \<and> bcount (byref_flags s w) = 0 \<and> \<not> bit (byref_flags s w) 0 \<and>
     \<not> bit (byref_flags s w) 25 \<and> unat (byref_size s w) = n \<and> 24 \<le> n"

definition heap_byref :: "u64 \<Rightarrow> u64 \<Rightarrow> nat \<Rightarrow> world \<Rightarrow> bool" where
  "heap_byref s a c w \<longleftrightarrow> forwarding s w = a \<and> forwarding a w = a \<and> bcount (byref_flags a w) = c \<and>
     \<not> bit (byref_flags a w) 0 \<and> bit (byref_flags a w) 24 \<and> \<not> bit (byref_flags a w) 25"

lemma new_flags:
  assumes "bcount f = 0" "\<not> bit f 0" "\<not> bit f 25"
  defines "f' \<equiv> f OR BLOCK_BYREF_NEEDS_FREE OR 4"
  shows "bcount f' = 2" "\<not> bit f' 0" "bit f' 24" "\<not> bit f' 25"
proof -
  have b: "bit f' k \<longleftrightarrow> bit f k \<or> k = 24 \<or> k = 2" for k
  proof -
    have "bit (4 :: u32) k \<longleftrightarrow> k = 2" using bit_exp_iff [of 2 k, where ?'a = u32] by auto
    moreover have "bit BLOCK_BYREF_NEEDS_FREE k \<longleftrightarrow> k = 24" 
      unfolding BLOCK_BYREF_NEEDS_FREE_def bit_push_bit_iff bit_1_iff by auto
    ultimately show ?thesis by (auto simp: f'_def bit_simps)
  qed
  have z: "f AND BLOCK_REFCOUNT_MASK = 0" using assms(1) by (simp add: count_tests)
  have "f' AND BLOCK_REFCOUNT_MASK =
      f AND BLOCK_REFCOUNT_MASK OR (BLOCK_BYREF_NEEDS_FREE OR 4) AND BLOCK_REFCOUNT_MASK"
    by (simp add: f'_def bit.conj_disj_distrib2)
  also have "\<dots> = 4" unfolding z by (simp add: BLOCK_BYREF_NEEDS_FREE_def BLOCK_REFCOUNT_MASK_def)
  finally show "bcount f' = 2" using unat_count [of f'] by simp
  show "\<not> bit f' 0" "bit f' 24" "\<not> bit f' 25" using assms(2,3) by (simp_all add: b)
qed

lemma same_rest_bit:
  assumes "drop_bit 16 v' = drop_bit 16 v" "16 \<le> n"
  shows "bit v' n = bit (v :: u32) n"
proof -
  have "bit u n = bit (drop_bit 16 u) (n - 16)" for u :: u32 using assms(2) by (simp add: bit_drop_bit_eq)
  then show ?thesis using assms(1) by metis
qed

lemma heap_byref_put:
  assumes "heap_byref s a c w" "apart 24 s a" "same_rest (byref_flags a w) fl"
  shows "heap_byref s a (bcount fl) (put32 (a + 16) fl w)"
proof -
  have "bit fl 24 = bit (byref_flags a w) 24" "bit fl 25 = bit (byref_flags a w) 25" "bit fl 0 = bit (byref_flags a w) 0"
    using assms(3) by (auto simp: same_rest_def intro!: same_rest_bit)
  then show ?thesis using assms(1,2) by (simp add: heap_byref_def byref_reads read_frame sep_def)
qed

lemma byref_copy_first:
  assumes "stack_byref n s w" "apart n s a" "mallocs w = a # rest" "a \<noteq> 0"
  shows "\<exists>w'. Block_byref_copy E s w = Returns (a, w') \<and> heap_byref s a 2 w' \<and> mallocs w' = rest \<and>
    freed w' = freed w \<and> (\<forall>j. 24 \<le> j \<and> j < n \<longrightarrow> bytes w' (a + of_nat j) = bytes w (s + of_nat j))"
proof -
  let ?w0 = "w\<lparr>mallocs := rest\<rparr>" and ?sz = "ucast (byref_size s w) - 24 :: u64"
  let ?w1 = "new_byref s a ?w0"
  let ?w2 = "?w1\<lparr>bytes := memmove (a + 24) (s + 24) ?sz (bytes ?w1)\<rparr>"
  have n: "24 \<le> n" "n = unat (byref_size s w)" "n \<le> 4294967296"
    using assms(1) unsigned_less [of "byref_size s w", where ?'a = nat] by (auto simp: stack_byref_def)
  have u: "unat (ucast (byref_size s w) :: u64) = n"
    using n(2) unsigned_less [of "byref_size s w", where ?'a = nat] by (simp add: unsigned_ucast_eq take_bit_nat_eq_self)
  have sz: "unat ?sz = n - 24" using u n(1) by (simp add: unat_sub word_le_nat_alt)
  have ap: "apart 24 s a" using assms(2) n(1) by (auto simp: apart_def)
  note f = new_byref_fields [OF ap, of ?w0]
  have same: "bytes ?w2 (x + of_nat q) = bytes ?w1 (x + of_nat q)" if "x = s \<or> x = a" "q < 24" for x q
  proof -
    have "x + of_nat q \<noteq> a + 24 + of_nat j" if "j < unat ?sz" for j
    proof -
      have j: "24 + j < n" "q < n" "q \<noteq> 24 + j" using that \<open>q < 24\<close> n(1) unfolding sz by auto
      have "s + of_nat q \<noteq> a + of_nat (24 + j)" using j n(3) by (intro apart_ne [OF assms(2)])
      moreover have "a + of_nat q \<noteq> a + of_nat (24 + j)" using j n(3) by (intro field_ne) auto
      ultimately show ?thesis using \<open>x = s \<or> x = a\<close> by (auto simp: add.assoc)
    qed
    then show ?thesis by (simp add: memmove_other)
  qed
  have header: "rd64 (bytes ?w2) (x + 8) = rd64 (bytes ?w1) (x + 8)" "rd32 (bytes ?w2) (x + 16) = rd32 (bytes ?w1) (x + 16)"
    if "x = s \<or> x = a" for x
    using same [OF that, of "8 + _"] same [OF that, of "16 + _"] by (auto intro!: rd64_cong rd32_cong simp: add.assoc)
  have content: "bytes ?w2 (a + of_nat j) = bytes w (s + of_nat j)" if "24 \<le> j" "j < n" for j
  proof -
    have "bytes ?w2 (a + of_nat j) = bytes ?w1 (s + of_nat j)"
      using memmove_moved [of "j - 24" ?sz "a + 24" "s + 24" "bytes ?w1"] that sz by (simp add: of_nat_diff)
    also have "\<dots> = bytes ?w0 (s + of_nat j)"
      using apart_ne [OF assms(2) that(2)] field_ne [of j _ s] that n by (intro new_byref_other) auto
    finally show ?thesis by simp
  qed
  have s: "forwarding s w = s" "byref_flags s w AND BLOCK_REFCOUNT_MASK = 0"
    "byref_flags s w AND BLOCK_BYREF_HAS_COPY_DISPOSE = 0"
    using assms(1) unfolding stack_byref_def count_tests BLOCK_BYREF_HAS_COPY_DISPOSE_def by (simp_all only: and_bit_test) simp_all
  have fs: "byref_flags s ?w0 = byref_flags s w" "byref_size s ?w0 = byref_size s w" by (simp_all add: byref_flags_def byref_size_def)
  have fw: "forwarding x ?w2 = forwarding x ?w1" "byref_flags x ?w2 = byref_flags x ?w1" if "x = s \<or> x = a" for x
    using header [OF that] by (simp_all add: forwarding_def byref_flags_def)
  have run: "Block_byref_copy E s w = Returns (a, ?w2)"
    using assms(3,4) fw(1) [of s] unfolding Block_byref_copy_def by (simp add: malloc_def s f fs Let_def)
  have "heap_byref s a 2 ?w2"
    using new_flags [of "byref_flags s w"] assms(1) unfolding heap_byref_def by (simp add: fw f fs stack_byref_def)
  then show ?thesis using run content f by (intro exI [of _ ?w2]) simp
qed

lemma byref_copy_again:
  assumes "heap_byref s a c w" "apart 24 s a" "0 < c" "c < 32767"
  shows "\<exists>w'. Block_byref_copy E s w = Returns (a, w') \<and> heap_byref s a (c + 1) w' \<and> mallocs w' = mallocs w \<and>
    freed w' = freed w \<and> (\<forall>j. 24 \<le> j \<and> j < 4294967296 \<longrightarrow> bytes w' (a + of_nat j) = bytes w (a + of_nat j))"
proof -
  let ?fl = "byref_flags a w"
  let ?w = "put32 (a + 16) (?fl + 2) w"
  have c: "bcount ?fl \<noteq> 0" "bcount ?fl \<noteq> 32767" using assms by (auto simp: heap_byref_def)
  have t: "?fl AND BLOCK_BYREF_NEEDS_FREE = BLOCK_BYREF_NEEDS_FREE"
    using assms(1) unfolding heap_byref_def BLOCK_BYREF_NEEDS_FREE_def by (auto simp only: and_bit_test)
  have live: "heap_byref s a (c + 1) ?w"
    using heap_byref_put [OF assms(1,2) incr_count(2) [OF c(2)]] incr_count(1) [OF c(2)] assms(1) by (simp add: heap_byref_def)
  have "Block_byref_copy E s w = Returns (a, ?w)"
    using assms(1) c live t unfolding Block_byref_copy_def by (simp add: heap_byref_def count_tests)
  moreover have "bytes ?w (a + of_nat j) = bytes w (a + of_nat j)" if "24 \<le> j" "j < 4294967296" for j
    using field_ne [of j "16 + _" a] that unfolding put32_def by (simp add: wr32_other add.assoc)
  ultimately show ?thesis using live by (intro exI [of _ ?w]) (simp add: put32_def)
qed

lemma byref_release_live:
  assumes "heap_byref s a c w" "apart 24 s a" "0 < c" "c < 32767" "p = s \<or> p = a"
  shows "\<exists>w'. Block_byref_release E p w = Returns w' \<and>
    (if c = 1 then freed w' = freed w @ [a] else freed w' = freed w \<and> heap_byref s a (c - 1) w')"
proof -
  let ?fl = "byref_flags a w"
  have c: "bcount ?fl \<noteq> 0" "bcount ?fl \<noteq> 32767" and fw: "forwarding p w = a" using assms by (auto simp: heap_byref_def)
  have t: "?fl AND BLOCK_REFCOUNT_MASK \<noteq> 0" "?fl AND BLOCK_REFCOUNT_MASK \<noteq> BLOCK_REFCOUNT_MASK"
    "?fl AND BLOCK_BYREF_NEEDS_FREE \<noteq> 0"
    using assms(1) c unfolding heap_byref_def count_tests BLOCK_BYREF_NEEDS_FREE_def by (simp_all only: and_bit_test) simp_all
  show ?thesis
  proof (cases "c = 1")
    case True
    let ?w = "put32 (a + 16) (?fl - 1) w"
    have b: "bcount ?fl = 1" "\<not> bit ?fl 0" "\<not> bit ?fl 25" using True assms(1) by (auto simp: heap_byref_def)
    have fl: "byref_flags a ?w = ?fl - 1" by (simp add: byref_reads)
    have "\<not> bit (?fl - 1) 25" using same_rest_bit [OF last_count(3) [OF b(1,2)], of 25] b(3) by simp
    then have "byref_flags a ?w AND BLOCK_BYREF_HAS_COPY_DISPOSE = 0"
      unfolding fl BLOCK_BYREF_HAS_COPY_DISPOSE_def by (simp only: and_bit_test) simp
    then have "Block_byref_release E p w = Returns (free_block a ?w)"
      using t b unfolding Block_byref_release_def fw by (simp add: decr_result_def last_test Let_def)
    then show ?thesis using True by (simp add: free_block_def put32_def)
  next
    case False
    let ?w = "put32 (a + 16) (?fl - 2) w"
    have b: "bcount ?fl \<noteq> 1" using False assms(1) by (auto simp: heap_byref_def)
    have "Block_byref_release E p w = Returns ?w"
      using t b unfolding Block_byref_release_def fw by (simp add: decr_result_def last_test Let_def)
    moreover have "heap_byref s a (c - 1) ?w"
      using heap_byref_put [OF assms(1,2) decr_count(2) [OF c(1)]] decr_count(1) [OF c(1)] assms(1) by (simp add: heap_byref_def)
    ultimately show ?thesis using False by (simp add: put32_def)
  qed
qed

text \<open>The blocks that capture a variable are copied one after another, and let go of it in any way.\<close>

fun byref_copies :: "block_env \<Rightarrow> nat \<Rightarrow> u64 \<Rightarrow> world \<Rightarrow> (u64 list \<times> world) outcome" where
  "byref_copies E 0 src w = Returns ([], w)"
| "byref_copies E (Suc k) src w =
     and_then (Block_byref_copy E src w)
       (\<lambda>(p, w'). and_then (byref_copies E k src w') (\<lambda>(ps, w''). Returns (p # ps, w'')) id)
       (\<lambda>(p, w'). ([], w'))"

fun byref_releases :: "block_env \<Rightarrow> u64 list \<Rightarrow> world \<Rightarrow> world outcome" where
  "byref_releases E [] w = Returns w"
| "byref_releases E (p # ps) w = and_then (Block_byref_release E p w) (byref_releases E ps) id"

lemma byref_copies_again:
  assumes "heap_byref s a c w" "apart 24 s a" "0 < c" "c + k < 32768"
  shows "\<exists>w'. byref_copies E k s w = Returns (replicate k a, w') \<and> heap_byref s a (c + k) w' \<and> mallocs w' = mallocs w \<and>
    freed w' = freed w \<and> (\<forall>j. 24 \<le> j \<and> j < 4294967296 \<longrightarrow> bytes w' (a + of_nat j) = bytes w (a + of_nat j))"
  using assms
proof (induction k arbitrary: c w)
  case (Suc k)
  then obtain w1 where w1: "Block_byref_copy E s w = Returns (a, w1)" "heap_byref s a (c + 1) w1" "mallocs w1 = mallocs w"
    "freed w1 = freed w" "\<forall>j. 24 \<le> j \<and> j < 4294967296 \<longrightarrow> bytes w1 (a + of_nat j) = bytes w (a + of_nat j)"
    using byref_copy_again [of s a c w E] by auto
  obtain w2 where "byref_copies E k s w1 = Returns (replicate k a, w2)" "heap_byref s a (c + 1 + k) w2" "mallocs w2 = mallocs w1"
    "freed w2 = freed w1" "\<forall>j. 24 \<le> j \<and> j < 4294967296 \<longrightarrow> bytes w2 (a + of_nat j) = bytes w1 (a + of_nat j)"
    using Suc.IH [OF w1(2)] Suc.prems by auto
  then show ?case using w1 by (intro exI [of _ w2]) simp
qed simp

lemma byref_releases_live:
  assumes "heap_byref s a c w" "apart 24 s a" "length ps \<le> c" "c < 32767" "set ps \<subseteq> {s, a}" "0 < c"
  shows "\<exists>w'. byref_releases E ps w = Returns w' \<and> freed w' = freed w @ (if length ps = c then [a] else [])"
  using assms
proof (induction ps arbitrary: c w)
  case (Cons p ps)
  then obtain w1 where w1: "Block_byref_release E p w = Returns w1"
    "if c = 1 then freed w1 = freed w @ [a] else freed w1 = freed w \<and> heap_byref s a (c - 1) w1"
    using byref_release_live [of s a c w p E] by auto
  show ?case
  proof (cases "c = 1")
    case True
    then show ?thesis using w1 Cons.prems by simp
  next
    case False
    then have "heap_byref s a (c - 1) w1" "freed w1 = freed w" using w1 by auto
    moreover have "length ps \<le> c - 1" "c - 1 < 32767" "set ps \<subseteq> {s, a}" "0 < c - 1" using Cons.prems False by auto
    ultimately obtain w2 where "byref_releases E ps w1 = Returns w2" "freed w2 = freed w @ (if length ps = c - 1 then [a] else [])"
      using Cons.IH [of "c - 1" w1] Cons.prems(2) by auto
    moreover have "length ps = c - 1 \<longleftrightarrow> length (p # ps) = c" using Cons.prems by auto
    ultimately show ?thesis using w1(1) by (intro exI [of _ w2]) simp
  qed
qed simp

text \<open>
  C22: A variable that blocks share moves to the heap once. Of k + 1 copies made of the
  variable on the stack all get the same heap address, only the first allocates, the contents
  move with it, and nothing is freed. Released through the address on the stack or on the heap
  up to k + 2 times, once for each copy and once for the scope, it is freed by the last
  release and by no earlier one.
\<close>

theorem shared_variable_lifetime:
  assumes "stack_byref n s w" "apart n s a" "mallocs w = a # rest" "a \<noteq> 0"
    "k + 2 < 0x7fff" "set ps \<subseteq> {s, a}" "length ps \<le> k + 2"
  shows "\<exists>w1 w2. byref_copies E (Suc k) s w = Returns (replicate (Suc k) a, w1) \<and> mallocs w1 = rest \<and> freed w1 = freed w \<and>
    (\<forall>j. 24 \<le> j \<and> j < n \<longrightarrow> bytes w1 (a + of_nat j) = bytes w (s + of_nat j)) \<and>
    byref_releases E ps w1 = Returns w2 \<and> freed w2 = freed w @ (if length ps = k + 2 then [a] else [])"
proof -
  have n: "24 \<le> n" "n \<le> 4294967296"
    using assms(1) unsigned_less [of "byref_size s w", where ?'a = nat] by (auto simp: stack_byref_def)
  have ap: "apart 24 s a" using assms(2) n(1) by (auto simp: apart_def)
  obtain w0 where w0: "Block_byref_copy E s w = Returns (a, w0)" "heap_byref s a 2 w0" "mallocs w0 = rest" "freed w0 = freed w"
    "\<forall>j. 24 \<le> j \<and> j < n \<longrightarrow> bytes w0 (a + of_nat j) = bytes w (s + of_nat j)"
    using byref_copy_first [OF assms(1-4), of E] by auto
  obtain w1 where w1: "byref_copies E k s w0 = Returns (replicate k a, w1)" "heap_byref s a (2 + k) w1" "mallocs w1 = mallocs w0"
    "freed w1 = freed w0" "\<forall>j. 24 \<le> j \<and> j < 4294967296 \<longrightarrow> bytes w1 (a + of_nat j) = bytes w0 (a + of_nat j)"
    using byref_copies_again [OF w0(2) ap, of k E] assms(5) by auto
  obtain w2 where "byref_releases E ps w1 = Returns w2" "freed w2 = freed w1 @ (if length ps = 2 + k then [a] else [])"
    using byref_releases_live [OF w1(2) ap, of ps E] assms(5-7) by auto
  then show ?thesis using w0 w1 n by (intro exI [of _ w1] exI [of _ w2]) auto
qed

definition example_env :: block_env where
  "example_env = \<lparr>ext = \<lambda>c w. Returns (w\<lparr>ext_calls := ext_calls w @ [c]\<rparr>), empty_string = 0x100,
     NSConcreteMallocBlock = 0x200, layout_fuel = 20\<rparr>"

definition example_world :: world where
  "example_world = \<lparr>bytes = (\<lambda>x. if x = 0x1009 \<or> x = 0x1018 then 0x10 else if x = 0x1014 then 32 else 0),
     mallocs = [0x8000], freed = [], ext_calls = []\<rparr>"

lemma example_variable:
  "stack_byref 32 0x1000 example_world" "mallocs example_world = [0x8000]" "freed example_world = []"
  "bytes example_world 0x1018 = 0x10"
proof -
  have "forwarding 0x1000 example_world = 0x1000" "byref_flags 0x1000 example_world = 0" "byref_size 0x1000 example_world = 32"
    by (simp_all add: byref_reads example_world_def rd64_def rd32_def upt_rec)
  then show "stack_byref 32 0x1000 example_world" by (simp add: stack_byref_def bcount_def)
qed (simp_all add: example_world_def)

theorem shared_variable_lifetime_witness:
  "\<exists>w1 w2. byref_copies example_env 3 0x1000 example_world = Returns (replicate 3 0x8000, w1) \<and>
     bytes w1 0x8018 = 0x10 \<and> byref_releases example_env [0x8000, 0x1000, 0x8000, 0x1000] w1 = Returns w2 \<and> freed w2 = [0x8000]"
proof -
  have ap: "apart 32 0x1000 0x8000" by (simp add: apart_def)
  obtain w1 w2 where r: "byref_copies example_env (Suc 2) 0x1000 example_world = Returns (replicate (Suc 2) 0x8000, w1)"
    "byref_releases example_env [0x8000, 0x1000, 0x8000, 0x1000] w1 = Returns w2" "freed w2 = [0x8000]"
    and c: "\<forall>j. 24 \<le> j \<and> j < 32 \<longrightarrow> bytes w1 (0x8000 + of_nat j) = bytes example_world (0x1000 + of_nat j)"
    using shared_variable_lifetime [OF example_variable(1) ap example_variable(2), of 2 "[0x8000, 0x1000, 0x8000, 0x1000]" example_env]
    by (auto simp: example_variable(3) simp del: byref_copies.simps byref_releases.simps replicate_Suc)
  have "bytes w1 0x8018 = 0x10" using c [rule_format, of 24] example_variable(4) by simp
  then show ?thesis using r by (intro exI [of _ w1] exI [of _ w2]) (simp del: byref_copies.simps byref_releases.simps replicate_Suc)
qed

section \<open>Copying a block on the heap counts\<close>

lemma Block_flags_set [simp]: "Block_flags a (set_Block_flags a v w) = v"
  by (simp add: Block_flags_def set_Block_flags_def)

lemma set_Block_flags_frame [simp]:
  "mallocs (set_Block_flags a v w) = mallocs w" "freed (set_Block_flags a v w) = freed w"
  "ext_calls (set_Block_flags a v w) = ext_calls w"
  "4 \<le> unat (x - (a + 8)) \<Longrightarrow> bytes (set_Block_flags a v w) x = bytes w x"
  by (simp_all add: set_Block_flags_def wr32_def)

definition heap_block :: "u64 \<Rightarrow> world \<Rightarrow> bool" where
  "heap_block a w \<longleftrightarrow> a \<noteq> 0 \<and> Block_flags a w AND BLOCK_NEEDS_FREE \<noteq> 0 \<and> Block_flags a w AND BLOCK_IS_GLOBAL = 0 \<and>
     \<not> bit (Block_flags a w) 0"

lemma same_rest_flags:
  assumes "same_rest v v'"
  shows "v' AND BLOCK_NEEDS_FREE = 0 \<longleftrightarrow> v AND BLOCK_NEEDS_FREE = 0" "v' AND BLOCK_IS_GLOBAL = 0 \<longleftrightarrow> v AND BLOCK_IS_GLOBAL = 0"
  using assms same_rest_bit [of v' v 24] same_rest_bit [of v' v 28]
  unfolding same_rest_def BLOCK_NEEDS_FREE_def BLOCK_IS_GLOBAL_def by (simp_all only: and_bit_test)

text \<open>
  C24: Copying a block that is on the heap returns the same block with one more reference, and
  releasing it again undoes that: flags and every other byte of memory are what they
  were, nothing is freed and no helper is called.
\<close>

theorem heap_block_copy_release:
  assumes "heap_block a w" "0 < bcount (Block_flags a w)" "bcount (Block_flags a w) + 1 < 0x7fff"
  shows "\<exists>w1 w2. Block_copy (Suc depth) E a w = Returns (a, w1) \<and> bcount (Block_flags a w1) = bcount (Block_flags a w) + 1 \<and>
    Block_release (Suc depth) E a w1 = Returns w2 \<and> Block_flags a w2 = Block_flags a w \<and>
    (\<forall>x. 4 \<le> unat (x - (a + 8)) \<longrightarrow> bytes w2 x = bytes w x) \<and>
    mallocs w2 = mallocs w \<and> freed w2 = freed w \<and> ext_calls w2 = ext_calls w"
proof -
  let ?fl = "Block_flags a w"
  let ?w1 = "set_Block_flags a (?fl + 2) w"
  let ?w2 = "set_Block_flags a ?fl ?w1"
  have n: "bcount ?fl \<noteq> 32767" using assms(3) by simp
  note up = incr_count [OF n] and rest = same_rest_flags [OF incr_count(2) [OF n]]
  have copy: "Block_copy (Suc depth) E a w = Returns (a, ?w1)"
    using assms(1) n by (simp add: heap_block_def count_tests)
  have "latching_decr_int_should_deallocate [] (?fl + 2) = (False, ?fl)"
    using up assms(2,3) by (simp add: count_tests decr_result_def last_test)
  then have release: "Block_release (Suc depth) E a ?w1 = Returns ?w2"
    using assms(1) rest by (simp add: heap_block_def del: latching_decr_int_should_deallocate.simps)
  show ?thesis using copy release up(1) by (intro exI [of _ ?w1] exI [of _ ?w2]) (simp del: Block_copy.simps Block_release.simps)
qed

definition example_block :: world where
  "example_block = \<lparr>bytes = (\<lambda>x. if x = 0x2008 then 2 else if x = 0x200b then 1 else 0),
     mallocs = [], freed = [], ext_calls = []\<rparr>"

theorem heap_block_copy_release_witness:
  "\<exists>w1 w2. Block_copy 1 example_env 0x2000 example_block = Returns (0x2000, w1) \<and> bcount (Block_flags 0x2000 w1) = 2 \<and>
     Block_release 1 example_env 0x2000 w1 = Returns w2 \<and> Block_flags 0x2000 w2 = 0x1000002 \<and> freed w2 = []"
proof -
  have fl: "Block_flags 0x2000 example_block = 0x1000002"
    by (simp add: Block_flags_def example_block_def rd32_def upt_rec)
  have n: "bcount (0x1000002 :: u32) = 1" "freed example_block = []" by (simp_all add: bcount_def example_block_def)
  have "heap_block 0x2000 example_block" unfolding heap_block_def fl by (simp add: block_flag_defs bit_0)
  then show ?thesis
    using heap_block_copy_release [of "0x2000" example_block 0 example_env] unfolding fl n One_nat_def
    by (auto simp del: Block_copy.simps Block_release.simps)
qed

section \<open>Copying a block from the stack\<close>

definition outside :: "nat \<Rightarrow> u64 \<Rightarrow> memory \<Rightarrow> memory \<Rightarrow> bool" where
  "outside n r m m' \<longleftrightarrow> (\<forall>x. n \<le> unat (x - r) \<longrightarrow> m' x = m x)"

lemma outside_trans: "outside n r m m' \<Longrightarrow> outside n r m' m'' \<Longrightarrow> outside n r m m''"
  by (simp add: outside_def)

lemma outside_reads:
  assumes "outside n r m m'" "apart n x r" "n \<le> 4294967296"
  shows "p + 8 \<le> n \<Longrightarrow> rd64 m' (x + of_nat p) = rd64 m (x + of_nat p)"
    "p + 4 \<le> n \<Longrightarrow> rd32 m' (x + of_nat p) = rd32 m (x + of_nat p)"
proof -
  have b: "m' (x + of_nat p + of_nat i) = m (x + of_nat p + of_nat i)" if "p + i < n" for i
  proof -
    let ?y = "x + of_nat (p + i)"
    have "n \<le> unat (?y - r)"
    proof (rule ccontr)
      assume "\<not> n \<le> unat (?y - r)"
      then have "?y \<noteq> r + of_nat (unat (?y - r))" using that assms by (intro apart_ne) auto
      then show False by simp
    qed
    then have "m' ?y = m ?y" using assms(1) by (simp add: outside_def)
    then show ?thesis by (simp add: add.assoc)
  qed
  show "p + 8 \<le> n \<Longrightarrow> rd64 m' (x + of_nat p) = rd64 m (x + of_nat p)"
    "p + 4 \<le> n \<Longrightarrow> rd32 m' (x + of_nat p) = rd32 m (x + of_nat p)"
    by (intro rd64_cong rd32_cong b; simp)+
qed

lemma not_at: "n \<le> unat (x - r) \<Longrightarrow> q < n \<Longrightarrow> n \<le> 4294967296 \<Longrightarrow> x \<noteq> r + (of_nat q :: u64)"
  using unat_small [of q] by auto

lemma outside_writes:
  assumes "32 \<le> n" "n \<le> 4294967295"
  shows "outside n r m (memmove r src (of_nat n) m)" "outside n r m (wr32 m (r + 8) u)" "outside n r m (wr64 m r v)"
proof -
  have "wr32 m (r + 8) u x = m x" if "n \<le> unat (x - r)" for x
    using not_at [OF that, of "8 + _"] assms by (intro wr32_other) (simp add: add.assoc)
  moreover have "wr64 m r v x = m x" if "n \<le> unat (x - r)" for x
    using not_at [OF that] assms by (intro wr64_other) simp
  ultimately show "outside n r m (wr32 m (r + 8) u)" "outside n r m (wr64 m r v)" by (simp_all add: outside_def)
  show "outside n r m (memmove r src (of_nat n) m)" 
    using assms by (simp add: outside_def memmove_def word_less_nat_alt unat_small)
qed

definition stack_block :: "nat \<Rightarrow> u64 \<Rightarrow> u64 \<Rightarrow> world \<Rightarrow> bool" where
  "stack_block n arg d w \<longleftrightarrow> arg \<noteq> 0 \<and> 32 \<le> n \<and> n \<le> 4294967295 \<and> rd64 (bytes w) (arg + 24) = d \<and>
     rd64 (bytes w) d = 0 \<and> rd64 (bytes w) (d + 8) = of_nat n \<and>
     (\<forall>i \<in> {22, 24, 25, 28}. \<not> bit (Block_flags arg w) i)"

lemma no_helpers:
  assumes "rd64 m (bl_descriptor bl) = 0" "\<not> bit (bl_flags bl) 22" "\<not> bit (bl_flags bl) 25"
  shows "helper_kind_of m e bl = None" "Block_get_copy_function m bl = 0" "Block_get_dispose_function m bl = 0"
proof -
  have "\<not> has_flag bl BLOCK_SMALL_DESCRIPTOR" "\<not> has_flag bl BLOCK_HAS_COPY_DISPOSE"
    using assms unfolding has_flag_def BLOCK_SMALL_DESCRIPTOR_def BLOCK_HAS_COPY_DISPOSE_def by (simp_all only: and_bit_test) simp_all
  then show "helper_kind_of m e bl = None" "Block_get_copy_function m bl = 0" "Block_get_dispose_function m bl = 0"
    using assms(1) by (simp_all add: helper_kind_of_def hasInDescriptorFlags_def Block_get_descriptor_def
      Block_get_copy_function_def Block_get_dispose_function_def)
qed

lemma copied_flags:
  defines "g f \<equiv> f AND NOT (BLOCK_REFCOUNT_MASK OR BLOCK_DEALLOCATING) OR (BLOCK_NEEDS_FREE OR 2)"
  shows "bcount (g f) = 1" "\<not> bit (g f) 0" "bit (g f) 24" "16 \<le> i \<Longrightarrow> i \<noteq> 24 \<Longrightarrow> bit (g f) i = bit f i"
proof -
  have m: "BLOCK_REFCOUNT_MASK OR BLOCK_DEALLOCATING = mask 16" by (simp add: block_flag_defs mask_numeral)
  have two: "bit (2 :: u32) k \<longleftrightarrow> k = 1" for k using bit_exp_iff [of 1 k, where ?'a = u32] by auto
  have nf: "bit BLOCK_NEEDS_FREE k \<longleftrightarrow> k = 24" for k
    unfolding BLOCK_NEEDS_FREE_def bit_push_bit_iff bit_1_iff by auto
  have b: "bit (g f) k \<longleftrightarrow> k < 32 \<and> 16 \<le> k \<and> bit f k \<or> k = 24 \<or> k = 1" for k
    unfolding g_def m by (auto simp: bit_simps two nf)
  have "g f AND (BLOCK_REFCOUNT_MASK OR BLOCK_DEALLOCATING) = 2"
    unfolding m by (intro bit_word_eqI) (auto simp: bit_simps b two)
  then show "bcount (g f) = 1" "\<not> bit (g f) 0" by (simp_all add: last_test)
  show "bit (g f) 24" "16 \<le> i \<Longrightarrow> i \<noteq> 24 \<Longrightarrow> bit (g f) i = bit f i" 
    using bit_imp_le_length [of f i] by (auto simp: b)
qed

text \<open>The new block before its captures are copied.\<close>

definition bit_copy :: "nat \<Rightarrow> u64 \<Rightarrow> u64 \<Rightarrow> world \<Rightarrow> world" where
  "bit_copy n r arg w =
     (let w1 = w\<lparr>bytes := memmove r arg (of_nat n) (bytes w)\<rparr>;
          w2 = set_Block_flags r (Block_flags r w1 AND NOT (BLOCK_REFCOUNT_MASK OR BLOCK_DEALLOCATING)) w1
      in set_Block_flags r (Block_flags r w2 OR (BLOCK_NEEDS_FREE OR 2)) w2)"

lemma bit_copy_props:
  assumes "32 \<le> n" "n \<le> 4294967295"
  shows "outside n r (bytes w) (bytes (bit_copy n r arg w))"
    "Block_flags r (bit_copy n r arg w) =
       Block_flags arg w AND NOT (BLOCK_REFCOUNT_MASK OR BLOCK_DEALLOCATING) OR (BLOCK_NEEDS_FREE OR 2)"
    "12 \<le> j \<Longrightarrow> j < n \<Longrightarrow> bytes (bit_copy n r arg w) (r + of_nat j) = bytes w (arg + of_nat j)"
    "mallocs (bit_copy n r arg w) = mallocs w" "freed (bit_copy n r arg w) = freed w" "ext_calls (bit_copy n r arg w) = ext_calls w"
proof -
  let ?m = "memmove r arg (of_nat n) (bytes w)"
  have moved: "?m (r + of_nat j) = bytes w (arg + of_nat j)" if "j < n" for j
    using memmove_moved [of j "of_nat n" r arg "bytes w"] that assms by (simp add: unat_small)
  show "outside n r (bytes w) (bytes (bit_copy n r arg w))"
    unfolding bit_copy_def Let_def set_Block_flags_def
    by (simp) (intro outside_trans [OF outside_trans [OF outside_writes(1) outside_writes(2)] outside_writes(2)] assms)
  have "rd32 ?m (r + 8) = rd32 (bytes w) (arg + 8)"
    using moved [of "8 + _"] assms unfolding rd32_def by (intro arg_cong [of _ _ sum_list] map_cong) (auto simp: add.assoc)
  then show "Block_flags r (bit_copy n r arg w) =
       Block_flags arg w AND NOT (BLOCK_REFCOUNT_MASK OR BLOCK_DEALLOCATING) OR (BLOCK_NEEDS_FREE OR 2)"
    unfolding bit_copy_def Let_def by (simp add: Block_flags_def [of _ "w\<lparr>bytes := _\<rparr>"] Block_flags_def [of arg])
  show "bytes (bit_copy n r arg w) (r + of_nat j) = bytes w (arg + of_nat j)" if "12 \<le> j" "j < n"
  proof -
    have "wr32 m (r + 8) u (r + of_nat j) = m (r + of_nat j)" for m u
      using field_ne [of j "8 + _" r] that assms by (intro wr32_other) (simp add: add.assoc)
    then show ?thesis using moved that by (simp add: bit_copy_def Let_def set_Block_flags_def)
  qed
qed (simp_all add: bit_copy_def Let_def)

lemma stack_block_copy:
  assumes "stack_block n arg d w" "apart n arg r" "apart n d r" "mallocs w = r # rest" "r \<noteq> 0"
  shows "Block_copy (Suc depth) E arg w =
    Returns (r, put64 r (NSConcreteMallocBlock E) (bit_copy n r arg (w\<lparr>mallocs := rest\<rparr>)))"
proof -
  let ?w0 = "w\<lparr>mallocs := rest\<rparr>"
  let ?w3 = "bit_copy n r arg ?w0"
  have n: "32 \<le> n" "n \<le> 4294967295" and d: "rd64 (bytes w) (arg + 24) = d" "rd64 (bytes w) d = 0" "rd64 (bytes w) (d + 8) = of_nat n"
    and bits: "\<not> bit (Block_flags arg w) 22" "\<not> bit (Block_flags arg w) 24" "\<not> bit (Block_flags arg w) 25" "\<not> bit (Block_flags arg w) 28"
    using assms(1) by (auto simp: stack_block_def)
  have n': "n \<le> 4294967296" using n(2) by simp
  have out: "outside n r (bytes w) (bytes ?w3)" using bit_copy_props(1) [OF n, of r ?w0 arg] by simp
  note ra = outside_reads [OF out assms(2) n'] and rd = outside_reads [OF out assms(3) n']
  have flags: "Block_flags arg w AND BLOCK_NEEDS_FREE = 0" "Block_flags arg w AND BLOCK_IS_GLOBAL = 0" "Block_flags arg w AND BLOCK_SMALL_DESCRIPTOR = 0"
    using bits unfolding BLOCK_NEEDS_FREE_def BLOCK_IS_GLOBAL_def BLOCK_SMALL_DESCRIPTOR_def by (simp_all only: and_bit_test) simp_all
  have sz: "Block_size (bytes w) (load_block (bytes w) arg) = of_nat n"
    using d flags(3) by (simp add: Block_size_def load_block_def has_flag_def Block_get_descriptor_def Block_flags_def)
  let ?bl = "load_block (bytes ?w3) arg"
  have bl: "bl_descriptor ?bl = d" "bl_flags ?bl = Block_flags arg w" "rd64 (bytes ?w3) d = 0"
    using ra(1) [of 24] ra(2) [of 8] rd(1) [of 0] d n(1) by (simp_all add: load_block_def Block_flags_def)
  note none = no_helpers [of "bytes ?w3" ?bl, unfolded bl, OF refl bits(1,3)]
  have "call_copy_helpers (bytes ?w3) (empty_string E) (load_block (bytes ?w3) r) ?bl
      (perform_capture E (Block_copy depth E) (Block_release depth E) r arg)
      (call_custom_copy_helper E r arg) (free_block r) (layout_fuel E) ?w3 = Returns ?w3"
    by (simp add: call_copy_helpers_def call_copy_helpers_excp_def none call_custom_copy_helper_def)
  then show ?thesis
    using assms(1,4,5) flags sz by (simp add: stack_block_def malloc_def bit_copy_def Let_def)
qed

lemma last_release:
  assumes "heap_block r w" "bcount (Block_flags r w) = 1" "\<not> bit (Block_flags r w) 22" "\<not> bit (Block_flags r w) 25"
    "rd64 (bytes w) (r + 24) = d" "rd64 (bytes w) d = 0" "apart 24 d r"
  shows "Block_release (Suc depth) E r w =
    and_then (ext E (Ext_destructInstance r) (set_Block_flags r (Block_flags r w - 1) w)) (\<lambda>w'. Returns (free_block r w')) id"
proof -
  let ?fl = "Block_flags r w"
  let ?w1 = "set_Block_flags r (?fl - 1) w"
  let ?bl = "load_block (bytes ?w1) r"
  have z: "\<not> bit ?fl 0" using assms(1) by (simp add: heap_block_def)
  note same = same_rest_bit [OF last_count(3) [OF assms(2) z]]
  have ne: "r + 24 + of_nat i \<noteq> r + 8 + of_nat k" if "i < 8" "k < 4" for i k
    using field_ne [of "24 + i" "8 + k" r] that by (simp add: add.assoc)
  have "rd64 (bytes ?w1) (r + 24) = d"
    unfolding set_Block_flags_def using assms(5) by (simp add: rd64_cong [of "wr32 _ _ _"] wr32_other ne)
  moreover have "rd64 (bytes ?w1) d = 0"
    using read_frame(2) [of d 0 r 8 "bytes w" "?fl - 1"] assms(6,7) by (simp add: set_Block_flags_def sep_def)
  moreover have "rd32 (bytes ?w1) (r + 8) = ?fl - 1" by (simp add: set_Block_flags_def)
  ultimately have bl: "bl_descriptor ?bl = d" "bl_flags ?bl = ?fl - 1" "rd64 (bytes ?w1) d = 0" by (simp_all add: load_block_def)
  note none = no_helpers [of "bytes ?w1" ?bl, unfolded bl same [of 22, simplified] same [of 25, simplified], OF refl assms(3,4)]
  have "call_dispose_helpers (bytes ?w1) (empty_string E) ?bl (perform_capture E (\<lambda>a w. Fails) (Block_release depth E) r r)
      (call_custom_dispose_helper E r) (free_block r) (layout_fuel E) ?w1 = Returns ?w1"
    by (simp add: call_dispose_helpers_def call_dispose_helpers_excp_def none call_custom_dispose_helper_def)
  moreover have "latching_decr_int_should_deallocate [] ?fl = (True, ?fl - 1)"
    using assms(2) z by (simp add: count_tests decr_result_def last_test)
  ultimately show ?thesis
    using assms(1) by (simp add: heap_block_def del: latching_decr_int_should_deallocate.simps)
qed

text \<open>
  C23: Copying a block on the stack whose captures need no help gives a block on the heap
  with one reference, of the class of heap blocks, whose other bytes are those of the
  block on the stack. No memory outside the new block changes. Releasing the new block
  tears down its associations and then frees it.
\<close>

theorem stack_block_lifetime:
  assumes "stack_block n arg d w" "apart n arg r" "apart n d r" "mallocs w = r # rest" "r \<noteq> 0"
  shows "\<exists>w1. Block_copy (Suc depth) E arg w = Returns (r, w1) \<and> heap_block r w1 \<and> bcount (Block_flags r w1) = 1 \<and>
    rd64 (bytes w1) r = NSConcreteMallocBlock E \<and>
    (\<forall>j. 12 \<le> j \<and> j < n \<longrightarrow> bytes w1 (r + of_nat j) = bytes w (arg + of_nat j)) \<and>
    (\<forall>x. n \<le> unat (x - r) \<longrightarrow> bytes w1 x = bytes w x) \<and>
    mallocs w1 = rest \<and> freed w1 = freed w \<and> ext_calls w1 = ext_calls w \<and>
    Block_release (Suc depth) E r w1 =
      and_then (ext E (Ext_destructInstance r) (set_Block_flags r (Block_flags r w1 - 1) w1)) (\<lambda>w'. Returns (free_block r w')) id"
proof -
  let ?w0 = "w\<lparr>mallocs := rest\<rparr>"
  let ?w3 = "bit_copy n r arg ?w0"
  let ?w1 = "put64 r (NSConcreteMallocBlock E) ?w3"
  have n: "32 \<le> n" "n \<le> 4294967295" "n \<le> 4294967296" and d: "rd64 (bytes w) (arg + 24) = d" "rd64 (bytes w) d = 0"
    and bits: "\<not> bit (Block_flags arg w) 22" "\<not> bit (Block_flags arg w) 25" "\<not> bit (Block_flags arg w) 28"
    using assms(1) by (auto simp: stack_block_def)
  note p = bit_copy_props [OF n(1,2), where r = r and w = ?w0 and arg = arg]
  have fl: "Block_flags r ?w1 = Block_flags arg w AND NOT (BLOCK_REFCOUNT_MASK OR BLOCK_DEALLOCATING) OR (BLOCK_NEEDS_FREE OR 2)"
    using p(2) read_frame_0(2) [of r 8 r "bytes ?w3"] by (simp add: Block_flags_def put64_def sep_def)
  note cf = copied_flags [where f = "Block_flags arg w", folded fl]
  have out: "outside n r (bytes w) (bytes ?w1)"
    using outside_trans [OF p(1) outside_writes(3) [OF n(1,2)]] by (simp add: put64_def)
  have content: "bytes ?w1 (r + of_nat j) = bytes w (arg + of_nat j)" if "12 \<le> j" "j < n" for j
  proof -
    have "wr64 m r v (r + of_nat j) = m (r + of_nat j)" for m v
      using field_ne [of j _ r] that n by (intro wr64_other) simp
    then show ?thesis using p(3) [of j] that by (simp add: put64_def)
  qed
  have desc: "rd64 (bytes ?w1) (r + 24) = d" "rd64 (bytes ?w1) d = 0"
  proof -
    have "bytes ?w1 (r + 24 + of_nat i) = bytes w (arg + 24 + of_nat i)" if "i < 8" for i
      using content [of "24 + i"] that n(1) by (simp add: add.assoc)
    then have "rd64 (bytes ?w1) (r + 24) = rd64 (bytes w) (arg + 24)"
      unfolding rd64_def by (intro arg_cong [of _ _ sum_list] map_cong) auto
    then show "rd64 (bytes ?w1) (r + 24) = d" using d(1) by simp
    show "rd64 (bytes ?w1) d = 0" using outside_reads(1) [OF out assms(3) n(3), of 0] n(1) d(2) by simp
  qed
  have heap: "heap_block r ?w1"
    using cf(2,3) cf(4) [of 28] bits(3) assms(5) unfolding heap_block_def BLOCK_NEEDS_FREE_def BLOCK_IS_GLOBAL_def
    by (simp_all only: and_bit_test) simp
  have ap: "apart 24 d r" using assms(3) n(1) by (auto simp: apart_def)
  have "rd64 (bytes ?w1) r = NSConcreteMallocBlock E" by (simp add: put64_def)
  then show ?thesis
    using stack_block_copy [OF assms, of depth E] heap cf(1) content out p(4-6)
      last_release [OF heap cf(1) _ _ desc ap, of depth E] cf(4) [of 22] cf(4) [of 25] bits
    by (intro exI [of _ ?w1]) (simp add: outside_def put64_def del: Block_copy.simps Block_release.simps)
qed

definition example_stack :: world where
  "example_stack = \<lparr>bytes = (\<lambda>x. if x = 0x1019 then 0x30 else if x = 0x3008 then 40 else if x = 0x1020 then 7 else 0),
     mallocs = [0x8000], freed = [], ext_calls = []\<rparr>"

lemma example_stack_block:
  "stack_block 40 0x1000 0x3000 example_stack" "mallocs example_stack = [0x8000]"
  "freed example_stack = []" "ext_calls example_stack = []" "bytes example_stack 0x1020 = 7"
  by (simp_all add: stack_block_def Block_flags_def example_stack_def rd64_def rd32_def upt_rec)

theorem stack_block_lifetime_witness:
  "\<exists>w1 w2. Block_copy 1 example_env 0x1000 example_stack = Returns (0x8000, w1) \<and> bytes w1 0x8020 = 7 \<and>
     rd64 (bytes w1) 0x8000 = 0x200 \<and> Block_release 1 example_env 0x8000 w1 = Returns w2 \<and>
     freed w2 = [0x8000] \<and> ext_calls w2 = [Ext_destructInstance 0x8000]"
proof -
  have ap: "apart 40 0x1000 0x8000" "apart 40 0x3000 0x8000" by (simp_all add: apart_def)
  obtain w1 where w1: "Block_copy (Suc 0) example_env 0x1000 example_stack = Returns (0x8000, w1)"
    "rd64 (bytes w1) 0x8000 = NSConcreteMallocBlock example_env" "freed w1 = []" "ext_calls w1 = []"
    and c: "\<forall>j. 12 \<le> j \<and> j < 40 \<longrightarrow> bytes w1 (0x8000 + of_nat j) = bytes example_stack (0x1000 + of_nat j)"
    and rel: "Block_release (Suc 0) example_env 0x8000 w1 =
      and_then (ext example_env (Ext_destructInstance 0x8000) (set_Block_flags 0x8000 (Block_flags 0x8000 w1 - 1) w1))
        (\<lambda>w'. Returns (free_block 0x8000 w')) id"
    using stack_block_lifetime [OF example_stack_block(1) ap example_stack_block(2), of 0 example_env]
    by (auto simp: example_stack_block(3,4) simp del: Block_copy.simps Block_release.simps)
  have "bytes w1 0x8020 = 7" using c [rule_format, of 32] example_stack_block(5) by simp
  moreover have "\<exists>w2. Block_release (Suc 0) example_env 0x8000 w1 = Returns w2 \<and>
      freed w2 = [0x8000] \<and> ext_calls w2 = [Ext_destructInstance 0x8000]"
    unfolding rel using w1(3,4) by (simp add: example_env_def free_block_def)
  moreover have "NSConcreteMallocBlock example_env = 0x200" by (simp add: example_env_def)
  ultimately show ?thesis unfolding One_nat_def using w1(1,2) by metis
qed

end
