(* ===== verification/WeakTable.thy ===== *)
theory WeakTable
  imports Objects Utilities
begin

text \<open>
  The table of weak references behind a side table (\<^verbatim>\<open>objc-weak.h\<close>, \<^verbatim>\<open>objc-weak.mm\<close>): an open
  addressing hash table of entries, one for each referent, in which each entry holds the
  addresses of the weak variables that refer to it, inline up to four and in a hash table of
  its own beyond. Both tables use linear probing. Nothing marks a removed slot; searches go
  on for as many steps as any insertion ever needed.

  Pointers are kept undisguised. Sizes are natural numbers, since the memory that a table
  takes bounds them. The answers that \<open>calloc\<close> will give are a list in the state; \<open>None\<close> is the
  result when the runtime aborts, an assertion fails, an array is accessed outside its bounds,
  or \<open>calloc\<close> has no memory, which the code does not check for.
\<close>

section \<open>Allocation\<close>

record weak_heap =
  callocs :: "u64 list"
  frees :: "u64 list"
  weak_errors :: "u64 list"

definition calloc :: "weak_heap \<Rightarrow> (u64 \<times> weak_heap) option" where
  "calloc h = (case callocs h of
     [] \<Rightarrow> None
   | p # ps \<Rightarrow> if p = 0 then None else Some (p, h\<lparr>callocs := ps\<rparr>))"

definition free_array :: "u64 \<Rightarrow> weak_heap \<Rightarrow> weak_heap" where
  "free_array p h = h\<lparr>frees := frees h @ [p]\<rparr>"

definition objc_weak_error :: "u64 \<Rightarrow> weak_heap \<Rightarrow> weak_heap" where
  "objc_weak_error referrer h = h\<lparr>weak_errors := weak_errors h @ [referrer]\<rparr>"

section \<open>Probing\<close>

abbreviation (input) WEAK_INLINE_COUNT :: nat where "WEAK_INLINE_COUNT \<equiv> 4"

definition TABLE_SIZE :: "nat \<Rightarrow> nat" where
  "TABLE_SIZE msk = (if msk \<noteq> 0 then msk + 1 else 0)"

definition hash_pointer :: "u64 \<Rightarrow> u64" where
  "hash_pointer key = ucast (ptr_hash key)"

definition w_hash_pointer :: "u64 \<Rightarrow> u64" where
  "w_hash_pointer key = ucast (ptr_hash key)"

definition masked :: "u64 \<Rightarrow> nat \<Rightarrow> nat" where
  "masked h msk = unat (h AND of_nat msk)"

text \<open>The loops over the slots, which hold \<open>keys\<close>; a free slot holds nil.\<close>

fun probe_free :: "nat \<Rightarrow> u64 list \<Rightarrow> nat \<Rightarrow> nat \<Rightarrow> nat \<Rightarrow> nat \<Rightarrow> (nat \<times> nat) option" where
  "probe_free 0 keys msk begin hash_displacement index = None"
| "probe_free (Suc n) keys msk begin hash_displacement index =
     (if length keys \<le> index then None
      else if keys ! index = 0 then Some (index, hash_displacement)
      else let index' = masked (of_nat (index + 1)) msk in
        if index' = begin then None
        else probe_free n keys msk begin (hash_displacement + 1) index')"

fun probe_key :: "nat \<Rightarrow> u64 list \<Rightarrow> nat \<Rightarrow> u64 \<Rightarrow> nat \<Rightarrow> nat \<Rightarrow> nat \<Rightarrow> nat \<Rightarrow> nat option option" where
  "probe_key 0 keys msk key max_hash_displacement begin hash_displacement index = None"
| "probe_key (Suc n) keys msk key max_hash_displacement begin hash_displacement index =
     (if length keys \<le> index then None
      else if keys ! index = key then Some (Some index)
      else let index' = masked (of_nat (index + 1)) msk in
        if index' = begin then None
        else if hash_displacement + 1 > max_hash_displacement then Some None
        else probe_key n keys msk key max_hash_displacement begin (hash_displacement + 1) index')"

section \<open>The referrers of an entry\<close>

record referrer_table =
  referrers :: u64
  slots :: "u64 list"
  num_refs :: nat
  rmask :: nat
  rmax_hash_displacement :: nat

datatype weak_refs = Inline "u64 list" | Out_of_line referrer_table

record weak_entry_t =
  referent :: u64
  refs :: weak_refs

definition out_of_line :: "weak_entry_t \<Rightarrow> bool" where
  "out_of_line e = (case refs e of Inline xs \<Rightarrow> False | Out_of_line t \<Rightarrow> True)"

definition new_weak_entry :: "u64 \<Rightarrow> u64 \<Rightarrow> weak_entry_t" where
  "new_weak_entry newReferent newReferrer =
     \<lparr>referent = newReferent, refs = Inline (newReferrer # replicate (WEAK_INLINE_COUNT - 1) 0)\<rparr>"

text \<open>
  The array of inline referrers overlays the fields of the table: the pointer, the count with
  the mark of the state in its two low bits, the mask and the displacement.
\<close>

definition inline_referrers :: "weak_refs \<Rightarrow> u64 list" where
  "inline_referrers r = (case r of
     Inline xs \<Rightarrow> xs
   | Out_of_line t \<Rightarrow> map undisguise
       [referrers t, push_bit 2 (of_nat (num_refs t)) OR 2, of_nat (rmask t), of_nat (rmax_hash_displacement t)])"

definition place_referrer :: "u64 \<Rightarrow> referrer_table \<Rightarrow> referrer_table option" where
  "place_referrer new_referrer t = do {
     let begin = masked (w_hash_pointer new_referrer) (rmask t);
     (index, hash_displacement) \<leftarrow> probe_free (rmask t + 1) (slots t) (rmask t) begin 0 begin;
     Some (t\<lparr>slots := (slots t)[index := new_referrer], num_refs := num_refs t + 1,
             rmax_hash_displacement := max (rmax_hash_displacement t) hash_displacement\<rparr>)
   }"

fun grow_loop ::
  "(u64 \<Rightarrow> referrer_table \<Rightarrow> weak_heap \<Rightarrow> (referrer_table \<times> weak_heap) option) \<Rightarrow> u64 list \<Rightarrow> nat \<Rightarrow>
   referrer_table \<Rightarrow> weak_heap \<Rightarrow> (referrer_table \<times> weak_heap) option" where
  "grow_loop app [] n t h = Some (t, h)"
| "grow_loop app (r # rs) n t h =
     (if n = 0 then Some (t, h)
      else if r \<noteq> 0 then do { (t', h') \<leftarrow> app r t h; grow_loop app rs (n - 1) t' h' }
      else grow_loop app rs n t h)"

definition grow_refs_and_insert ::
  "(u64 \<Rightarrow> referrer_table \<Rightarrow> weak_heap \<Rightarrow> (referrer_table \<times> weak_heap) option) \<Rightarrow> u64 \<Rightarrow>
   referrer_table \<Rightarrow> weak_heap \<Rightarrow> (referrer_table \<times> weak_heap) option" where
  "grow_refs_and_insert app new_referrer t h = do {
     let old_size = TABLE_SIZE (rmask t);
     let new_size = (if old_size \<noteq> 0 then old_size * 2 else 8);
     (p, h1) \<leftarrow> calloc h;
     let t1 = \<lparr>referrers = p, slots = replicate new_size 0, num_refs = 0, rmask = new_size - 1,
               rmax_hash_displacement = 0\<rparr>;
     (t2, h2) \<leftarrow> grow_loop app (take old_size (slots t)) (num_refs t) t1 h1;
     (t3, h3) \<leftarrow> app new_referrer t2 h2;
     Some (t3, if referrers t \<noteq> 0 then free_array (referrers t) h3 else h3)
   }"

text \<open>Appending calls growing, which calls appending; the first argument bounds the depth.\<close>

fun append_out_of_line :: "nat \<Rightarrow> u64 \<Rightarrow> referrer_table \<Rightarrow> weak_heap \<Rightarrow> (referrer_table \<times> weak_heap) option" where
  "append_out_of_line 0 new_referrer t h = None"
| "append_out_of_line (Suc depth) new_referrer t h =
     (if num_refs t \<ge> TABLE_SIZE (rmask t) * 3 div 4
      then grow_refs_and_insert (append_out_of_line depth) new_referrer t h
      else map_option (\<lambda>t'. (t', h)) (place_referrer new_referrer t))"

fun first_index :: "u64 \<Rightarrow> u64 list \<Rightarrow> nat option" where
  "first_index x [] = None"
| "first_index x (y # ys) = (if y = x then Some 0 else map_option Suc (first_index x ys))"

definition append_referrer :: "weak_refs \<Rightarrow> u64 \<Rightarrow> weak_heap \<Rightarrow> (weak_refs \<times> weak_heap) option" where
  "append_referrer r new_referrer h =
     (case r of
        Inline xs \<Rightarrow>
          (case first_index 0 xs of
             Some i \<Rightarrow> Some (Inline (xs[i := new_referrer]), h)
           | None \<Rightarrow> do {
               (p, h1) \<leftarrow> calloc h;
               (t, h2) \<leftarrow> append_out_of_line 2 new_referrer
                 \<lparr>referrers = p, slots = xs, num_refs = WEAK_INLINE_COUNT, rmask = WEAK_INLINE_COUNT - 1,
                  rmax_hash_displacement = 0\<rparr> h1;
               Some (Out_of_line t, h2) })
      | Out_of_line t \<Rightarrow> do { (t', h') \<leftarrow> append_out_of_line 2 new_referrer t h; Some (Out_of_line t', h') })"

definition remove_referrer :: "weak_refs \<Rightarrow> u64 \<Rightarrow> weak_heap \<Rightarrow> (weak_refs \<times> weak_heap) option" where
  "remove_referrer r old_referrer h =
     (case r of
        Inline xs \<Rightarrow>
          (case first_index old_referrer xs of
             Some i \<Rightarrow> Some (Inline (xs[i := 0]), h)
           | None \<Rightarrow> Some (r, objc_weak_error old_referrer h))
      | Out_of_line t \<Rightarrow> do {
          let begin = masked (w_hash_pointer old_referrer) (rmask t);
          found \<leftarrow> probe_key (rmask t + 1) (slots t) (rmask t) old_referrer (rmax_hash_displacement t) begin 0 begin;
          case found of
            None \<Rightarrow> Some (r, objc_weak_error old_referrer h)
          | Some index \<Rightarrow>
              Some (Out_of_line (t\<lparr>slots := (slots t)[index := 0], num_refs := num_refs t - 1\<rparr>), h) })"

section \<open>The table of entries\<close>

record weak_table_t =
  weak_entries :: u64
  entries :: "weak_entry_t list"
  num_entries :: nat
  wmask :: nat
  wmax_hash_displacement :: nat
  weak_mem :: weak_heap

definition no_entry :: weak_entry_t where
  "no_entry = \<lparr>referent = 0, refs = Inline (replicate WEAK_INLINE_COUNT 0)\<rparr>"

definition weak_entry_insert :: "weak_entry_t \<Rightarrow> weak_table_t \<Rightarrow> weak_table_t option" where
  "weak_entry_insert new_entry wt = do {
     assert_opt (weak_entries wt \<noteq> 0);
     let begin = masked (hash_pointer (referent new_entry)) (wmask wt);
     (index, hash_displacement) \<leftarrow> probe_free (wmask wt + 1) (map referent (entries wt)) (wmask wt) begin 0 begin;
     Some (wt\<lparr>entries := (entries wt)[index := new_entry], num_entries := num_entries wt + 1,
              wmax_hash_displacement := max (wmax_hash_displacement wt) hash_displacement\<rparr>)
   }"

fun reinsert :: "weak_entry_t list \<Rightarrow> weak_table_t \<Rightarrow> weak_table_t option" where
  "reinsert [] wt = Some wt"
| "reinsert (e # es) wt =
     (if referent e \<noteq> 0 then do { wt' \<leftarrow> weak_entry_insert e wt; reinsert es wt' } else reinsert es wt)"

definition weak_resize :: "nat \<Rightarrow> weak_table_t \<Rightarrow> weak_table_t option" where
  "weak_resize new_size wt = do {
     let old_size = TABLE_SIZE (wmask wt);
     (p, h) \<leftarrow> calloc (weak_mem wt);
     let wt1 = \<lparr>weak_entries = p, entries = replicate new_size no_entry, num_entries = 0, wmask = new_size - 1,
                wmax_hash_displacement = 0, weak_mem = h\<rparr>;
     if weak_entries wt \<noteq> 0 then do {
       wt2 \<leftarrow> reinsert (take old_size (entries wt)) wt1;
       Some (wt2\<lparr>weak_mem := free_array (weak_entries wt) (weak_mem wt2)\<rparr>) }
     else Some wt1
   }"

definition weak_grow_maybe :: "weak_table_t \<Rightarrow> weak_table_t option" where
  "weak_grow_maybe wt =
     (let old_size = TABLE_SIZE (wmask wt) in
      if num_entries wt \<ge> old_size * 3 div 4
      then weak_resize (if old_size \<noteq> 0 then old_size * 2 else 64) wt
      else Some wt)"

definition weak_compact_maybe :: "weak_table_t \<Rightarrow> weak_table_t option" where
  "weak_compact_maybe wt =
     (let old_size = TABLE_SIZE (wmask wt) in
      if old_size \<ge> 1024 \<and> old_size div 16 \<ge> num_entries wt then weak_resize (old_size div 8) wt else Some wt)"

definition weak_entry_remove :: "nat \<Rightarrow> weak_table_t \<Rightarrow> weak_table_t option" where
  "weak_entry_remove i wt =
     weak_compact_maybe (wt\<lparr>entries := (entries wt)[i := no_entry], num_entries := num_entries wt - 1,
       weak_mem := (case refs (entries wt ! i) of
          Inline xs \<Rightarrow> weak_mem wt | Out_of_line t \<Rightarrow> free_array (referrers t) (weak_mem wt))\<rparr>)"

definition weak_entry_for_referent :: "u64 \<Rightarrow> weak_table_t \<Rightarrow> nat option option" where
  "weak_entry_for_referent r wt = do {
     assert_opt (r \<noteq> 0);
     if weak_entries wt = 0 then Some None
     else let begin = masked (hash_pointer r) (wmask wt) in
       probe_key (wmask wt + 1) (map referent (entries wt)) (wmask wt) r (wmax_hash_displacement wt) begin 0 begin
   }"

section \<open>Registering, unregistering and clearing\<close>

definition looks_empty :: "weak_refs \<Rightarrow> bool" where
  "looks_empty r =
     (if (case r of Out_of_line t \<Rightarrow> num_refs t \<noteq> 0 | Inline xs \<Rightarrow> False) then False
      else list_all (\<lambda>p. p = 0) (inline_referrers r))"

definition weak_unregister_no_lock :: "u64 \<Rightarrow> u64 \<Rightarrow> weak_table_t \<Rightarrow> weak_table_t option" where
  "weak_unregister_no_lock r referrer wt =
     (if r = 0 then Some wt
      else do {
        entry \<leftarrow> weak_entry_for_referent r wt;
        case entry of
          None \<Rightarrow> Some wt
        | Some i \<Rightarrow> do {
            (rs, h) \<leftarrow> remove_referrer (refs (entries wt ! i)) referrer (weak_mem wt);
            let wt1 = wt\<lparr>entries := (entries wt)[i := (entries wt ! i)\<lparr>refs := rs\<rparr>], weak_mem := h\<rparr>;
            if looks_empty rs then weak_entry_remove i wt1 else Some wt1 } })"

datatype WeakRegisterDeallocatingOptions = ReturnNilIfDeallocating | CrashIfDeallocating | DontCheckDeallocating

text \<open>
  What the runtime finds out about the referent: whether it is nil or a tagged pointer, whether its
  class has its own reference counting, whether the runtime is deallocating it, and what
  \<open>allowsWeakReference\<close> answers, if the class implements it.
\<close>

record referent_info =
  taggedOrNil :: bool
  customRR :: bool
  deallocating_root :: bool
  allowsWeakReference :: "bool option"

definition remember_referrer :: "u64 \<Rightarrow> u64 \<Rightarrow> weak_table_t \<Rightarrow> weak_table_t option" where
  "remember_referrer r referrer wt = do {
     entry \<leftarrow> weak_entry_for_referent r wt;
     case entry of
       Some i \<Rightarrow> do {
         (rs, h) \<leftarrow> append_referrer (refs (entries wt ! i)) referrer (weak_mem wt);
         Some (wt\<lparr>entries := (entries wt)[i := (entries wt ! i)\<lparr>refs := rs\<rparr>], weak_mem := h\<rparr>) }
     | None \<Rightarrow> do {
         wt1 \<leftarrow> weak_grow_maybe wt;
         weak_entry_insert (new_weak_entry r referrer) wt1 }
   }"

definition weak_register_no_lock ::
  "referent_info \<Rightarrow> u64 \<Rightarrow> u64 \<Rightarrow> WeakRegisterDeallocatingOptions \<Rightarrow> weak_table_t \<Rightarrow> (u64 \<times> weak_table_t) option" where
  "weak_register_no_lock ri r referrer deallocatingOptions wt =
     (if taggedOrNil ri then Some (r, wt)
      else if deallocatingOptions \<noteq> DontCheckDeallocating \<and> customRR ri \<and> allowsWeakReference ri = None then Some (0, wt)
      else if deallocatingOptions \<noteq> DontCheckDeallocating \<and>
        (if customRR ri then \<not> the (allowsWeakReference ri) else deallocating_root ri)
      then if deallocatingOptions = CrashIfDeallocating then None else Some (0, wt)
      else map_option (\<lambda>wt'. (r, wt')) (remember_referrer r referrer wt))"

definition weak_is_registered_no_lock :: "u64 \<Rightarrow> weak_table_t \<Rightarrow> bool option" where
  "weak_is_registered_no_lock r wt = map_option (\<lambda>entry. entry \<noteq> None) (weak_entry_for_referent r wt)"

fun zero_referrers :: "u64 \<Rightarrow> u64 list \<Rightarrow> (u64 \<Rightarrow> u64) \<Rightarrow> weak_heap \<Rightarrow> (u64 \<Rightarrow> u64) \<times> weak_heap" where
  "zero_referrers r [] vars h = (vars, h)"
| "zero_referrers r (referrer # rs) vars h =
     (if referrer = 0 then zero_referrers r rs vars h
      else if vars referrer = r then zero_referrers r rs (vars(referrer := 0)) h
      else if vars referrer \<noteq> 0 then zero_referrers r rs vars (objc_weak_error referrer h)
      else zero_referrers r rs vars h)"

definition weak_clear_table :: "u64 \<Rightarrow> (u64 \<Rightarrow> u64) \<Rightarrow> weak_table_t \<Rightarrow> ((u64 \<Rightarrow> u64) \<times> weak_table_t) option" where
  "weak_clear_table r vars wt = do {
     entry \<leftarrow> weak_entry_for_referent r wt;
     case entry of
       None \<Rightarrow> Some (vars, wt)
     | Some i \<Rightarrow> do {
         let rs = (case refs (entries wt ! i) of
            Out_of_line t \<Rightarrow> take (TABLE_SIZE (rmask t)) (slots t) | Inline xs \<Rightarrow> xs);
         let (vars', h) = zero_referrers r rs vars (weak_mem wt);
         wt' \<leftarrow> weak_entry_remove i (wt\<lparr>weak_mem := h\<rparr>);
         Some (vars', wt') }
   }"

section \<open>Linear probing\<close>

lemma masked_mod: "k < 64 \<Longrightarrow> masked h (2 ^ k - 1) = unat h mod 2 ^ k"
proof -
  assume k: "k < 64"
  have "(of_nat (2 ^ k - 1) :: u64) = mask k" by (simp add: mask_eq_exp_minus_1 of_nat_diff)
  moreover have "h AND mask k = take_bit k h" by (rule take_bit_eq_mask [symmetric])
  ultimately have "masked h (2 ^ k - 1) = unat (take_bit k h)" by (simp only: masked_def)
  also have "\<dots> = unat h mod 2 ^ k" by (simp add: unat_take_bit flip: take_bit_eq_mod)
  finally show ?thesis .
qed

lemma masked_next: "k < 64 \<Longrightarrow> i < 2 ^ k \<Longrightarrow> masked (of_nat (i + 1)) (2 ^ k - 1) = (i + 1) mod 2 ^ k"
proof -
  assume k: "k < 64" and i: "i < 2 ^ k"
  have "(2::nat) ^ k \<le> 2 ^ 63" using k by (intro power_increasing) auto
  then have "i + 1 < 2 ^ 64" using i by simp
  then have "unat (of_nat (i + 1) :: u64) = i + 1" by (intro of_nat_inverse) simp_all
  then show ?thesis using masked_mod [OF k, of "of_nat (i + 1)"] by simp
qed

lemma offset_inj: "(b + i) mod n = (b + j) mod n \<Longrightarrow> i < n \<Longrightarrow> j < n \<Longrightarrow> i = j" for b :: nat
proof (induction i j rule: linorder_wlog)
  case (le i j)
  then have "n dvd b + j - (b + i)" using mod_eq_dvd_iff_nat [of "b + i" "b + j" n] by simp
  then have "n dvd j - i" by simp
  then show ?case using le by (metis diff_is_0_eq dvd_imp_le less_imp_diff_less neq0_conv not_less le_antisym)
next
  case (sym i j)
  then show ?case by metis
qed

lemma offset_ne: "b < n \<Longrightarrow> 0 < x \<Longrightarrow> x < n \<Longrightarrow> (b + x) mod n \<noteq> b" for b :: nat
  using offset_inj [of b x n 0] by auto

lemma step_mod: "((b + d) mod n + 1) mod n = (b + (d + 1)) mod n" for b :: nat
  by (simp add: mod_simps)

lemma probe_free_finds:
  assumes "k < 64" "length keys = 2 ^ k" "b < 2 ^ k" "m < 2 ^ k" "keys ! ((b + m) mod 2 ^ k) = 0"
    "\<forall>j<m. keys ! ((b + j) mod 2 ^ k) \<noteq> 0" "d \<le> m" "m - d < n"
  shows "probe_free n keys (2 ^ k - 1) b d ((b + d) mod 2 ^ k) = Some ((b + m) mod 2 ^ k, m)"
  using assms(7,8)
proof (induction n arbitrary: d)
  case (Suc n)
  show ?case
  proof (cases "d = m")
    case True
    then show ?thesis using assms(2,5) by (simp add: not_le)
  next
    case False
    then have d: "d < m" "keys ! ((b + d) mod 2 ^ k) \<noteq> 0" using Suc.prems assms(6) by auto
    have nx: "masked (of_nat ((b + d) mod 2 ^ k + 1)) (2 ^ k - 1) = (b + (d + 1)) mod 2 ^ k"
      using masked_next [OF assms(1), of "(b + d) mod 2 ^ k"] by (simp only: step_mod mod_less_divisor zero_less_power zero_less_numeral)
    have "(b + (d + 1)) mod 2 ^ k \<noteq> b" using offset_ne [OF assms(3), of "d + 1"] d assms(4) by linarith
    moreover have "\<not> length keys \<le> (b + d) mod 2 ^ k" by (simp add: assms(2) not_le)
    ultimately show ?thesis using Suc.IH [of "d + 1"] Suc.prems d by (simp only: probe_free.simps Let_def nx if_False)
  qed
qed simp

lemma probe_key_finds:
  assumes "k < 64" "length keys = 2 ^ k" "b < 2 ^ k" "maxd + 1 < 2 ^ k" "d \<le> maxd" "maxd - d < n"
    "\<forall>j<d. keys ! ((b + j) mod 2 ^ k) \<noteq> key"
  shows "\<exists>found. probe_key n keys (2 ^ k - 1) key maxd b d ((b + d) mod 2 ^ k) = Some found \<and>
    (case found of None \<Rightarrow> \<forall>j\<le>maxd. keys ! ((b + j) mod 2 ^ k) \<noteq> key | Some i \<Rightarrow> i < 2 ^ k \<and> keys ! i = key)"
  using assms(5-)
proof (induction n arbitrary: d)
  case (Suc n)
  have len: "\<not> length keys \<le> (b + d) mod 2 ^ k" by (simp add: assms(2) not_le)
  show ?case
  proof (cases "keys ! ((b + d) mod 2 ^ k) = key")
    case False
    have nx: "masked (of_nat ((b + d) mod 2 ^ k + 1)) (2 ^ k - 1) = (b + (d + 1)) mod 2 ^ k"
      using masked_next [OF assms(1), of "(b + d) mod 2 ^ k"] by (simp only: step_mod mod_less_divisor zero_less_power zero_less_numeral)
    have ne: "(b + (d + 1)) mod 2 ^ k \<noteq> b" using offset_ne [OF assms(3), of "d + 1"] Suc.prems assms(4) by linarith
    have less: "\<forall>j<d + 1. keys ! ((b + j) mod 2 ^ k) \<noteq> key" using Suc.prems False less_Suc_eq by auto
    show ?thesis
    proof (cases "d + 1 > maxd")
      case True
      then have "\<forall>j\<le>maxd. keys ! ((b + j) mod 2 ^ k) \<noteq> key" using less by simp
      moreover have "probe_key (Suc n) keys (2 ^ k - 1) key maxd b d ((b + d) mod 2 ^ k) = Some None"
        using len ne False True by (simp only: probe_key.simps Let_def nx if_False if_True)
      ultimately show ?thesis by (intro exI [of _ None]) simp
    next
      case d: False
      then have "probe_key (Suc n) keys (2 ^ k - 1) key maxd b d ((b + d) mod 2 ^ k) =
          probe_key n keys (2 ^ k - 1) key maxd b (d + 1) ((b + (d + 1)) mod 2 ^ k)"
        using len ne False by (simp only: probe_key.simps Let_def nx if_False)
      then show ?thesis using Suc.IH [of "d + 1"] Suc.prems d less by simp
    qed
  qed (use assms(2) len in auto)
qed simp

section \<open>Keys in place\<close>

definition live :: "u64 list \<Rightarrow> u64 list" where
  "live keys = filter (\<lambda>x. x \<noteq> 0) keys"

definition home :: "nat \<Rightarrow> u64 \<Rightarrow> nat" where
  "home k key = unat (hash_pointer key) mod 2 ^ k"

definition placed :: "nat \<Rightarrow> nat \<Rightarrow> u64 list \<Rightarrow> bool" where
  "placed k maxd keys \<longleftrightarrow> k < 62 \<and> length keys = 2 ^ k \<and> maxd + 1 < 2 ^ k \<and>
     (\<forall>i<2 ^ k. keys ! i \<noteq> 0 \<longrightarrow> (\<exists>m\<le>maxd. i = (home k (keys ! i) + m) mod 2 ^ k))"

lemma home_less [simp]: "home k key < 2 ^ k"
  by (simp add: home_def)

lemma masked_home: "k < 64 \<Longrightarrow> masked (hash_pointer key) (2 ^ k - 1) = home k key"
  by (simp only: masked_mod home_def)

lemma w_hash_pointer_eq: "w_hash_pointer = hash_pointer"
  by (simp add: fun_eq_iff w_hash_pointer_def hash_pointer_def)

lemma placed_empty: "2 \<le> k \<Longrightarrow> k < 62 \<Longrightarrow> placed k 0 (replicate (2 ^ k) 0)"
  using power_increasing [of 2 k "2::nat"] by (auto simp: placed_def)

lemma placed_delete: "placed k maxd keys \<Longrightarrow> placed k maxd (keys[i := 0])"
  by (cases "i < length keys") (auto simp: placed_def nth_list_update)

lemma search_placed:
  assumes "placed k maxd keys" "key \<noteq> 0"
  shows "\<exists>found. probe_key (2 ^ k - 1 + 1) keys (2 ^ k - 1) key maxd (home k key) 0 (home k key) = Some found \<and>
    (case found of None \<Rightarrow> key \<notin> set keys | Some i \<Rightarrow> i < length keys \<and> keys ! i = key)"
proof -
  have len: "k < 64" "length keys = 2 ^ k" "maxd + 1 < 2 ^ k" using assms(1) by (auto simp: placed_def)
  obtain found where f: "probe_key (2 ^ k - 1 + 1) keys (2 ^ k - 1) key maxd (home k key) 0 (home k key) = Some found"
    and s: "case found of None \<Rightarrow> \<forall>j\<le>maxd. keys ! ((home k key + j) mod 2 ^ k) \<noteq> key | Some i \<Rightarrow> i < 2 ^ k \<and> keys ! i = key"
    using probe_key_finds [OF len(1,2) home_less len(3), of 0 "2 ^ k - 1 + 1" key key] len(3) by auto
  have "key \<notin> set keys" if "found = None"
  proof
    assume "key \<in> set keys"
    then obtain i where i: "i < 2 ^ k" "keys ! i = key" by (metis in_set_conv_nth len(2))
    then obtain m where "m \<le> maxd" "i = (home k key + m) mod 2 ^ k" using assms unfolding placed_def by blast
    then show False using s i that by auto
  qed
  then show ?thesis using f s len(2) by (cases found) auto
qed

lemma first_free:
  assumes "length keys = n" "0 \<in> set keys" "b < n"
  shows "\<exists>m<n. keys ! ((b + m) mod n) = 0 \<and> (\<forall>j<m. keys ! ((b + j) mod n) \<noteq> 0)"
proof -
  obtain i where i: "i < n" "keys ! i = 0" by (metis in_set_conv_nth assms(1,2))
  let ?m = "(i + n - b) mod n"
  have "(b + ?m) mod n = i"
  proof -
    have "(b + (i + n - b)) mod n = i" using assms(3) i by simp
    then show ?thesis by (simp add: mod_simps)
  qed
  moreover have "?m < n" using assms(3) by simp
  ultimately have ex: "?m < n \<and> keys ! ((b + ?m) mod n) = 0" using i by simp
  let ?P = "\<lambda>m. m < n \<and> keys ! ((b + m) mod n) = 0"
  have "?P (LEAST m. ?P m)" using ex by (rule LeastI)
  moreover have "\<forall>j<(LEAST m. ?P m). keys ! ((b + j) mod n) \<noteq> 0"
    using not_less_Least [of _ ?P] calculation by (meson less_trans)
  ultimately show ?thesis by blast
qed

lemma displacement_le_live:
  assumes "length keys = n" "m \<le> n" "\<forall>j<m. keys ! ((b + j) mod n) \<noteq> 0"
  shows "m \<le> length (live keys)"
proof (cases "n = 0")
  case False
  have "inj_on (\<lambda>j. (b + j) mod n) {..<m}" using assms(2) by (intro inj_onI) (rule offset_inj [of b _ n], auto)
  then have "m = card ((\<lambda>j. (b + j) mod n) ` {..<m})" by (simp add: card_image)
  also have "\<dots> \<le> card {i. i < length keys \<and> keys ! i \<noteq> 0}" using assms False by (intro card_mono) auto
  finally show ?thesis by (simp add: live_def length_filter_conv_card)
qed (use assms(2) in simp)

lemma live_zero: "length (live keys) < length keys \<Longrightarrow> 0 \<in> set keys"
  by (induction keys) (auto simp: live_def split: if_splits)

lemma insert_placed:
  assumes "placed k maxd keys" "length (live keys) + 1 < 2 ^ k"
  shows "\<exists>i d. probe_free (2 ^ k - 1 + 1) keys (2 ^ k - 1) (home k key) 0 (home k key) = Some (i, d) \<and>
    i < length keys \<and> keys ! i = 0 \<and> placed k (max maxd d) (keys[i := key])"
proof -
  have len: "k < 64" "length keys = 2 ^ k" "maxd + 1 < 2 ^ k" using assms(1) by (auto simp: placed_def)
  have "0 \<in> set keys" using live_zero assms(2) len(2) by simp
  then obtain m where m: "m < 2 ^ k" "keys ! ((home k key + m) mod 2 ^ k) = 0" "\<forall>j<m. keys ! ((home k key + j) mod 2 ^ k) \<noteq> 0"
    using first_free [OF len(2) _ home_less] by blast
  have "m \<le> length (live keys)" using displacement_le_live [OF len(2) _ m(3)] m(1) by simp
  then have mx: "max maxd m + 1 < 2 ^ k" using assms(2) len(3) by simp
  have "probe_free (2 ^ k - 1 + 1) keys (2 ^ k - 1) (home k key) 0 (home k key) = Some ((home k key + m) mod 2 ^ k, m)"
    using probe_free_finds [OF len(1,2) home_less m, of 0 "2 ^ k - 1 + 1"] m(1) by simp
  moreover have "placed k (max maxd m) (keys[(home k key + m) mod 2 ^ k := key])"
  proof -
    let ?p = "(home k key + m) mod 2 ^ k"
    have "\<exists>m'\<le>max maxd m. i = (home k (keys[?p := key] ! i) + m') mod 2 ^ k"
      if i: "i < 2 ^ k" "keys[?p := key] ! i \<noteq> 0" for i
    proof (cases "i = ?p")
      case True
      then show ?thesis using len(2) by (intro exI [of _ m]) simp
    next
      case False
      then obtain m' where "m' \<le> maxd" "i = (home k (keys ! i) + m') mod 2 ^ k"
        using assms(1) i unfolding placed_def by auto
      then show ?thesis using False by (intro exI [of _ m']) auto
    qed
    then show ?thesis using assms(1) mx unfolding placed_def by simp
  qed
  ultimately show ?thesis using m(2) len(2) by (intro exI conjI) auto
qed

lemma live_insert:
  assumes "i < length keys" "keys ! i = 0" "key \<noteq> 0"
  shows "set (live (keys[i := key])) = insert key (set (live keys))"
    and "length (live (keys[i := key])) = Suc (length (live keys))"
    and "distinct (live (keys[i := key])) \<longleftrightarrow> distinct (live keys) \<and> key \<notin> set keys"
proof -
  obtain xs ys where k: "keys = xs @ 0 # ys" "length xs = i" using assms(1,2) by (metis id_take_nth_drop length_take min.absorb4)
  then have u: "keys[i := key] = xs @ key # ys" by (metis list_update_length)
  show "set (live (keys[i := key])) = insert key (set (live keys))"
    and "length (live (keys[i := key])) = Suc (length (live keys))"
    and "distinct (live (keys[i := key])) \<longleftrightarrow> distinct (live keys) \<and> key \<notin> set keys"
    unfolding u unfolding k(1) live_def using assms(3) by auto
qed

lemma live_delete:
  assumes "i < length keys" "keys ! i \<noteq> 0" "distinct (live keys)"
  shows "set (live (keys[i := 0])) = set (live keys) - {keys ! i}"
    and "length (live keys) = Suc (length (live (keys[i := 0])))"
    and "distinct (live (keys[i := 0]))"
proof -
  define key where "key = keys ! i"
  obtain xs ys where k: "keys = xs @ key # ys" "length xs = i"
    using assms(1) by (metis id_take_nth_drop length_take min.absorb4 key_def)
  then have u: "keys[i := 0] = xs @ 0 # ys" by (metis list_update_length)
  show "set (live (keys[i := 0])) = set (live keys) - {keys ! i}"
    and "length (live keys) = Suc (length (live (keys[i := 0])))"
    and "distinct (live (keys[i := 0]))"
    using assms(2,3) unfolding u key_def [symmetric] unfolding k(1) live_def by auto
qed

lemma live_mem: "key \<noteq> 0 \<Longrightarrow> key \<in> set (live keys) \<longleftrightarrow> key \<in> set keys"
  by (simp add: live_def)

lemma live_le: "length (live keys) \<le> length keys"
  by (simp add: live_def)

section \<open>Sets of referrers\<close>

definition rtable_ok :: "nat \<Rightarrow> referrer_table \<Rightarrow> bool" where
  "rtable_ok k t \<longleftrightarrow> 3 \<le> k \<and> rmask t = 2 ^ k - 1 \<and> placed k (rmax_hash_displacement t) (slots t) \<and>
     num_refs t = length (live (slots t)) \<and> distinct (live (slots t)) \<and> referrers t \<noteq> 0"

definition refs_ok :: "weak_refs \<Rightarrow> bool" where
  "refs_ok r = (case r of Inline xs \<Rightarrow> length xs = 4 \<and> distinct (live xs) | Out_of_line t \<Rightarrow> (\<exists>k. rtable_ok k t))"

definition refs_set :: "weak_refs \<Rightarrow> u64 set" where
  "refs_set r = (case r of Inline xs \<Rightarrow> set (live xs) | Out_of_line t \<Rightarrow> set (live (slots t)))"

lemma size_8: "3 \<le> k \<Longrightarrow> 8 \<le> (2::nat) ^ k"
  using power_increasing [of 3 k "2::nat"] by simp

lemma TABLE_SIZE_pow: "0 < k \<Longrightarrow> TABLE_SIZE (2 ^ k - 1) = 2 ^ k"
proof -
  assume "0 < k"
  then have "1 < (2::nat) ^ k" by (intro one_less_power) auto
  then show ?thesis unfolding TABLE_SIZE_def by simp
qed

lemma place_ok:
  assumes "rtable_ok k t" "p \<noteq> 0" "p \<notin> set (slots t)" "num_refs t < 2 ^ k * 3 div 4"
  shows "\<exists>t'. place_referrer p t = Some t' \<and> rtable_ok k t' \<and> set (live (slots t')) = insert p (set (live (slots t))) \<and>
    num_refs t' = num_refs t + 1 \<and> referrers t' = referrers t"
proof -
  have t: "3 \<le> k" "rmask t = 2 ^ k - 1" "placed k (rmax_hash_displacement t) (slots t)" "num_refs t = length (live (slots t))"
    "distinct (live (slots t))" "referrers t \<noteq> 0" using assms(1) by (auto simp: rtable_ok_def)
  have "8 \<le> (2::nat) ^ k" using size_8 t(1) .
  then have "length (live (slots t)) + 1 < 2 ^ k" using assms(4) t(4) by linarith
  then obtain i d where i: "probe_free (2 ^ k - 1 + 1) (slots t) (2 ^ k - 1) (home k p) 0 (home k p) = Some (i, d)"
    "i < length (slots t)" "slots t ! i = 0" "placed k (max (rmax_hash_displacement t) d) ((slots t)[i := p])"
    using insert_placed [OF t(3)] by blast
  have m: "masked (w_hash_pointer p) (rmask t) = home k p"
    using t(3) unfolding t(2) w_hash_pointer_eq by (intro masked_home) (simp add: placed_def)
  have "place_referrer p t = Some (t\<lparr>slots := (slots t)[i := p], num_refs := num_refs t + 1,
      rmax_hash_displacement := max (rmax_hash_displacement t) d\<rparr>)"
    unfolding place_referrer_def Let_def m unfolding t(2) i(1) by simp
  then show ?thesis using live_insert [OF i(2,3) assms(2)] t i(4) assms(3) by (auto simp: rtable_ok_def)
qed

lemma append_place:
  assumes "rtable_ok k t" "p \<noteq> 0" "p \<notin> set (slots t)" "num_refs t < 2 ^ k * 3 div 4"
  shows "\<exists>t'. append_out_of_line (Suc n) p t h = Some (t', h) \<and> rtable_ok k t' \<and>
    set (live (slots t')) = insert p (set (live (slots t))) \<and> num_refs t' = num_refs t + 1 \<and> referrers t' = referrers t"
proof -
  have "rmask t = 2 ^ k - 1" "0 < k" using assms(1) by (auto simp: rtable_ok_def)
  then have "\<not> num_refs t \<ge> TABLE_SIZE (rmask t) * 3 div 4" using assms(4) by (simp only: TABLE_SIZE_pow not_le)
  then show ?thesis using place_ok [OF assms] by auto
qed

lemma grow_loop_ok:
  assumes "rtable_ok k t" "distinct (live rs)" "set (live rs) \<inter> set (live (slots t)) = {}"
    "num_refs t + length (live rs) \<le> 2 ^ k * 3 div 4" "m = length (live rs)"
  shows "\<exists>t'. grow_loop (append_out_of_line (Suc n)) rs m t h = Some (t', h) \<and> rtable_ok k t' \<and>
    set (live (slots t')) = set (live rs) \<union> set (live (slots t)) \<and>
    num_refs t' = num_refs t + length (live rs) \<and> referrers t' = referrers t"
  using assms
proof (induction rs arbitrary: t m)
  case (Cons r rs)
  show ?case
  proof (cases "r = 0")
    case True
    then show ?thesis using Cons.IH [of t m] Cons.prems by (cases "m = 0") (auto simp: live_def)
  next
    case False
    then have l: "live (r # rs) = r # live rs" by (simp add: live_def)
    have fresh: "r \<notin> set (slots t)" using Cons.prems(3) False live_mem [of r "slots t"] unfolding l by auto
    obtain t1 where t1: "append_out_of_line (Suc n) r t h = Some (t1, h)" "rtable_ok k t1"
      "set (live (slots t1)) = insert r (set (live (slots t)))" "num_refs t1 = num_refs t + 1" "referrers t1 = referrers t"
      using append_place [OF Cons.prems(1) False fresh, of n h] Cons.prems(4) unfolding l by auto
    have "\<exists>t'. grow_loop (append_out_of_line (Suc n)) rs (m - 1) t1 h = Some (t', h) \<and> rtable_ok k t' \<and>
        set (live (slots t')) = set (live rs) \<union> set (live (slots t1)) \<and>
        num_refs t' = num_refs t1 + length (live rs) \<and> referrers t' = referrers t1"
      using Cons.prems t1(3,4) unfolding l by (intro Cons.IH [OF t1(2)]) auto
    then show ?thesis using t1 False Cons.prems(5) unfolding l by (auto simp del: append_out_of_line.simps)
  qed
qed (auto simp: live_def)

definition heap_ready :: "nat \<Rightarrow> weak_heap \<Rightarrow> bool" where
  "heap_ready n h \<longleftrightarrow> n \<le> length (callocs h) \<and> 0 \<notin> set (callocs h)"

lemma calloc_ready:
  assumes "heap_ready (Suc n) h"
  obtains p h' where "calloc h = Some (p, h')" "p \<noteq> 0" "heap_ready n h'" "weak_errors h' = weak_errors h"
  using assms by (cases "callocs h") (auto simp: heap_ready_def calloc_def)

lemma heap_ready_mono: "heap_ready n h \<Longrightarrow> m \<le> n \<Longrightarrow> heap_ready m h"
  by (simp add: heap_ready_def)

lemma heap_ready_free [simp]:
  "heap_ready n (free_array p h) = heap_ready n h" "weak_errors (free_array p h) = weak_errors h"
  "heap_ready n (objc_weak_error p h) = heap_ready n h" "weak_errors (objc_weak_error p h) = weak_errors h @ [p]"
  by (simp_all add: heap_ready_def free_array_def objc_weak_error_def)

lemma grow_ok:
  assumes "2 \<le> k" "k < 61" "rmask t = 2 ^ k - 1" "length (slots t) = 2 ^ k" "num_refs t = length (live (slots t))"
    "distinct (live (slots t))" "p \<noteq> 0" "p \<notin> set (slots t)" "heap_ready (Suc m) h"
  shows "\<exists>t' h'. grow_refs_and_insert (append_out_of_line (Suc n)) p t h = Some (t', h') \<and> rtable_ok (Suc k) t' \<and>
    set (live (slots t')) = insert p (set (live (slots t))) \<and> heap_ready m h' \<and> weak_errors h' = weak_errors h"
proof -
  obtain q h1 where q: "calloc h = Some (q, h1)" "q \<noteq> 0" "heap_ready m h1" "weak_errors h1 = weak_errors h"
    using calloc_ready [OF assms(9)] .
  let ?t1 = "\<lparr>referrers = q, slots = replicate (2 ^ Suc k) 0, num_refs = 0, rmask = 2 ^ Suc k - 1, rmax_hash_displacement = 0\<rparr>"
  have e: "live (replicate j 0) = []" for j by (simp add: live_def)
  have ok1: "rtable_ok (Suc k) ?t1"
    using placed_empty [of "Suc k"] assms(1,2) q(2) e by (simp add: rtable_ok_def del: replicate.simps power_Suc)
  have n4: "4 \<le> (2::nat) ^ k" using power_increasing [of 2 k "2::nat"] assms(1) by simp
  have lv: "length (live (slots t)) \<le> 2 ^ k" using live_le [of "slots t"] assms(4) by simp
  have room: "num_refs ?t1 + length (live (slots t)) \<le> 2 ^ Suc k * 3 div 4" using lv n4 by simp
  obtain t2 where t2: "grow_loop (append_out_of_line (Suc n)) (slots t) (num_refs t) ?t1 h1 = Some (t2, h1)" "rtable_ok (Suc k) t2"
    "set (live (slots t2)) = set (live (slots t))" "num_refs t2 = num_refs t" "referrers t2 = q"
    using grow_loop_ok [OF ok1 assms(6) _ room, of "num_refs t" n h1] assms(5) e
    by (auto simp del: append_out_of_line.simps replicate.simps)
  have "p \<notin> set (slots t2)" using t2(3) live_mem assms(7,8) by blast
  moreover have "num_refs t2 < 2 ^ Suc k * 3 div 4" using t2(4) assms(5) lv n4 by simp
  ultimately obtain t3 where t3: "append_out_of_line (Suc n) p t2 h1 = Some (t3, h1)" "rtable_ok (Suc k) t3"
    "set (live (slots t3)) = insert p (set (live (slots t2)))"
    using append_place [OF t2(2) assms(7)] by blast
  have sz: "TABLE_SIZE (rmask t) = 2 ^ k" using assms(1) unfolding assms(3) by (intro TABLE_SIZE_pow) simp
  have "grow_refs_and_insert (append_out_of_line (Suc n)) p t h =
      Some (t3, if referrers t \<noteq> 0 then free_array (referrers t) h1 else h1)"
    using t2(1) t3(1) q(1) assms(4)
    by (simp add: grow_refs_and_insert_def sz mult.commute del: append_out_of_line.simps replicate.simps)
  then show ?thesis using t3 t2(3) q(3,4) by simp
qed

lemma first_index_None: "first_index x xs = None \<longleftrightarrow> x \<notin> set xs"
  by (induction xs) auto

lemma first_index_Some: "first_index x xs = Some i \<Longrightarrow> i < length xs \<and> xs ! i = x"
  by (induction xs arbitrary: i) (auto split: if_splits)

lemma grow_bound: "n < 2 ^ 60 \<Longrightarrow> 2 ^ k * 3 div 4 \<le> n \<Longrightarrow> k < 61" for n :: nat
proof (rule ccontr)
  assume n: "n < 2 ^ 60" "2 ^ k * 3 div 4 \<le> n" and "\<not> k < 61"
  then have "(2::nat) ^ 61 \<le> 2 ^ k" by (intro power_increasing) auto
  then have "(2::nat) ^ 61 * 3 div 4 \<le> n" using n(2) by (meson div_le_mono le_trans mult_le_mono1)
  then show False using n(1) by simp
qed

lemma append_out_of_line_ok:
  assumes "rtable_ok k t" "p \<noteq> 0" "p \<notin> set (slots t)" "num_refs t < 2 ^ 60" "heap_ready (Suc m) h"
  shows "\<exists>t' h' k'. append_out_of_line 2 p t h = Some (t', h') \<and> rtable_ok k' t' \<and>
    set (live (slots t')) = insert p (set (live (slots t))) \<and> heap_ready m h' \<and> weak_errors h' = weak_errors h"
proof (cases "num_refs t < 2 ^ k * 3 div 4")
  case True
  then show ?thesis
    using append_place [OF assms(1-3), of 1 h] heap_ready_mono [OF assms(5), of m] by (auto simp: numeral_2_eq_2)
next
  case False
  have t: "3 \<le> k" "rmask t = 2 ^ k - 1" "length (slots t) = 2 ^ k" "num_refs t = length (live (slots t))" "distinct (live (slots t))"
    using assms(1) by (auto simp: rtable_ok_def placed_def)
  have "2 \<le> k" "k < 61" using t(1) grow_bound [OF assms(4)] False by auto
  moreover have "append_out_of_line 2 p t h = grow_refs_and_insert (append_out_of_line (Suc 0)) p t h"
  proof -
    have "num_refs t \<ge> TABLE_SIZE (rmask t) * 3 div 4" using False t(1,2) by (simp only: TABLE_SIZE_pow)
    then show ?thesis by (simp add: numeral_2_eq_2)
  qed
  ultimately show ?thesis using grow_ok [OF _ _ t(2-5) assms(2,3,5), of 0] by auto
qed

lemma append_referrer_ok:
  assumes "refs_ok r" "p \<noteq> 0" "p \<notin> refs_set r" "card (refs_set r) < 2 ^ 60" "heap_ready (Suc (Suc m)) h"
  shows "\<exists>r' h'. append_referrer r p h = Some (r', h') \<and> refs_ok r' \<and> refs_set r' = insert p (refs_set r) \<and>
    heap_ready m h' \<and> weak_errors h' = weak_errors h"
proof (cases r)
  case (Out_of_line t)
  then obtain k where k: "rtable_ok k t" using assms(1) by (auto simp: refs_ok_def)
  have "p \<notin> set (slots t)" using assms(2,3) live_mem Out_of_line by (auto simp: refs_set_def)
  moreover have "num_refs t < 2 ^ 60"
    using assms(4) k Out_of_line by (auto simp: refs_set_def rtable_ok_def distinct_card)
  ultimately show ?thesis
    using append_out_of_line_ok [OF k assms(2) _ _ heap_ready_mono [OF assms(5), of "Suc m"]] Out_of_line
    by (fastforce simp: append_referrer_def refs_ok_def refs_set_def)
next
  case (Inline xs)
  then have xs: "length xs = 4" "distinct (live xs)" "p \<notin> set xs"
    using assms(1-3) live_mem by (auto simp: refs_ok_def refs_set_def)
  show ?thesis
  proof (cases "first_index 0 xs")
    case (Some i)
    then show ?thesis
      using first_index_Some [OF Some] live_insert [of i xs p] xs assms(2) Inline heap_ready_mono [OF assms(5), of m]
      by (auto simp: append_referrer_def refs_ok_def refs_set_def)
  next
    case None
    then have lv: "live xs = xs" by (auto simp: first_index_None live_def filter_id_conv)
    obtain q h1 where q: "calloc h = Some (q, h1)" "heap_ready (Suc m) h1" "weak_errors h1 = weak_errors h"
      using calloc_ready [OF assms(5)] .
    let ?t = "\<lparr>referrers = q, slots = xs, num_refs = 4, rmask = 4 - 1, rmax_hash_displacement = 0\<rparr>"
    have "append_out_of_line 2 p ?t h1 = grow_refs_and_insert (append_out_of_line (Suc 0)) p ?t h1"
      by (simp add: numeral_2_eq_2 TABLE_SIZE_def)
    then obtain t' h' where t': "append_out_of_line 2 p ?t h1 = Some (t', h')" "rtable_ok 3 t'"
        "set (live (slots t')) = insert p (set xs)" "heap_ready m h'" "weak_errors h' = weak_errors h"
      using grow_ok [of 2 ?t p m h1 0] xs lv assms(2) q by auto
    then show ?thesis using None Inline q(1) lv by (auto simp: append_referrer_def refs_ok_def refs_set_def)
  qed
qed

lemma remove_referrer_ok:
  assumes "refs_ok r" "p \<noteq> 0"
  shows "\<exists>r' h'. remove_referrer r p h = Some (r', h') \<and> refs_ok r' \<and> refs_set r' = refs_set r - {p} \<and>
    (\<forall>n. heap_ready n h' = heap_ready n h) \<and>
    weak_errors h' = (if p \<in> refs_set r then weak_errors h else weak_errors h @ [p]) \<and>
    (case r of Inline xs \<Rightarrow> \<exists>ys. r' = Inline ys | Out_of_line t \<Rightarrow> \<exists>t'. r' = Out_of_line t' \<and> referrers t' = referrers t)"
proof (cases r)
  case (Inline xs)
  show ?thesis
  proof (cases "first_index p xs")
    case None
    then have "p \<notin> set (live xs)" by (simp add: first_index_None live_def)
    then show ?thesis using None Inline assms by (simp add: remove_referrer_def refs_set_def)
  next
    case (Some i)
    then have i: "i < length xs" "xs ! i = p" using first_index_Some by auto
    have xs: "length xs = 4" "distinct (live xs)" using assms(1) Inline by (auto simp: refs_ok_def)
    have e: "remove_referrer r p h = Some (Inline (xs[i := 0]), h)" using Some Inline by (simp add: remove_referrer_def)
    have "p \<in> set (live xs)" using i assms(2) by (auto simp: live_mem)
    then show ?thesis
      unfolding e unfolding Inline using live_delete [of i xs] i xs assms(2) by (simp add: refs_ok_def refs_set_def)
  qed
next
  case (Out_of_line t)
  then obtain k where k: "3 \<le> k" "rmask t = 2 ^ k - 1" "placed k (rmax_hash_displacement t) (slots t)"
      "num_refs t = length (live (slots t))" "distinct (live (slots t))" "referrers t \<noteq> 0"
    using assms(1) by (auto simp: refs_ok_def rtable_ok_def)
  have m: "masked (w_hash_pointer p) (rmask t) = home k p"
    using k(3) unfolding k(2) w_hash_pointer_eq by (intro masked_home) (simp add: placed_def)
  obtain found where f: "probe_key (2 ^ k - 1 + 1) (slots t) (2 ^ k - 1) p (rmax_hash_displacement t) (home k p) 0 (home k p) = Some found"
    and fs: "case found of None \<Rightarrow> p \<notin> set (slots t) | Some i \<Rightarrow> i < length (slots t) \<and> slots t ! i = p"
    using search_placed [OF k(3) assms(2)] by blast
  have rm: "remove_referrer r p h = (case found of None \<Rightarrow> Some (r, objc_weak_error p h)
      | Some index \<Rightarrow> Some (Out_of_line (t\<lparr>slots := (slots t)[index := 0], num_refs := num_refs t - 1\<rparr>), h))"
    unfolding remove_referrer_def Out_of_line weak_refs.case Let_def m unfolding k(2) f by (cases found) simp_all
  show ?thesis
  proof (cases found)
    case None
    then have e: "remove_referrer r p h = Some (r, objc_weak_error p h)" using rm by simp
    have "p \<notin> refs_set r" using fs None assms(2) Out_of_line by (simp add: refs_set_def live_mem)
    then show ?thesis unfolding e using assms(1) Out_of_line by simp
  next
    case (Some i)
    then have i: "i < length (slots t)" "slots t ! i = p" using fs by auto
    let ?t = "t\<lparr>slots := (slots t)[i := 0], num_refs := num_refs t - 1\<rparr>"
    have "rtable_ok k ?t"
      using k live_delete(2,3) [of i "slots t"] i assms(2) placed_delete [OF k(3), of i] by (simp add: rtable_ok_def)
    moreover have "refs_set (Out_of_line ?t) = refs_set r - {p}" "p \<in> refs_set r"
      using live_delete(1) [of i "slots t"] i k(5) assms(2) Out_of_line nth_mem [OF i(1)] by (simp_all add: refs_set_def live_mem)
    moreover have e: "remove_referrer r p h = Some (Out_of_line ?t, h)" using rm Some by simp
    moreover have "refs_ok (Out_of_line ?t)" using calculation(1) by (auto simp: refs_ok_def)
    ultimately show ?thesis unfolding e unfolding Out_of_line by simp
  qed
qed

section \<open>The entries as a map\<close>

definition content :: "weak_entry_t list \<Rightarrow> u64 \<rightharpoonup> weak_refs" where
  "content es = map_of (map (\<lambda>e. (referent e, refs e)) (filter (\<lambda>e. referent e \<noteq> 0) es))"

definition etable_ok :: "nat \<Rightarrow> weak_table_t \<Rightarrow> bool" where
  "etable_ok k wt \<longleftrightarrow> 6 \<le> k \<and> weak_entries wt \<noteq> 0 \<and> wmask wt = 2 ^ k - 1 \<and>
     placed k (wmax_hash_displacement wt) (map referent (entries wt)) \<and>
     num_entries wt = length (live (map referent (entries wt))) \<and> distinct (live (map referent (entries wt))) \<and>
     (\<forall>e\<in>set (entries wt). refs_ok (refs e))"

definition wt_ok :: "weak_table_t \<Rightarrow> bool" where
  "wt_ok wt \<longleftrightarrow>
     (if weak_entries wt = 0 then entries wt = [] \<and> num_entries wt = 0 \<and> wmask wt = 0 \<and> wmax_hash_displacement wt = 0
      else \<exists>k. etable_ok k wt)"

lemma etable_wt: "etable_ok k wt \<Longrightarrow> wt_ok wt"
  unfolding wt_ok_def by (rule if_not_P [THEN iffD2]) (simp add: etable_ok_def, rule exI)

lemma content_simps [simp]:
  "content [] = Map.empty"
  "content (e # es) = (if referent e = 0 then content es else (content es)(referent e \<mapsto> refs e))"
  by (auto simp: content_def)

lemma content_append: "content (xs @ ys) = content ys ++ content xs"
  by (simp add: content_def)

lemma content_None: "content es r = None \<longleftrightarrow> r = 0 \<or> r \<notin> set (map referent es)"
  by (induction es) auto

lemma content_replicate [simp]: "content (replicate n no_entry) = Map.empty"
  by (induction n) (auto simp: no_entry_def)

lemma live_split: "live (map referent (xs @ e # ys)) =
    live (map referent xs) @ (if referent e = 0 then [] else [referent e]) @ live (map referent ys)"
  by (simp add: live_def)

lemma content_mid:
  assumes "referent e = r" "r \<noteq> 0" "content xs r = None"
  shows "content (xs @ e # ys) = (content ys ++ content xs)(r \<mapsto> refs e)"
  using assms by (simp add: content_append map_add_upd_left domIff)

lemma content_nth:
  assumes "distinct (live (map referent es))" "i < length es" "referent (es ! i) = r" "r \<noteq> 0"
  shows "content es r = Some (refs (es ! i))"
proof -
  define xs ys where "xs = take i es" "ys = drop (Suc i) es"
  then have es: "es = xs @ es ! i # ys" using id_take_nth_drop [OF assms(2)] by (simp only:)
  have "distinct (live (map referent (xs @ es ! i # ys)))" using assms(1) es by (rule subst [rotated])
  then have "content xs r = None" using assms(3,4) unfolding live_split by (auto simp: content_None live_def)
  then have "content (xs @ es ! i # ys) r = Some (refs (es ! i))" using content_mid [OF assms(3,4)] by simp
  then show ?thesis using es [symmetric] by (rule subst [rotated])
qed

lemma content_update:
  assumes "distinct (live (map referent es))" "i < length es" "referent e = r" "r \<noteq> 0"
    "referent (es ! i) = 0 \<and> r \<notin> set (map referent es) \<or> referent (es ! i) = r"
  shows "content (es[i := e]) = (content es)(r \<mapsto> refs e)"
proof -
  define xs a ys where defs: "xs = take i es" "a = es ! i" "ys = drop (Suc i) es"
  have es': "es = xs @ a # ys" unfolding defs by (rule id_take_nth_drop [OF assms(2)])
  have upd: "es[i := e] = xs @ e # ys" unfolding defs by (rule upd_conv_take_nth_drop [OF assms(2)])
  have a: "referent a = 0 \<and> r \<notin> set (map referent (xs @ a # ys)) \<or> referent a = r"
    using assms(5) unfolding defs(2) [symmetric] unfolding es' .
  have "distinct (live (map referent (xs @ a # ys)))" using assms(1) unfolding es' .
  then have "r \<notin> set (map referent xs)" using a assms(4) unfolding live_split by (auto simp: live_def)
  then have mid: "content xs r = None" by (simp add: content_None)
  have "content (xs @ e # ys) = (content (xs @ a # ys))(r \<mapsto> refs e)"
  proof (cases "referent a = r")
    case True
    then show ?thesis using content_mid [OF _ assms(4) mid] assms(3) by simp
  next
    case False
    then show ?thesis using content_mid [OF assms(3,4) mid] a by (simp add: content_append)
  qed
  then show ?thesis unfolding upd unfolding es' .
qed

lemma content_remove:
  assumes "distinct (live (map referent es))" "i < length es" "referent (es ! i) = r" "r \<noteq> 0" "referent e = 0"
  shows "content (es[i := e]) = (content es)(r := None)"
proof -
  define xs a ys where defs: "xs = take i es" "a = es ! i" "ys = drop (Suc i) es"
  have es': "es = xs @ a # ys" unfolding defs by (rule id_take_nth_drop [OF assms(2)])
  have upd: "es[i := e] = xs @ e # ys" unfolding defs by (rule upd_conv_take_nth_drop [OF assms(2)])
  have a: "referent a = r" using assms(3) unfolding defs(2) .
  have "distinct (live (map referent (xs @ a # ys)))" using assms(1) unfolding es' .
  then have n: "content xs r = None" "content ys r = None"
    using a assms(4) unfolding live_split by (auto simp: content_None live_def)
  then have "(content ys ++ content xs)(r := None) = content ys ++ content xs" by (intro fun_upd_idem) simp
  then have "content (xs @ e # ys) = (content (xs @ a # ys))(r := None)"
    using content_mid [OF a assms(4) n(1)] assms(5) by (simp add: content_append)
  then show ?thesis unfolding upd unfolding es' .
qed

lemma weak_entry_for_referent_ok:
  assumes "wt_ok wt" "r \<noteq> 0"
  shows "\<exists>f. weak_entry_for_referent r wt = Some f \<and>
    (case f of None \<Rightarrow> content (entries wt) r = None
     | Some i \<Rightarrow> weak_entries wt \<noteq> 0 \<and> i < length (entries wt) \<and> referent (entries wt ! i) = r)"
proof (cases "weak_entries wt = 0")
  case True
  then show ?thesis using assms by (simp add: weak_entry_for_referent_def assert_opt_def wt_ok_def)
next
  case False
  then obtain k where k: "wmask wt = 2 ^ k - 1" "placed k (wmax_hash_displacement wt) (map referent (entries wt))"
    using assms(1) by (auto simp: wt_ok_def etable_ok_def)
  have m: "masked (hash_pointer r) (wmask wt) = home k r"
    using k(2) unfolding k(1) by (intro masked_home) (simp add: placed_def)
  obtain f where f: "probe_key (2 ^ k - 1 + 1) (map referent (entries wt)) (2 ^ k - 1) r (wmax_hash_displacement wt) (home k r) 0 (home k r) = Some f"
    and fs: "case f of None \<Rightarrow> r \<notin> set (map referent (entries wt))
      | Some i \<Rightarrow> i < length (map referent (entries wt)) \<and> map referent (entries wt) ! i = r"
    using search_placed [OF k(2) assms(2)] by blast
  have "weak_entry_for_referent r wt = Some f"
    using False assms(2) unfolding weak_entry_for_referent_def Let_def m unfolding k(1) f by (simp add: assert_opt_def)
  then show ?thesis using fs False by (cases f) (auto simp: content_None)
qed

lemma weak_entry_insert_ok:
  assumes "etable_ok k wt" "referent e = r" "r \<noteq> 0" "r \<notin> set (map referent (entries wt))" "refs_ok (refs e)"
    "num_entries wt + 1 < 2 ^ k"
  shows "\<exists>wt'. weak_entry_insert e wt = Some wt' \<and> etable_ok k wt' \<and> content (entries wt') = (content (entries wt))(r \<mapsto> refs e) \<and>
    num_entries wt' = num_entries wt + 1 \<and> weak_mem wt' = weak_mem wt"
proof -
  have k: "weak_entries wt \<noteq> 0" "wmask wt = 2 ^ k - 1" "placed k (wmax_hash_displacement wt) (map referent (entries wt))"
      "num_entries wt = length (live (map referent (entries wt)))" "distinct (live (map referent (entries wt)))"
    using assms(1) by (auto simp: etable_ok_def)
  have m: "masked (hash_pointer r) (wmask wt) = home k r"
    using k(3) unfolding k(2) by (intro masked_home) (simp add: placed_def)
  have "length (live (map referent (entries wt))) + 1 < 2 ^ k" using assms(6) k(4) by simp
  then obtain i d where i: "probe_free (2 ^ k - 1 + 1) (map referent (entries wt)) (2 ^ k - 1) (home k r) 0 (home k r) = Some (i, d)"
    "i < length (map referent (entries wt))" "map referent (entries wt) ! i = 0"
    "placed k (max (wmax_hash_displacement wt) d) ((map referent (entries wt))[i := r])"
    using insert_placed [OF k(3)] by blast
  let ?wt = "wt\<lparr>entries := (entries wt)[i := e], num_entries := num_entries wt + 1,
              wmax_hash_displacement := max (wmax_hash_displacement wt) d\<rparr>"
  have ins: "weak_entry_insert e wt = Some ?wt"
    using k(1) unfolding weak_entry_insert_def Let_def assms(2) m unfolding k(2) i(1) by (simp add: assert_opt_def)
  have "content (entries ?wt) = (content (entries wt))(r \<mapsto> refs e)"
    using content_update [OF k(5), of i e r] i(2,3) assms(2-4) by simp
  moreover have "\<forall>e'\<in>set (entries ?wt). refs_ok (refs e')"
    using assms(1,5) set_update_subset_insert [of "entries wt" i e] unfolding etable_ok_def by auto
  then have "etable_ok k ?wt"
    using assms(1,4) i(4) k(4,5) live_insert [OF i(2,3) assms(3)] unfolding etable_ok_def
    by (simp add: map_update assms(2))
  ultimately show ?thesis using ins by simp
qed

section \<open>Resizing\<close>

lemma reinsert_ok:
  assumes "etable_ok k wt" "distinct (live (map referent es))"
    "set (live (map referent es)) \<inter> set (map referent (entries wt)) = {}" "\<forall>e\<in>set es. refs_ok (refs e)"
    "num_entries wt + length (live (map referent es)) < 2 ^ k"
  shows "\<exists>wt'. reinsert es wt = Some wt' \<and> etable_ok k wt' \<and> content (entries wt') = content (entries wt) ++ content es \<and>
    num_entries wt' = num_entries wt + length (live (map referent es)) \<and> weak_mem wt' = weak_mem wt"
  using assms
proof (induction es arbitrary: wt)
  case (Cons e es)
  show ?case
  proof (cases "referent e = 0")
    case True
    then have "live (map referent (e # es)) = live (map referent es)" by (simp add: live_def)
    then show ?thesis using Cons.IH [OF Cons.prems(1)] Cons.prems True by simp
  next
    case False
    then have l: "live (map referent (e # es)) = referent e # live (map referent es)" by (simp add: live_def)
    have "referent e \<notin> set (map referent (entries wt))" using Cons.prems(3) unfolding l by auto
    then obtain wt1 where w: "weak_entry_insert e wt = Some wt1" "etable_ok k wt1"
      "content (entries wt1) = (content (entries wt))(referent e \<mapsto> refs e)"
      "num_entries wt1 = num_entries wt + 1" "weak_mem wt1 = weak_mem wt"
      using weak_entry_insert_ok [OF Cons.prems(1) refl False] Cons.prems(4,5) unfolding l by auto
    have keys: "r \<in> set (map referent (entries wt1)) \<Longrightarrow> r \<noteq> 0 \<Longrightarrow> r = referent e \<or> r \<in> set (map referent (entries wt))" for r
      using content_None [of "entries wt1" r] content_None [of "entries wt" r] w(3) by (auto split: if_splits)
    have "set (live (map referent es)) \<inter> set (map referent (entries wt1)) = {}"
    proof (rule ccontr)
      assume "\<not> ?thesis"
      then obtain r where r: "r \<in> set (live (map referent es))" "r \<in> set (map referent (entries wt1))" by blast
      then have "r \<noteq> 0" by (simp add: live_def)
      then show False using keys [OF r(2)] r(1) Cons.prems(2,3) unfolding l by auto
    qed
    then obtain wt2 where w2: "reinsert es wt1 = Some wt2" "etable_ok k wt2"
      "content (entries wt2) = content (entries wt1) ++ content es"
      "num_entries wt2 = num_entries wt1 + length (live (map referent es))" "weak_mem wt2 = weak_mem wt1"
      using Cons.IH [OF w(2)] Cons.prems(2,4,5) w(4) unfolding l by auto
    have "content es (referent e) = None" using Cons.prems(2) False unfolding l by (auto simp: content_None live_def)
    then have "content (entries wt2) = content (entries wt) ++ content (e # es)"
      unfolding w2(3) w(3) using False by (simp add: map_add_upd_left domIff)
    then show ?thesis using w w2(1,2,4,5) False unfolding l by (simp del: content_simps)
  qed
qed (auto simp: live_def)

lemma weak_resize_ok:
  assumes "wt_ok wt" "6 \<le> k" "k < 62" "num_entries wt < 2 ^ k" "heap_ready (Suc m) (weak_mem wt)"
  shows "\<exists>wt'. weak_resize (2 ^ k) wt = Some wt' \<and> etable_ok k wt' \<and> content (entries wt') = content (entries wt) \<and>
    num_entries wt' = num_entries wt \<and> heap_ready m (weak_mem wt') \<and> weak_errors (weak_mem wt') = weak_errors (weak_mem wt)"
proof -
  obtain q h where q: "calloc (weak_mem wt) = Some (q, h)" "q \<noteq> 0" "heap_ready m h" "weak_errors h = weak_errors (weak_mem wt)"
    using calloc_ready [OF assms(5)] .
  let ?w = "\<lparr>weak_entries = q, entries = replicate (2 ^ k) no_entry, num_entries = 0, wmask = 2 ^ k - 1,
                wmax_hash_displacement = 0, weak_mem = h\<rparr>"
  have z: "map referent (replicate (2 ^ k) no_entry) = replicate (2 ^ k) 0" by (simp add: no_entry_def)
  have ne: "refs_ok (refs no_entry)" by (simp add: no_entry_def refs_ok_def live_def)
  have "placed k 0 (replicate (2 ^ k) 0)" using assms(2,3) by (intro placed_empty) auto
  then have ok: "etable_ok k ?w" using assms(2) q(2) ne by (simp add: etable_ok_def z live_def del: map_replicate)
  show ?thesis
  proof (cases "weak_entries wt = 0")
    case True
    then show ?thesis using assms(1) ok q by (simp add: weak_resize_def wt_ok_def Let_def)
  next
    case False
    then obtain k0 where k0: "6 \<le> k0" "wmask wt = 2 ^ k0 - 1" "length (entries wt) = 2 ^ k0"
        "num_entries wt = length (live (map referent (entries wt)))" "distinct (live (map referent (entries wt)))"
        "\<forall>e\<in>set (entries wt). refs_ok (refs e)"
      using assms(1) by (auto simp: wt_ok_def etable_ok_def placed_def)
    have sz: "TABLE_SIZE (wmask wt) = 2 ^ k0" unfolding k0(2) using k0(1) by (intro TABLE_SIZE_pow) simp
    have "set (live (map referent (entries wt))) \<inter> set (map referent (entries ?w)) = {}"
      by (auto simp: live_def no_entry_def)
    then obtain wt' where w: "reinsert (entries wt) ?w = Some wt'" "etable_ok k wt'" "content (entries wt') = content (entries wt)"
        "num_entries wt' = num_entries wt" "weak_mem wt' = h"
      using reinsert_ok [OF ok k0(5) _ k0(6)] assms(4) k0(4) by (auto simp: content_replicate)
    let ?w' = "wt'\<lparr>weak_mem := free_array (weak_entries wt) (weak_mem wt')\<rparr>"
    have "weak_resize (2 ^ k) wt = Some ?w'"
      using q(1) w(1) False k0(3) by (simp add: weak_resize_def Let_def sz)
    moreover have "etable_ok k ?w'" using w(2) by (simp add: etable_ok_def)
    ultimately show ?thesis using w q by simp
  qed
qed

lemma weak_grow_maybe_ok:
  assumes "wt_ok wt" "num_entries wt < 2 ^ 60" "heap_ready (Suc m) (weak_mem wt)"
  shows "\<exists>wt' k. weak_grow_maybe wt = Some wt' \<and> etable_ok k wt' \<and> num_entries wt' + 1 < 2 ^ k \<and>
    content (entries wt') = content (entries wt) \<and> num_entries wt' = num_entries wt \<and>
    heap_ready m (weak_mem wt') \<and> weak_errors (weak_mem wt') = weak_errors (weak_mem wt)"
proof (cases "weak_entries wt = 0")
  case True
  then have z: "num_entries wt = 0" "TABLE_SIZE (wmask wt) = 0" using assms(1) by (auto simp: wt_ok_def TABLE_SIZE_def)
  then have "weak_grow_maybe wt = weak_resize (2 ^ 6) wt" by (simp add: weak_grow_maybe_def)
  then obtain wt' where "weak_grow_maybe wt = Some wt'" "etable_ok 6 wt'" "content (entries wt') = content (entries wt)"
      "num_entries wt' = num_entries wt" "heap_ready m (weak_mem wt')" "weak_errors (weak_mem wt') = weak_errors (weak_mem wt)"
    using weak_resize_ok [OF assms(1) _ _ _ assms(3), of 6] z by auto
  then show ?thesis using z by (intro exI [of _ wt'] exI [of _ "6::nat"]) simp
next
  case False
  then obtain k where k: "etable_ok k wt" using assms(1) by (auto simp: wt_ok_def)
  then have w: "6 \<le> k" "wmask wt = 2 ^ k - 1" by (auto simp: etable_ok_def)
  have sz: "TABLE_SIZE (wmask wt) = 2 ^ k" unfolding w(2) using w(1) by (intro TABLE_SIZE_pow) simp
  have n64: "64 \<le> (2::nat) ^ k" using power_increasing [of 6 k "2::nat"] w(1) by simp
  show ?thesis
  proof (cases "num_entries wt \<ge> 2 ^ k * 3 div 4")
    case True
    have "k < 61" using grow_bound [OF assms(2) True] .
    moreover have "num_entries wt \<le> 2 ^ k" using k live_le [of "map referent (entries wt)"] by (auto simp: etable_ok_def placed_def)
    moreover have "weak_grow_maybe wt = weak_resize (2 ^ Suc k) wt" using True by (simp add: weak_grow_maybe_def sz mult.commute)
    ultimately obtain wt' where "weak_grow_maybe wt = Some wt'" "etable_ok (Suc k) wt'" "content (entries wt') = content (entries wt)"
        "num_entries wt' = num_entries wt" "heap_ready m (weak_mem wt')" "weak_errors (weak_mem wt') = weak_errors (weak_mem wt)"
        "num_entries wt \<le> 2 ^ k"
      using weak_resize_ok [OF assms(1) _ _ _ assms(3), of "Suc k"] w(1) n64 by auto
    then show ?thesis using n64 by (intro exI [of _ wt'] exI [of _ "Suc k"]) simp
  next
    case small: False
    then have "num_entries wt + 1 < 2 ^ k" using n64 by linarith
    moreover have "weak_grow_maybe wt = Some wt" using small unfolding weak_grow_maybe_def Let_def sz by (rule if_not_P)
    ultimately show ?thesis using k heap_ready_mono [OF assms(3), of m] by (intro exI [of _ wt] exI [of _ k]) simp
  qed
qed

lemma weak_compact_maybe_ok:
  assumes "etable_ok k wt" "heap_ready (Suc m) (weak_mem wt)"
  shows "\<exists>wt'. weak_compact_maybe wt = Some wt' \<and> wt_ok wt' \<and> content (entries wt') = content (entries wt) \<and>
    num_entries wt' = num_entries wt \<and> heap_ready m (weak_mem wt') \<and> weak_errors (weak_mem wt') = weak_errors (weak_mem wt)"
proof -
  have w: "6 \<le> k" "k < 62" "wmask wt = 2 ^ k - 1" "weak_entries wt \<noteq> 0" using assms(1) by (auto simp: etable_ok_def placed_def)
  have sz: "TABLE_SIZE (wmask wt) = 2 ^ k" unfolding w(3) using w(1) by (intro TABLE_SIZE_pow) simp
  have ok: "wt_ok wt" using assms(1) by (rule etable_wt)
  show ?thesis
  proof (cases "2 ^ k \<ge> (1024::nat) \<and> 2 ^ k div 16 \<ge> num_entries wt")
    case True
    have k10: "10 \<le> k"
    proof (rule ccontr)
      assume "\<not> 10 \<le> k"
      then have "(2::nat) ^ k < 2 ^ 10" by (intro power_strict_increasing) auto
      then show False using True by simp
    qed
    then have b: "6 \<le> k - 3" "k - 3 < 62" using w(2) by auto
    have e: "(2::nat) ^ k = 2 ^ (k - 3) * 8" using k10 power_add [of "2::nat" "k - 3" 3] by simp
    then have "weak_compact_maybe wt = weak_resize (2 ^ (k - 3)) wt" using True by (simp add: weak_compact_maybe_def sz)
    moreover have "num_entries wt \<le> 2 ^ (k - 3) div 2" "(128::nat) \<le> 2 ^ (k - 3)" using True e by auto
    then have "num_entries wt < 2 ^ (k - 3)" by linarith
    ultimately obtain wt' where "weak_compact_maybe wt = Some wt'" "etable_ok (k - 3) wt'" "content (entries wt') = content (entries wt)"
      "num_entries wt' = num_entries wt" "heap_ready m (weak_mem wt')" "weak_errors (weak_mem wt') = weak_errors (weak_mem wt)"
      using weak_resize_ok [OF ok b _ assms(2)] by auto
    then show ?thesis using etable_wt [of "k - 3" wt'] by (intro exI [of _ wt']) simp
  next
    case False
    then have "weak_compact_maybe wt = Some wt" unfolding weak_compact_maybe_def Let_def sz by (rule if_not_P)
    then show ?thesis using ok heap_ready_mono [OF assms(2), of m] by simp
  qed
qed

section \<open>Operations on the sets\<close>

definition weak_of :: "weak_table_t \<Rightarrow> u64 \<Rightarrow> u64 set" where
  "weak_of wt r = (case content (entries wt) r of None \<Rightarrow> {} | Some rs \<Rightarrow> refs_set rs)"

definition weak_room :: "nat \<Rightarrow> weak_table_t \<Rightarrow> bool" where
  "weak_room n wt \<longleftrightarrow> wt_ok wt \<and> num_entries wt + n < 2 ^ 60 \<and> (\<forall>r. card (weak_of wt r) + n < 2 ^ 60) \<and>
     heap_ready (2 * n) (weak_mem wt)"

lemma weak_of_content: "content (entries wt') = (content (entries wt))(r := c) \<Longrightarrow>
    weak_of wt' = (weak_of wt)(r := (case c of None \<Rightarrow> {} | Some rs \<Rightarrow> refs_set rs))"
  by (simp add: weak_of_def fun_eq_iff)

lemma finite_refs_set [simp]: "finite (refs_set rs)"
  by (simp add: refs_set_def split: weak_refs.split)

lemma finite_weak_of [simp]: "finite (weak_of wt r)"
  by (simp add: weak_of_def split: option.split)

lemma weak_room_step:
  assumes "weak_room (Suc n) wt" "wt_ok wt'" "weak_of wt' = (weak_of wt)(r := S)" "card S \<le> card (weak_of wt r) + 1"
    "num_entries wt' \<le> num_entries wt + 1" "heap_ready (2 * n) (weak_mem wt')"
  shows "weak_room n wt'"
proof -
  have "card (weak_of wt' x) + n < 2 ^ 60" for x
  proof -
    have "card (weak_of wt' x) \<le> card (weak_of wt x) + 1" using assms(3,4) by (cases "x = r") auto
    moreover have "card (weak_of wt x) + Suc n < 2 ^ 60" using assms(1) unfolding weak_room_def by blast
    ultimately show ?thesis by linarith
  qed
  moreover have "num_entries wt + Suc n < 2 ^ 60" using assms(1) unfolding weak_room_def by blast
  ultimately show ?thesis using assms(2,5,6) unfolding weak_room_def by simp
qed

lemma entry_found:
  assumes "wt_ok wt" "weak_entries wt \<noteq> 0" "i < length (entries wt)" "referent (entries wt ! i) = r" "r \<noteq> 0"
  obtains k where "etable_ok k wt" "content (entries wt) r = Some (refs (entries wt ! i))" "refs_ok (refs (entries wt ! i))"
proof -
  obtain k where k: "etable_ok k wt" using assms(1,2) by (auto simp: wt_ok_def)
  then have "distinct (live (map referent (entries wt)))" "\<forall>e\<in>set (entries wt). refs_ok (refs e)" by (auto simp: etable_ok_def)
  then show ?thesis using that [OF k] content_nth [OF _ assms(3-5)] assms(3) by simp
qed

lemma set_refs_ok:
  fixes h :: weak_heap
  assumes "etable_ok k wt" "i < length (entries wt)" "referent (entries wt ! i) = r" "r \<noteq> 0" "refs_ok rs"
  defines "wt' \<equiv> wt\<lparr>entries := (entries wt)[i := (entries wt ! i)\<lparr>refs := rs\<rparr>], weak_mem := h\<rparr>"
  shows "etable_ok k wt'" "content (entries wt') = (content (entries wt))(r \<mapsto> rs)"
    "num_entries wt' = num_entries wt" "i < length (entries wt')" "referent (entries wt' ! i) = r" "refs (entries wt' ! i) = rs"
    "weak_mem wt' = h"
proof -
  have m: "map referent ((entries wt)[i := (entries wt ! i)\<lparr>refs := rs\<rparr>]) = map referent (entries wt)"
    using assms(2) by (simp add: map_update list_update_same_conv)
  have "\<forall>e\<in>set ((entries wt)[i := (entries wt ! i)\<lparr>refs := rs\<rparr>]). refs_ok (refs e)"
    using assms(1,5) set_update_subset_insert [of "entries wt" i "(entries wt ! i)\<lparr>refs := rs\<rparr>"] unfolding etable_ok_def by auto
  then show "etable_ok k wt'" using assms(1) unfolding etable_ok_def wt'_def by (simp add: m)
  have "distinct (live (map referent (entries wt)))" using assms(1) by (simp add: etable_ok_def)
  then show "content (entries wt') = (content (entries wt))(r \<mapsto> rs)"
    using content_update [OF _ assms(2), of "(entries wt ! i)\<lparr>refs := rs\<rparr>" r] assms(3,4) by (simp add: wt'_def)
  show "num_entries wt' = num_entries wt" "i < length (entries wt')" "referent (entries wt' ! i) = r" "refs (entries wt' ! i) = rs"
    "weak_mem wt' = h" using assms(2,3) by (simp_all add: wt'_def)
qed

lemma weak_entry_remove_ok:
  assumes "etable_ok k wt" "i < length (entries wt)" "referent (entries wt ! i) = r" "r \<noteq> 0" "heap_ready (Suc m) (weak_mem wt)"
  shows "\<exists>wt'. weak_entry_remove i wt = Some wt' \<and> wt_ok wt' \<and> content (entries wt') = (content (entries wt))(r := None) \<and>
    num_entries wt' \<le> num_entries wt \<and> heap_ready m (weak_mem wt')"
proof -
  let ?h = "case refs (entries wt ! i) of Inline xs \<Rightarrow> weak_mem wt | Out_of_line t \<Rightarrow> free_array (referrers t) (weak_mem wt)"
  let ?w = "wt\<lparr>entries := (entries wt)[i := no_entry], num_entries := num_entries wt - 1, weak_mem := ?h\<rparr>"
  have d: "distinct (live (map referent (entries wt)))" "num_entries wt = length (live (map referent (entries wt)))"
    "placed k (wmax_hash_displacement wt) (map referent (entries wt))" using assms(1) by (auto simp: etable_ok_def)
  have m: "map referent ((entries wt)[i := no_entry]) = (map referent (entries wt))[i := 0]" by (simp add: map_update no_entry_def)
  have ne: "refs_ok (refs no_entry)" by (simp add: no_entry_def refs_ok_def live_def)
  have "\<forall>e\<in>set ((entries wt)[i := no_entry]). refs_ok (refs e)"
    using assms(1) ne set_update_subset_insert [of "entries wt" i no_entry] unfolding etable_ok_def by auto
  moreover have "length (live (map referent (entries wt))) = Suc (length (live ((map referent (entries wt))[i := 0])))"
      "distinct (live ((map referent (entries wt))[i := 0]))"
    using live_delete(2,3) [of i "map referent (entries wt)"] assms(2-4) d(1) by simp_all
  ultimately have ok: "etable_ok k ?w"
    using assms(1) placed_delete [OF d(3), of i] d(2) unfolding etable_ok_def by (simp add: m)
  have "heap_ready (Suc m) (weak_mem ?w)" using assms(5) by (simp split: weak_refs.split)
  then obtain wt' where "weak_compact_maybe ?w = Some wt'" "wt_ok wt'" "content (entries wt') = content (entries ?w)"
      "num_entries wt' = num_entries ?w" "heap_ready m (weak_mem wt')"
    using weak_compact_maybe_ok [OF ok] by blast
  moreover have "content (entries ?w) = (content (entries wt))(r := None)"
    using content_remove [OF d(1) assms(2-4), of no_entry] by (simp add: no_entry_def)
  ultimately show ?thesis by (simp add: weak_entry_remove_def)
qed

lemma remember_referrer_ok:
  assumes "weak_room (Suc n) wt" "r \<noteq> 0" "p \<noteq> 0" "p \<notin> weak_of wt r"
  shows "\<exists>wt'. remember_referrer r p wt = Some wt' \<and> weak_of wt' = (weak_of wt)(r := insert p (weak_of wt r)) \<and> weak_room n wt'"
proof -
  have b: "num_entries wt + Suc n < 2 ^ 60" "card (weak_of wt r) + Suc n < 2 ^ 60" using assms(1) unfolding weak_room_def by blast+
  have ok: "wt_ok wt" "num_entries wt < 2 ^ 60" "card (weak_of wt r) < 2 ^ 60" "heap_ready (Suc (Suc (2 * n))) (weak_mem wt)"
    using assms(1) b(1) add_lessD1 [OF b(2)] by (simp_all add: weak_room_def)
  have step: "weak_room n wt'" if "wt_ok wt'" "weak_of wt' = (weak_of wt)(r := insert p (weak_of wt r))"
      "num_entries wt' \<le> num_entries wt + 1" "heap_ready (2 * n) (weak_mem wt')" for wt'
    using weak_room_step [OF assms(1) that(1,2) _ that(3,4)] assms(4) by simp
  obtain f where f: "weak_entry_for_referent r wt = Some f" and fs: "case f of None \<Rightarrow> content (entries wt) r = None
     | Some i \<Rightarrow> weak_entries wt \<noteq> 0 \<and> i < length (entries wt) \<and> referent (entries wt ! i) = r"
    using weak_entry_for_referent_ok [OF ok(1) assms(2)] by blast
  show ?thesis
  proof (cases f)
    case (Some i)
    then have i: "weak_entries wt \<noteq> 0" "i < length (entries wt)" "referent (entries wt ! i) = r" using fs by auto
    obtain k where k: "etable_ok k wt" "content (entries wt) r = Some (refs (entries wt ! i))" "refs_ok (refs (entries wt ! i))"
      using entry_found [OF ok(1) i assms(2)] .
    then have w: "weak_of wt r = refs_set (refs (entries wt ! i))" by (simp add: weak_of_def)
    then obtain rs h where a: "append_referrer (refs (entries wt ! i)) p (weak_mem wt) = Some (rs, h)" "refs_ok rs"
        "refs_set rs = insert p (weak_of wt r)" "heap_ready (2 * n) h"
      using append_referrer_ok [OF k(3) assms(3) _ _ ok(4)] assms(4) ok(3) by auto
    note new = set_refs_ok [OF k(1) i(2,3) assms(2) a(2), where h = h]
    show ?thesis
      using step [OF etable_wt [OF new(1)]] weak_of_content [OF new(2)] new(3,7) a f Some by (simp add: remember_referrer_def)
  next
    case None
    then have c: "content (entries wt) r = None" using fs by simp
    obtain wt1 k where g: "weak_grow_maybe wt = Some wt1" "etable_ok k wt1" "num_entries wt1 + 1 < 2 ^ k"
        "content (entries wt1) = content (entries wt)" "num_entries wt1 = num_entries wt" "heap_ready (Suc (2 * n)) (weak_mem wt1)"
      using weak_grow_maybe_ok [OF ok(1,2,4)] by blast
    let ?e = "new_weak_entry r p"
    have e: "referent ?e = r" "refs_ok (refs ?e)" "refs_set (refs ?e) = {p}"
      using assms(3) by (auto simp: new_weak_entry_def refs_ok_def refs_set_def live_def)
    have "r \<notin> set (map referent (entries wt1))" using c g(4) assms(2) content_None [of "entries wt1" r] by simp
    then obtain wt' where w: "weak_entry_insert ?e wt1 = Some wt'" "etable_ok k wt'"
        "content (entries wt') = (content (entries wt1))(r \<mapsto> refs ?e)" "num_entries wt' = num_entries wt1 + 1" "weak_mem wt' = weak_mem wt1"
      using weak_entry_insert_ok [OF g(2) e(1) assms(2) _ e(2) g(3)] by blast
    have z: "weak_of wt r = {}" using c by (simp add: weak_of_def)
    have "weak_of wt' = (weak_of wt)(r := insert p (weak_of wt r))"
      using weak_of_content [of wt' wt r "Some (refs ?e)"] w(3) g(4) e(3) z by simp
    then show ?thesis
      using step [OF etable_wt [OF w(2)]] w g f None heap_ready_mono [OF g(6), of "2 * n"] by (simp add: remember_referrer_def)
  qed
qed

lemma looks_empty_iff: "refs_ok r \<Longrightarrow> looks_empty r \<longleftrightarrow> (\<exists>xs. r = Inline xs) \<and> refs_set r = {}"
  by (cases r)
    (auto simp: looks_empty_def inline_referrers_def refs_set_def live_def refs_ok_def rtable_ok_def undisguise_def
      list_all_iff filter_empty_conv)

definition has_out_of_line :: "u64 \<Rightarrow> weak_table_t \<Rightarrow> bool" where
  "has_out_of_line r wt \<longleftrightarrow> (\<exists>t. content (entries wt) r = Some (Out_of_line t))"

lemma unregister_keeps:
  assumes "weak_room (Suc n) wt" "r \<noteq> 0" "p \<noteq> 0"
  shows "\<exists>wt'. weak_unregister_no_lock r p wt = Some wt' \<and> weak_of wt' = (weak_of wt)(r := weak_of wt r - {p}) \<and> weak_room n wt' \<and>
    (has_out_of_line r wt \<longrightarrow> has_out_of_line r wt')"
proof -
  have ok: "wt_ok wt" "heap_ready (Suc (Suc (2 * n))) (weak_mem wt)" using assms(1) by (auto simp: weak_room_def)
  have step: "weak_room n wt'" if "wt_ok wt'" "weak_of wt' = (weak_of wt)(r := weak_of wt r - {p})"
      "num_entries wt' \<le> num_entries wt" "heap_ready (2 * n) (weak_mem wt')" for wt'
    using weak_room_step [OF assms(1) that(1,2)] that(3,4) card_Diff1_le [of "weak_of wt r" p] by simp
  obtain f where f: "weak_entry_for_referent r wt = Some f" and fs: "case f of None \<Rightarrow> content (entries wt) r = None
     | Some i \<Rightarrow> weak_entries wt \<noteq> 0 \<and> i < length (entries wt) \<and> referent (entries wt ! i) = r"
    using weak_entry_for_referent_ok [OF ok(1) assms(2)] by blast
  show ?thesis
  proof (cases f)
    case None
    then have z: "weak_of wt r = {}" using fs by (simp add: weak_of_def)
    then have "(weak_of wt)(r := weak_of wt r - {p}) = weak_of wt" by (simp add: fun_eq_iff)
    then show ?thesis
      using step [OF ok(1)] heap_ready_mono [OF ok(2), of "2 * n"] f None assms(2) by (simp add: weak_unregister_no_lock_def)
  next
    case (Some i)
    then have i: "weak_entries wt \<noteq> 0" "i < length (entries wt)" "referent (entries wt ! i) = r" using fs by auto
    obtain k where k: "etable_ok k wt" "content (entries wt) r = Some (refs (entries wt ! i))" "refs_ok (refs (entries wt ! i))"
      using entry_found [OF ok(1) i assms(2)] .
    then have w: "weak_of wt r = refs_set (refs (entries wt ! i))" by (simp add: weak_of_def)
    obtain rs h where a: "remove_referrer (refs (entries wt ! i)) p (weak_mem wt) = Some (rs, h)" "refs_ok rs"
        "refs_set rs = weak_of wt r - {p}" "\<forall>n. heap_ready n h = heap_ready n (weak_mem wt)"
        "case refs (entries wt ! i) of Inline xs \<Rightarrow> \<exists>ys. rs = Inline ys
         | Out_of_line t \<Rightarrow> \<exists>t'. rs = Out_of_line t' \<and> referrers t' = referrers t"
      using remove_referrer_ok [OF k(3) assms(3), of "weak_mem wt"] w by auto
    have out: "has_out_of_line r wt \<longrightarrow> (\<exists>t. rs = Out_of_line t)" using a(5) k(2) by (auto simp: has_out_of_line_def)
    note new = set_refs_ok [OF k(1) i(2,3) assms(2) a(2), where h = h]
    let ?w = "wt\<lparr>entries := (entries wt)[i := (entries wt ! i)\<lparr>refs := rs\<rparr>], weak_mem := h\<rparr>"
    have un: "weak_unregister_no_lock r p wt = (if looks_empty rs then weak_entry_remove i ?w else Some ?w)"
      using f Some assms(2) a(1) by (simp add: weak_unregister_no_lock_def)
    have hw: "heap_ready (Suc (Suc (2 * n))) (weak_mem ?w)" using a(4) ok(2) new(7) by simp
    show ?thesis
    proof (cases "looks_empty rs")
      case True
      then have z: "weak_of wt r - {p} = {}" and no: "\<not> has_out_of_line r wt" using looks_empty_iff [OF a(2)] a(3) out by auto
      obtain wt' where r: "weak_entry_remove i ?w = Some wt'" "wt_ok wt'" "content (entries wt') = (content (entries ?w))(r := None)"
          "num_entries wt' \<le> num_entries ?w" "heap_ready (Suc (2 * n)) (weak_mem wt')"
        using weak_entry_remove_ok [OF new(1,4,5) assms(2) hw] by blast
      have "content (entries wt') = (content (entries wt))(r := None)" unfolding r(3) new(2) by simp
      then have "weak_of wt' = (weak_of wt)(r := weak_of wt r - {p})" unfolding z using weak_of_content [of wt' wt r None] by simp
      then show ?thesis
        using step [OF r(2)] r(1,4) new(3) un True no heap_ready_mono [OF r(5), of "2 * n"] by simp
    next
      case False
      have "has_out_of_line r wt \<longrightarrow> has_out_of_line r ?w" using out new(2) unfolding has_out_of_line_def [of r ?w] by auto
      then show ?thesis using False
        using step [OF etable_wt [OF new(1)]] weak_of_content [OF new(2)] new(3) a(3) un heap_ready_mono [OF hw, of "2 * n"] by simp
    qed
  qed
qed

lemma unregister_ok:
  assumes "weak_room (Suc n) wt" "r \<noteq> 0" "p \<noteq> 0"
  shows "\<exists>wt'. weak_unregister_no_lock r p wt = Some wt' \<and> weak_of wt' = (weak_of wt)(r := weak_of wt r - {p}) \<and> weak_room n wt'"
  using unregister_keeps [OF assms] by blast

lemma zero_referrers_vars:
  "r \<noteq> 0 \<Longrightarrow> fst (zero_referrers r rs vars h) v = (if v \<in> set (live rs) \<and> vars v = r then 0 else vars v)"
  by (induction rs arbitrary: vars h) (auto simp: live_def)

lemma zero_referrers_heap: "heap_ready n (snd (zero_referrers r rs vars h)) = heap_ready n h"
  by (induction rs arbitrary: vars h) auto

lemma clear_referent_ok:
  assumes "weak_room (Suc n) wt" "r \<noteq> 0"
  shows "\<exists>vars' wt'. weak_clear_table r vars wt = Some (vars', wt') \<and> weak_of wt' = (weak_of wt)(r := {}) \<and> weak_room n wt' \<and>
    (\<forall>v. vars' v = (if v \<in> weak_of wt r \<and> vars v = r then 0 else vars v))"
proof -
  have ok: "wt_ok wt" "heap_ready (Suc (Suc (2 * n))) (weak_mem wt)" using assms(1) by (auto simp: weak_room_def)
  obtain f where f: "weak_entry_for_referent r wt = Some f" and fs: "case f of None \<Rightarrow> content (entries wt) r = None
     | Some i \<Rightarrow> weak_entries wt \<noteq> 0 \<and> i < length (entries wt) \<and> referent (entries wt ! i) = r"
    using weak_entry_for_referent_ok [OF ok(1) assms(2)] by blast
  show ?thesis
  proof (cases f)
    case None
    then have z: "weak_of wt r = {}" using fs by (simp add: weak_of_def)
    then have e: "(weak_of wt)(r := {}) = weak_of wt" by (simp add: fun_eq_iff)
    have "weak_room n wt" using weak_room_step [OF assms(1) ok(1), of r "{}"] e heap_ready_mono [OF ok(2), of "2 * n"] by simp
    then show ?thesis using f None z e by (simp add: weak_clear_table_def)
  next
    case (Some i)
    then have i: "weak_entries wt \<noteq> 0" "i < length (entries wt)" "referent (entries wt ! i) = r" using fs by auto
    obtain k where k: "etable_ok k wt" "content (entries wt) r = Some (refs (entries wt ! i))" "refs_ok (refs (entries wt ! i))"
      using entry_found [OF ok(1) i assms(2)] .
    define rs where "rs = (case refs (entries wt ! i) of Out_of_line t \<Rightarrow> take (TABLE_SIZE (rmask t)) (slots t) | Inline xs \<Rightarrow> xs)"
    have rs: "set (live rs) = weak_of wt r"
    proof (cases "refs (entries wt ! i)")
      case (Out_of_line t)
      then obtain j where j: "0 < j" "rmask t = 2 ^ j - 1" "length (slots t) = 2 ^ j"
        using k(3) by (auto simp: refs_ok_def rtable_ok_def placed_def)
      have "TABLE_SIZE (rmask t) = length (slots t)" unfolding j(2,3) by (rule TABLE_SIZE_pow [OF j(1)])
      then show ?thesis using Out_of_line k(2) by (simp add: rs_def weak_of_def refs_set_def)
    qed (use k(2) in \<open>simp add: rs_def weak_of_def refs_set_def\<close>)
    obtain vars' h where z: "zero_referrers r rs vars (weak_mem wt) = (vars', h)" by fastforce
    have h: "heap_ready (Suc (Suc (2 * n))) h" using zero_referrers_heap [of _ r rs vars "weak_mem wt"] z ok(2) by simp
    have v: "vars' v = (if v \<in> weak_of wt r \<and> vars v = r then 0 else vars v)" for v
      using zero_referrers_vars [OF assms(2), of rs vars "weak_mem wt" v] z rs by simp
    have "etable_ok k (wt\<lparr>weak_mem := h\<rparr>)" using k(1) by (simp add: etable_ok_def)
    then obtain wt' where w: "weak_entry_remove i (wt\<lparr>weak_mem := h\<rparr>) = Some wt'" "wt_ok wt'"
        "content (entries wt') = (content (entries wt))(r := None)" "num_entries wt' \<le> num_entries wt" "heap_ready (Suc (2 * n)) (weak_mem wt')"
      using weak_entry_remove_ok [of k "wt\<lparr>weak_mem := h\<rparr>" i r "Suc (2 * n)"] i(2,3) assms(2) h by auto
    have e: "weak_of wt' = (weak_of wt)(r := {})" using weak_of_content [OF w(3)] by simp
    have "weak_room n wt'"
      using weak_room_step [OF assms(1) w(2) e] w(4) heap_ready_mono [OF w(5), of "2 * n"] by simp
    then show ?thesis using f Some w(1) e v z by (simp add: weak_clear_table_def rs_def [symmetric])
  qed
qed

section \<open>The contract of a weak table\<close>

datatype weak_op = Register u64 u64 | Unregister u64 u64 | Clear u64

fun op_valid :: "weak_op \<Rightarrow> (u64 \<Rightarrow> u64 set) \<Rightarrow> bool" where
  "op_valid (Register r p) S = (r \<noteq> 0 \<and> p \<noteq> 0 \<and> p \<notin> S r)"
| "op_valid (Unregister r p) S = (r \<noteq> 0 \<and> p \<noteq> 0)"
| "op_valid (Clear r) S = (r \<noteq> 0)"

fun spec_weak_op :: "weak_op \<Rightarrow> (u64 \<Rightarrow> u64 set) \<times> (u64 \<Rightarrow> u64) \<Rightarrow> (u64 \<Rightarrow> u64 set) \<times> (u64 \<Rightarrow> u64)" where
  "spec_weak_op (Register r p) (S, vars) = (S(r := insert p (S r)), vars)"
| "spec_weak_op (Unregister r p) (S, vars) = (S(r := S r - {p}), vars)"
| "spec_weak_op (Clear r) (S, vars) = (S(r := {}), \<lambda>v. if v \<in> S r \<and> vars v = r then 0 else vars v)"

fun spec_weak_run :: "weak_op list \<Rightarrow> (u64 \<Rightarrow> u64 set) \<times> (u64 \<Rightarrow> u64) \<Rightarrow> ((u64 \<Rightarrow> u64 set) \<times> (u64 \<Rightarrow> u64)) option" where
  "spec_weak_run [] s = Some s"
| "spec_weak_run (a # as) s = (if op_valid a (fst s) then spec_weak_run as (spec_weak_op a s) else None)"

fun weak_run ::
  "(u64 \<Rightarrow> u64 \<Rightarrow> 't \<Rightarrow> 't option) \<Rightarrow> (u64 \<Rightarrow> u64 \<Rightarrow> 't \<Rightarrow> 't option) \<Rightarrow> (u64 \<Rightarrow> (u64 \<Rightarrow> u64) \<Rightarrow> 't \<Rightarrow> ((u64 \<Rightarrow> u64) \<times> 't) option) \<Rightarrow>
   weak_op list \<Rightarrow> (u64 \<Rightarrow> u64) \<times> 't \<Rightarrow> ((u64 \<Rightarrow> u64) \<times> 't) option" where
  "weak_run reg unreg clr [] s = Some s"
| "weak_run reg unreg clr (Register r p # as) (vars, t) =
     do { t' \<leftarrow> reg r p t; weak_run reg unreg clr as (vars, t') }"
| "weak_run reg unreg clr (Unregister r p # as) (vars, t) =
     do { t' \<leftarrow> unreg r p t; weak_run reg unreg clr as (vars, t') }"
| "weak_run reg unreg clr (Clear r # as) (vars, t) =
     do { s \<leftarrow> clr r vars t; weak_run reg unreg clr as s }"

locale weak_registry =
  fixes reg unreg :: "u64 \<Rightarrow> u64 \<Rightarrow> 't \<Rightarrow> 't option"
    and clr :: "u64 \<Rightarrow> (u64 \<Rightarrow> u64) \<Rightarrow> 't \<Rightarrow> ((u64 \<Rightarrow> u64) \<times> 't) option"
    and sets :: "'t \<Rightarrow> u64 \<Rightarrow> u64 set"
    and room :: "nat \<Rightarrow> 't \<Rightarrow> bool"
  assumes reg_law: "room (Suc n) t \<Longrightarrow> r \<noteq> 0 \<Longrightarrow> p \<noteq> 0 \<Longrightarrow> p \<notin> sets t r \<Longrightarrow>
      \<exists>t'. reg r p t = Some t' \<and> sets t' = (sets t)(r := insert p (sets t r)) \<and> room n t'"
    and unreg_law: "room (Suc n) t \<Longrightarrow> r \<noteq> 0 \<Longrightarrow> p \<noteq> 0 \<Longrightarrow>
      \<exists>t'. unreg r p t = Some t' \<and> sets t' = (sets t)(r := sets t r - {p}) \<and> room n t'"
    and clr_law: "room (Suc n) t \<Longrightarrow> r \<noteq> 0 \<Longrightarrow>
      \<exists>vars' t'. clr r vars t = Some (vars', t') \<and> sets t' = (sets t)(r := {}) \<and> room n t' \<and>
        (\<forall>v. vars' v = (if v \<in> sets t r \<and> vars v = r then 0 else vars v))"
begin

lemma run_refines:
  assumes "room (length as + n) t" "spec_weak_run as (sets t, vars) = Some (S, vars')"
  shows "\<exists>t'. weak_run reg unreg clr as (vars, t) = Some (vars', t') \<and> sets t' = S \<and> room n t'"
  using assms
proof (induction as arbitrary: t vars)
  case (Cons a as)
  have rm: "room (Suc (length as + n)) t" using Cons.prems(1) by simp
  have v: "op_valid a (sets t)" and s: "spec_weak_run as (spec_weak_op a (sets t, vars)) = Some (S, vars')"
    using Cons.prems(2) by (auto split: if_splits)
  show ?case
  proof (cases a)
    case (Register r p)
    then obtain t1 where t1: "reg r p t = Some t1" "sets t1 = (sets t)(r := insert p (sets t r))" "room (length as + n) t1"
      using reg_law [OF rm, of r p] v by auto
    have "spec_weak_run as (sets t1, vars) = Some (S, vars')" using s unfolding Register t1(2) spec_weak_op.simps .
    then show ?thesis using Cons.IH [OF t1(3)] t1(1) Register by simp
  next
    case (Unregister r p)
    then obtain t1 where t1: "unreg r p t = Some t1" "sets t1 = (sets t)(r := sets t r - {p})" "room (length as + n) t1"
      using unreg_law [OF rm, of r p] v by auto
    have "spec_weak_run as (sets t1, vars) = Some (S, vars')" using s unfolding Unregister t1(2) spec_weak_op.simps .
    then show ?thesis using Cons.IH [OF t1(3)] t1(1) Unregister by simp
  next
    case (Clear r)
    then obtain vars1 t1 where c: "clr r vars t = Some (vars1, t1)" "sets t1 = (sets t)(r := {})" "room (length as + n) t1"
        "\<forall>v. vars1 v = (if v \<in> sets t r \<and> vars v = r then 0 else vars v)"
      using clr_law [OF rm, of r vars] v by auto
    have vars1: "vars1 = (\<lambda>v. if v \<in> sets t r \<and> vars v = r then 0 else vars v)" using c(4) by (intro ext) simp
    have "spec_weak_run as (sets t1, vars1) = Some (S, vars')" using s unfolding Clear c(2) vars1 spec_weak_op.simps .
    then show ?thesis using Cons.IH [OF c(3)] c(1) Clear by simp
  qed
qed simp

end

interpretation wtab: weak_registry remember_referrer weak_unregister_no_lock weak_clear_table weak_of weak_room
  by unfold_locales (fact remember_referrer_ok unregister_ok clear_referent_ok)+

section \<open>Properties\<close>

definition empty_weak_table :: "u64 list \<Rightarrow> weak_table_t" where
  "empty_weak_table addresses =
     \<lparr>weak_entries = 0, entries = [], num_entries = 0, wmask = 0, wmax_hash_displacement = 0,
      weak_mem = \<lparr>callocs = addresses, frees = [], weak_errors = []\<rparr>\<rparr>"

lemma weak_of_empty [simp]: "weak_of (empty_weak_table addresses) = (\<lambda>r. {})"
  by (simp add: fun_eq_iff weak_of_def empty_weak_table_def)

lemma empty_weak_room: "2 * n \<le> length addresses \<Longrightarrow> 0 \<notin> set addresses \<Longrightarrow> n < 2 ^ 60 \<Longrightarrow> weak_room n (empty_weak_table addresses)"
  unfolding weak_room_def weak_of_empty by (simp add: wt_ok_def heap_ready_def empty_weak_table_def)

text \<open>
  C26: the weak table implements a map from objects to sets of weak variables. A sequence of
  registrations of new variables, removals and clearings, with memory to be had for them,
  aborts nowhere, and ends with the sets and with the values of the weak variables that the
  specification says: clearing an object sets exactly those of its variables to nil that
  still refer to it. This covers entries inline and out of line, growing and shrinking of
  both kinds of tables, and slots that removals have emptied.
\<close>

theorem weak_table_refines_sets:
  assumes "weak_room (length as) t" "spec_weak_run as (weak_of t, vars) = Some (S, vars')"
  shows "\<exists>t'. weak_run remember_referrer weak_unregister_no_lock weak_clear_table as (vars, t) = Some (vars', t') \<and> weak_of t' = S"
  using wtab.run_refines [of as 0 t vars S vars'] assms by auto

theorem weak_table_refines_sets_witness:
  "\<exists>t'. weak_run remember_referrer weak_unregister_no_lock weak_clear_table
      [Register 16 8, Register 16 24, Register 32 40, Unregister 16 24, Clear 16]
      ((\<lambda>v. 0)(8 := 16, 24 := 16), empty_weak_table (replicate 10 4096)) = Some ((\<lambda>v. 0)(24 := 16), t') \<and> weak_of t' 32 = {40}"
proof -
  let ?as = "[Register 16 8, Register 16 24, Register 32 40, Unregister 16 24, Clear 16]"
  have "weak_room (length ?as) (empty_weak_table (replicate 10 4096))" by (rule empty_weak_room) simp_all
  moreover have "spec_weak_run ?as (weak_of (empty_weak_table (replicate 10 4096)), (\<lambda>v. 0)(8 := 16, 24 := 16)) =
      Some (\<lambda>r. if r = 32 then {40} else {}, (\<lambda>v. 0)(24 := 16))"
    by (auto simp: fun_eq_iff)
  ultimately show ?thesis
    using weak_table_refines_sets [of ?as "empty_weak_table (replicate 10 4096)" "(\<lambda>v. 0)(8 := 16, 24 := 16)"] by force
qed

lemma many_out_of_line:
  assumes "wt_ok wt" "4 < card (weak_of wt r)"
  shows "has_out_of_line r wt" "r \<noteq> 0"
proof -
  obtain rs where rs: "content (entries wt) r = Some rs" "4 < card (refs_set rs)"
    using assms(2) by (auto simp: weak_of_def split: option.splits)
  then have "r \<noteq> 0" "r \<in> set (map referent (entries wt))" using content_None [of "entries wt" r] by auto
  then obtain i where i: "r \<noteq> 0" "i < length (entries wt)" "referent (entries wt ! i) = r" by (auto simp: in_set_conv_nth)
  have "weak_entries wt \<noteq> 0" using assms(1) i(2) by (auto simp: wt_ok_def)
  then have ok: "refs_ok rs" using entry_found [OF assms(1) _ i(2,3,1)] rs(1) by (metis option.inject)
  have "card (refs_set (Inline xs)) \<le> 4" if "length xs = 4" for xs
    using card_length [of "live xs"] live_le [of xs] that by (simp add: refs_set_def)
  then show "has_out_of_line r wt" using ok rs by (cases rs) (auto simp: has_out_of_line_def refs_ok_def not_le [symmetric])
  show "r \<noteq> 0" using i(1) .
qed

lemma out_of_line_registered:
  assumes "wt_ok wt" "r \<noteq> 0" "has_out_of_line r wt"
  shows "weak_is_registered_no_lock r wt = Some True"
  using weak_entry_for_referent_ok [OF assms(1,2)] assms(3)
  by (auto simp: weak_is_registered_no_lock_def has_out_of_line_def split: option.splits)

lemma unregister_all_keeps:
  assumes "weak_room (length ps + n) t" "r \<noteq> 0" "0 \<notin> set ps" "has_out_of_line r t"
  shows "\<exists>t'. weak_run remember_referrer weak_unregister_no_lock weak_clear_table (map (Unregister r) ps) (vars, t) = Some (vars, t') \<and>
    weak_of t' r = weak_of t r - set ps \<and> weak_room n t' \<and> has_out_of_line r t'"
  using assms
proof (induction ps arbitrary: t)
  case (Cons p ps)
  then obtain t1 where t1: "weak_unregister_no_lock r p t = Some t1" "weak_of t1 = (weak_of t)(r := weak_of t r - {p})"
      "weak_room (length ps + n) t1" "has_out_of_line r t1"
    using unregister_keeps [of "length ps + n" t r p] by auto
  then show ?case using Cons.IH [OF t1(3) Cons.prems(2) _ t1(4)] Cons.prems(3) by auto
qed simp

text \<open>
  C28: once an object has more than four weak variables, its entry stays when they are
  unregistered, even when no variable is left: the test for an empty entry reads the pointer
  to the table of referrers as an inline referrer.
\<close>

theorem emptied_entry_stays:
  assumes "weak_room (length ps) t" "4 < card (weak_of t r)" "0 \<notin> set ps"
  shows "\<exists>t'. weak_run remember_referrer weak_unregister_no_lock weak_clear_table (map (Unregister r) ps) (vars, t) = Some (vars, t') \<and>
    weak_of t' r = weak_of t r - set ps \<and> weak_is_registered_no_lock r t' = Some True"
proof -
  have ok: "wt_ok t" using assms(1) by (simp add: weak_room_def)
  note many = many_out_of_line [OF ok assms(2)]
  obtain t' where t': "weak_run remember_referrer weak_unregister_no_lock weak_clear_table (map (Unregister r) ps) (vars, t) = Some (vars, t')"
      "weak_of t' r = weak_of t r - set ps" "weak_room 0 t'" "has_out_of_line r t'"
    using unregister_all_keeps [of ps 0 t r vars] assms(1,3) many by auto
  then show ?thesis using out_of_line_registered [OF _ many(2) t'(4)] by (auto simp: weak_room_def)
qed

theorem emptied_entry_stays_witness:
  "\<exists>t t'. weak_run remember_referrer weak_unregister_no_lock weak_clear_table (map (Register 16) [8, 24, 32, 40, 48])
      (\<lambda>v. 0, empty_weak_table (replicate 20 4096)) = Some (\<lambda>v. 0, t) \<and>
    weak_run remember_referrer weak_unregister_no_lock weak_clear_table (map (Unregister 16) [8, 24, 32, 40, 48]) (\<lambda>v. 0, t) =
      Some (\<lambda>v. 0, t') \<and> weak_of t' 16 = {} \<and> weak_is_registered_no_lock 16 t' = Some True"
proof -
  let ?ps = "[8, 24, 32, 40, 48 :: u64]"
  have "weak_room (length (map (Register 16) ?ps) + 5) (empty_weak_table (replicate 20 4096))" by (rule empty_weak_room) simp_all
  moreover have "spec_weak_run (map (Register 16) ?ps) (weak_of (empty_weak_table (replicate 20 4096)), \<lambda>v. 0) =
      Some (\<lambda>r. if r = 16 then {8, 24, 32, 40, 48} else {}, \<lambda>v. 0)"
    by (auto simp: fun_eq_iff)
  ultimately obtain t where t: "weak_run remember_referrer weak_unregister_no_lock weak_clear_table (map (Register 16) ?ps)
      (\<lambda>v. 0, empty_weak_table (replicate 20 4096)) = Some (\<lambda>v. 0, t)"
      "weak_of t = (\<lambda>r. if r = 16 then {8, 24, 32, 40, 48} else {})" "weak_room 5 t"
    using wtab.run_refines [of "map (Register 16) ?ps" 5 "empty_weak_table (replicate 20 4096)" "\<lambda>v. 0"] by blast
  have "weak_of t 16 = {8, 24, 32, 40, 48}" using t(2) by simp
  moreover have "weak_room (length ?ps) t" using t(3) by (simp add: numeral_eq_Suc)
  ultimately show ?thesis using emptied_entry_stays [of ?ps t 16 "\<lambda>v. 0"] t(1) by auto
qed

text \<open>
  C27: the map of weak references in the model of side tables is a faithful abstraction of this
  table when an object is cleared: if both hold the same variables for the object, clearing it
  leaves the weak variables with the same values and both without variables for it.
\<close>

theorem weak_clear_simulates:
  assumes "weak_room (Suc n) t" "obj \<noteq> 0" "weak_of t obj = set (weak_referrers c obj st)"
  shows "\<exists>t'. weak_clear_table obj (weak_vars st) t = Some (weak_vars (weak_clear_no_lock c obj st), t') \<and> weak_room n t' \<and>
    weak_of t' = (weak_of t)(obj := set (weak_referrers c obj (weak_clear_no_lock c obj st)))"
proof -
  obtain vars t' where c: "weak_clear_table obj (weak_vars st) t = Some (vars, t')" "weak_of t' = (weak_of t)(obj := {})" "weak_room n t'"
      "\<forall>v. vars v = (if v \<in> weak_of t obj \<and> weak_vars st v = obj then 0 else weak_vars st v)"
    using clear_referent_ok [OF assms(1,2)] by blast
  have "vars = weak_vars (weak_clear_no_lock c obj st)" using c(4) assms(3) by (intro ext) (simp add: weak_clear_effect(1))
  moreover have "weak_referrers c obj (weak_clear_no_lock c obj st) = []"
    using weak_clear_effect(2) [of c obj obj st] by (simp add: weak_referrers_def)
  ultimately show ?thesis using c(1-3) by simp
qed

theorem weak_clear_simulates_witness:
  "\<exists>t t' st. weak_run remember_referrer weak_unregister_no_lock weak_clear_table [Register 64 8]
      (\<lambda>v. 0, empty_weak_table (replicate 4 4096)) = Some (\<lambda>v. 0, t) \<and> weak_vars st 8 = 64 \<and>
    weak_clear_table 64 (weak_vars st) t = Some (weak_vars (weak_clear_no_lock sample_cfg 64 st), t') \<and>
    weak_vars (weak_clear_no_lock sample_cfg 64 st) 8 = 0"
proof -
  let ?st = "\<lparr>isa_mem = (\<lambda>a. 0), SideTables = (\<lambda>i. \<lparr>slock = True, refcnts = Map.empty, weak_table = [64 \<mapsto> [8]]\<rparr>),
    weak_vars = (\<lambda>v. 0)(8 := 64), messages = [], others_delta = 0\<rparr>"
  have "weak_room (length [Register 64 8] + 1) (empty_weak_table (replicate 4 4096))" by (rule empty_weak_room) simp_all
  moreover have "spec_weak_run [Register 64 8] (weak_of (empty_weak_table (replicate 4 4096)), \<lambda>v. 0) =
      Some ((\<lambda>r. {})(64 := {8}), \<lambda>v. 0)" by simp
  ultimately obtain t where t: "weak_run remember_referrer weak_unregister_no_lock weak_clear_table [Register 64 8]
      (\<lambda>v. 0, empty_weak_table (replicate 4 4096)) = Some (\<lambda>v. 0, t)" "weak_of t = (\<lambda>r. {})(64 := {8})" "weak_room (Suc 0) t"
    using wtab.run_refines [of "[Register 64 8]" 1 "empty_weak_table (replicate 4 4096)" "\<lambda>v. 0"] by auto
  have r: "weak_referrers sample_cfg 64 ?st = [8]" by (simp add: weak_referrers_def table_of_def)
  then have z: "weak_vars (weak_clear_no_lock sample_cfg 64 ?st) 8 = 0" by (simp add: weak_clear_effect(1))
  have "weak_of t 64 = set (weak_referrers sample_cfg 64 ?st)" using t(2) r by simp
  then obtain t' where "weak_clear_table 64 (weak_vars ?st) t = Some (weak_vars (weak_clear_no_lock sample_cfg 64 ?st), t')"
    using weak_clear_simulates [OF t(3), of 64 sample_cfg ?st] by auto
  then show ?thesis using t(1) z by (intro exI [of _ t] exI [of _ t'] exI [of _ ?st]) simp
qed

end
