(* ===== verification/WeakVars.thy ===== *)
theory WeakVars
  imports WeakTable
begin

text \<open>
  The entry points for weak variables (\<^verbatim>\<open>NSObject.mm\<close>: \<open>storeWeak\<close> and the functions built on it,
  \<open>objc_moveWeak\<close>), over the tables of \<open>WeakTable\<close>. One thread runs at a time, so a lock that is
  taken is free and a variable does not change between its load and the test after locking.
  The class of an object and what the runtime finds out about it before it forms a weak
  reference are parameters. Running \<^verbatim>\<open>+initialize\<close> of a class is a parameter as well: it may do
  anything to the weak variables.
\<close>

section \<open>Weak variables\<close>

record weak_state =
  wtables :: "nat \<Rightarrow> weak_table_t"
  wvars :: "u64 \<Rightarrow> u64"
  marked :: "u64 list"
  weak_calls :: "u64 list"

record weak_env =
  stripe :: "u64 \<Rightarrow> nat"
  info :: "u64 \<Rightarrow> referent_info"
  class_of_obj :: "u64 \<Rightarrow> u64"
  isInitialized :: "u64 \<Rightarrow> weak_state \<Rightarrow> bool"
  class_initialize :: "u64 \<Rightarrow> u64 \<Rightarrow> weak_state \<Rightarrow> weak_state"
  object_isClass :: "u64 \<Rightarrow> bool"
  implements_setWeaklyReferenced :: "u64 \<Rightarrow> bool"

definition set_wtable :: "weak_env \<Rightarrow> u64 \<Rightarrow> weak_table_t \<Rightarrow> weak_state \<Rightarrow> weak_state" where
  "set_wtable E obj t st = st\<lparr>wtables := (wtables st)(stripe E obj := t)\<rparr>"

definition setWeaklyReferenced :: "u64 \<Rightarrow> weak_state \<Rightarrow> weak_state" where
  "setWeaklyReferenced obj st = st\<lparr>marked := marked st @ [obj]\<rparr>"

definition callSetWeaklyReferenced :: "weak_env \<Rightarrow> u64 \<Rightarrow> weak_state \<Rightarrow> weak_state" where
  "callSetWeaklyReferenced E obj st =
     (if obj = 0 then st
      else if customRR (info E obj) \<and> \<not> object_isClass E obj \<and> implements_setWeaklyReferenced E (class_of_obj E obj)
      then st\<lparr>weak_calls := weak_calls st @ [obj]\<rparr>
      else st)"

definition clean_up_old :: "weak_env \<Rightarrow> bool \<Rightarrow> u64 \<Rightarrow> weak_state \<Rightarrow> weak_state option" where
  "clean_up_old E haveOld location st =
     (if haveOld then do {
        let oldObj = wvars st location;
        t \<leftarrow> weak_unregister_no_lock oldObj location (wtables st (stripe E oldObj));
        Some (set_wtable E oldObj t st) }
      else Some st)"

definition assign_new :: "weak_env \<Rightarrow> bool \<Rightarrow> bool \<Rightarrow> u64 \<Rightarrow> u64 \<Rightarrow> weak_state \<Rightarrow> (u64 \<times> weak_state) option" where
  "assign_new E haveNew crashIfDeallocating location newObj st =
     (if haveNew then do {
        (obj, t) \<leftarrow> weak_register_no_lock (info E newObj) newObj location
          (if crashIfDeallocating then CrashIfDeallocating else ReturnNilIfDeallocating) (wtables st (stripe E newObj));
        let st1 = set_wtable E newObj t st;
        let st2 = (if taggedOrNil (info E obj) then st1 else setWeaklyReferenced obj st1);
        Some (obj, st2\<lparr>wvars := (wvars st2)(location := obj)\<rparr>) }
      else Some (newObj, st))"

text \<open>
  After \<^verbatim>\<open>+initialize\<close> the function starts again and, since the class is now the one recorded as
  initialized, goes on.
\<close>

definition initialize_class :: "weak_env \<Rightarrow> bool \<Rightarrow> u64 \<Rightarrow> weak_state \<Rightarrow> weak_state" where
  "initialize_class E haveNew newObj st =
     (if haveNew \<and> newObj \<noteq> 0 \<and> \<not> isInitialized E (class_of_obj E newObj) st
      then class_initialize E (class_of_obj E newObj) newObj st else st)"

definition storeWeak :: "weak_env \<Rightarrow> bool \<Rightarrow> bool \<Rightarrow> bool \<Rightarrow> u64 \<Rightarrow> u64 \<Rightarrow> weak_state \<Rightarrow> (u64 \<times> weak_state) option" where
  "storeWeak E haveOld haveNew crashIfDeallocating location newObj st = do {
     assert_opt (haveOld \<or> haveNew);
     assert_opt (haveNew \<or> newObj = 0);
     st1 \<leftarrow> clean_up_old E haveOld location (initialize_class E haveNew newObj st);
     (obj, st2) \<leftarrow> assign_new E haveNew crashIfDeallocating location newObj st1;
     Some (obj, callSetWeaklyReferenced E obj st2)
   }"

definition objc_storeWeak :: "weak_env \<Rightarrow> u64 \<Rightarrow> u64 \<Rightarrow> weak_state \<Rightarrow> (u64 \<times> weak_state) option" where
  "objc_storeWeak E location newObj = storeWeak E True True True location newObj"

definition objc_storeWeakOrNil :: "weak_env \<Rightarrow> u64 \<Rightarrow> u64 \<Rightarrow> weak_state \<Rightarrow> (u64 \<times> weak_state) option" where
  "objc_storeWeakOrNil E location newObj = storeWeak E True True False location newObj"

definition objc_initWeak :: "weak_env \<Rightarrow> u64 \<Rightarrow> u64 \<Rightarrow> weak_state \<Rightarrow> (u64 \<times> weak_state) option" where
  "objc_initWeak E location newObj st =
     (if newObj = 0 then Some (0, st\<lparr>wvars := (wvars st)(location := 0)\<rparr>)
      else storeWeak E False True True location newObj st)"

definition objc_initWeakOrNil :: "weak_env \<Rightarrow> u64 \<Rightarrow> u64 \<Rightarrow> weak_state \<Rightarrow> (u64 \<times> weak_state) option" where
  "objc_initWeakOrNil E location newObj st =
     (if newObj = 0 then Some (0, st\<lparr>wvars := (wvars st)(location := 0)\<rparr>)
      else storeWeak E False True False location newObj st)"

definition objc_destroyWeak :: "weak_env \<Rightarrow> u64 \<Rightarrow> weak_state \<Rightarrow> weak_state option" where
  "objc_destroyWeak E location st = map_option snd (storeWeak E True False False location 0 st)"

definition objc_moveWeak :: "weak_env \<Rightarrow> u64 \<Rightarrow> u64 \<Rightarrow> weak_state \<Rightarrow> weak_state option" where
  "objc_moveWeak E dst src st =
     (let obj = wvars st src in
      if obj = 0 then Some (st\<lparr>wvars := (wvars st)(dst := 0)\<rparr>)
      else do {
        t \<leftarrow> weak_unregister_no_lock obj src (wtables st (stripe E obj));
        (r, t') \<leftarrow> weak_register_no_lock (info E obj) obj dst DontCheckDeallocating t;
        Some ((set_wtable E obj t' st)\<lparr>wvars := (wvars st)(dst := obj, src := 0)\<rparr>) })"

text \<open>The part of deallocation that concerns weak variables.\<close>

definition clear_weak :: "weak_env \<Rightarrow> u64 \<Rightarrow> weak_state \<Rightarrow> weak_state option" where
  "clear_weak E obj st = do {
     (vars, t) \<leftarrow> weak_clear_table obj (wvars st) (wtables st (stripe E obj));
     Some ((set_wtable E obj t st)\<lparr>wvars := vars\<rparr>) }"

section \<open>Registration follows the variables\<close>

text \<open>
  \<open>W\<close> is the set of weak variables in use. A variable is registered for an object just
  when it is in use and refers to the object.
\<close>

definition holders :: "weak_env \<Rightarrow> u64 set \<Rightarrow> (u64 \<Rightarrow> u64) \<Rightarrow> u64 \<Rightarrow> u64 set" where
  "holders E W vars r = (if taggedOrNil (info E r) then {} else {p \<in> W. vars p = r})"

definition weak_consistent :: "weak_env \<Rightarrow> u64 set \<Rightarrow> weak_state \<Rightarrow> bool" where
  "weak_consistent E W st \<longleftrightarrow> 0 \<notin> W \<and> (\<forall>r. r \<noteq> 0 \<longrightarrow> weak_of (wtables st (stripe E r)) r = holders E W (wvars st) r)"

definition weak_vroom :: "nat \<Rightarrow> weak_state \<Rightarrow> bool" where
  "weak_vroom n st \<longleftrightarrow> (\<forall>s. weak_room n (wtables st s))"

definition env_ok :: "weak_env \<Rightarrow> bool" where
  "env_ok E \<longleftrightarrow> taggedOrNil (info E 0) \<and>
     (\<forall>n W cls obj st. weak_consistent E W st \<and> weak_vroom n st \<longrightarrow>
        weak_consistent E W (class_initialize E cls obj st) \<and> weak_vroom n (class_initialize E cls obj st))"

lemma weak_room_mono: "weak_room (Suc n) t \<Longrightarrow> weak_room n t"
proof -
  assume r: "weak_room (Suc n) t"
  have "card (weak_of t x) + n < 2 ^ 60" for x
  proof -
    have "card (weak_of t x) + Suc n < 2 ^ 60" using r unfolding weak_room_def by blast
    then show ?thesis by linarith
  qed
  moreover have "num_entries t + Suc n < 2 ^ 60" using r unfolding weak_room_def by blast
  ultimately show ?thesis using r heap_ready_mono [of "2 * Suc n" "weak_mem t" "2 * n"] unfolding weak_room_def by simp
qed

lemma weak_vroom_mono: "weak_vroom (Suc n) st \<Longrightarrow> weak_vroom n st"
  by (simp add: weak_vroom_def weak_room_mono)

lemma weak_vroom_set: "weak_vroom (Suc n) st \<Longrightarrow> weak_room n t \<Longrightarrow> weak_vroom n (set_wtable E r t st)"
  by (simp add: weak_vroom_def set_wtable_def weak_room_mono)

lemma frame_simps [simp]:
  "wvars (set_wtable E r t st) = wvars st"
  "wtables (setWeaklyReferenced obj st) = wtables st" "wvars (setWeaklyReferenced obj st) = wvars st"
  "wtables (callSetWeaklyReferenced E obj st) = wtables st" "wvars (callSetWeaklyReferenced E obj st) = wvars st"
  by (simp_all add: set_wtable_def setWeaklyReferenced_def callSetWeaklyReferenced_def)

lemma consistent_cong:
  "wtables st' = wtables st \<Longrightarrow> wvars st' = wvars st \<Longrightarrow> weak_consistent E W st' = weak_consistent E W st"
  "wtables st' = wtables st \<Longrightarrow> weak_vroom n st' = weak_vroom n st"
  by (simp_all add: weak_consistent_def weak_vroom_def)

lemma consistent_update:
  assumes "weak_consistent E W st" "weak_of t = (weak_of (wtables st (stripe E r)))(r := holders E W' vars r)"
    "\<And>x. x \<noteq> 0 \<Longrightarrow> x \<noteq> r \<Longrightarrow> holders E W' vars x = holders E W (wvars st) x" "0 \<notin> W'"
  shows "weak_consistent E W' ((set_wtable E r t st)\<lparr>wvars := vars\<rparr>)"
  unfolding weak_consistent_def
proof (intro conjI allI impI)
  fix x :: u64
  assume x: "x \<noteq> 0"
  have c: "weak_of (wtables st (stripe E x)) x = holders E W (wvars st) x" using assms(1) x by (simp add: weak_consistent_def)
  show "weak_of (wtables ((set_wtable E r t st)\<lparr>wvars := vars\<rparr>) (stripe E x)) x =
      holders E W' (wvars ((set_wtable E r t st)\<lparr>wvars := vars\<rparr>)) x"
    using c assms(2) assms(3) [OF x] by (cases "x = r"; cases "stripe E x = stripe E r") (simp_all add: set_wtable_def)
qed (use assms(4) in simp)

section \<open>Storing\<close>

definition fatal :: "weak_env \<Rightarrow> bool \<Rightarrow> u64 \<Rightarrow> bool" where
  "fatal E crash obj \<longleftrightarrow> crash \<and> \<not> taggedOrNil (info E obj) \<and>
     (if customRR (info E obj) then allowsWeakReference (info E obj) = Some False else deallocating_root (info E obj))"

definition stored :: "weak_env \<Rightarrow> u64 \<Rightarrow> u64" where
  "stored E obj =
     (if taggedOrNil (info E obj) then obj
      else if customRR (info E obj) then if allowsWeakReference (info E obj) = Some True then obj else 0
      else if deallocating_root (info E obj) then 0 else obj)"

lemma register_cases:
  "\<not> fatal E crash obj \<Longrightarrow>
   weak_register_no_lock (info E obj) obj p (if crash then CrashIfDeallocating else ReturnNilIfDeallocating) t =
     (if taggedOrNil (info E obj) \<or> stored E obj \<noteq> obj then Some (stored E obj, t)
      else map_option (\<lambda>t'. (obj, t')) (remember_referrer obj p t))"
  if "obj \<noteq> 0"
  using that
  by (cases "allowsWeakReference (info E obj)") (auto simp: weak_register_no_lock_def fatal_def stored_def)

lemma drop_old:
  assumes "weak_consistent E W st" "weak_vroom (Suc n) st" "p \<in> W"
  shows "\<exists>t. weak_unregister_no_lock (wvars st p) p (wtables st (stripe E (wvars st p))) = Some t \<and>
    weak_consistent E (W - {p}) (set_wtable E (wvars st p) t st) \<and> weak_vroom n (set_wtable E (wvars st p) t st)"
proof (cases "wvars st p = 0")
  case True
  have "set_wtable E 0 (wtables st (stripe E 0)) st = st" by (simp add: set_wtable_def)
  moreover have "weak_consistent E (W - {p}) st" using assms(1) True by (auto simp: weak_consistent_def holders_def)
  ultimately show ?thesis using True weak_vroom_mono [OF assms(2)] by (simp add: weak_unregister_no_lock_def)
next
  case False
  let ?r = "wvars st p"
  have "p \<noteq> 0" using assms(1,3) by (auto simp: weak_consistent_def)
  then obtain t where t: "weak_unregister_no_lock ?r p (wtables st (stripe E ?r)) = Some t"
      "weak_of t = (weak_of (wtables st (stripe E ?r)))(?r := weak_of (wtables st (stripe E ?r)) ?r - {p})" "weak_room n t"
    using unregister_ok [of n "wtables st (stripe E ?r)" ?r p] False assms(2) by (auto simp: weak_vroom_def)
  have "weak_of (wtables st (stripe E ?r)) ?r - {p} = holders E (W - {p}) (wvars st) ?r"
    using assms(1) False by (auto simp: weak_consistent_def holders_def)
  then have "weak_consistent E (W - {p}) ((set_wtable E ?r t st)\<lparr>wvars := wvars st\<rparr>)"
    using t(2) assms(1) by (intro consistent_update [OF assms(1)]) (auto simp: holders_def weak_consistent_def)
  moreover have "(set_wtable E ?r t st)\<lparr>wvars := wvars st\<rparr> = set_wtable E ?r t st" by (cases st) (simp add: set_wtable_def)
  ultimately have "weak_consistent E (W - {p}) (set_wtable E ?r t st)" by simp
  then show ?thesis using t(1) weak_vroom_set [OF assms(2) t(3)] by blast
qed

lemma add_core:
  assumes "weak_consistent E W st" "weak_vroom (Suc n) st" "p \<notin> W" "p \<noteq> 0" "\<not> taggedOrNil (info E obj)" "obj \<noteq> 0"
  shows "\<exists>t. remember_referrer obj p (wtables st (stripe E obj)) = Some t \<and>
    weak_consistent E (insert p W) ((set_wtable E obj t st)\<lparr>wvars := (wvars st)(p := obj)\<rparr>) \<and>
    weak_vroom n ((set_wtable E obj t st)\<lparr>wvars := (wvars st)(p := obj)\<rparr>)"
proof -
  have w: "weak_of (wtables st (stripe E obj)) obj = holders E W (wvars st) obj" using assms(1,6) by (simp add: weak_consistent_def)
  then have "p \<notin> weak_of (wtables st (stripe E obj)) obj" using assms(3) by (simp add: holders_def)
  then obtain t where t: "remember_referrer obj p (wtables st (stripe E obj)) = Some t"
      "weak_of t = (weak_of (wtables st (stripe E obj)))(obj := insert p (weak_of (wtables st (stripe E obj)) obj))" "weak_room n t"
    using remember_referrer_ok [of n "wtables st (stripe E obj)" obj p] assms(2,4,6) by (auto simp: weak_vroom_def)
  have e: "insert p (holders E W (wvars st) obj) = holders E (insert p W) ((wvars st)(p := obj)) obj"
    using assms(3,5) by (auto simp: holders_def)
  have "weak_consistent E (insert p W) ((set_wtable E obj t st)\<lparr>wvars := (wvars st)(p := obj)\<rparr>)"
    using assms(1,3,4) t(2) w e
    by (intro consistent_update [OF assms(1)]) (auto simp: holders_def weak_consistent_def)
  moreover have "weak_vroom n ((set_wtable E obj t st)\<lparr>wvars := (wvars st)(p := obj)\<rparr>)"
    using weak_vroom_set [OF assms(2) t(3), of E obj] by (simp add: weak_vroom_def)
  ultimately show ?thesis using t(1) by blast
qed

lemma add_new:
  assumes "weak_consistent E W st" "weak_vroom (Suc n) st" "p \<notin> W" "p \<noteq> 0" "\<not> fatal E crash obj" "env_ok E"
  shows "\<exists>t. weak_register_no_lock (info E obj) obj p (if crash then CrashIfDeallocating else ReturnNilIfDeallocating)
      (wtables st (stripe E obj)) = Some (stored E obj, t) \<and>
    weak_consistent E (insert p W) ((set_wtable E obj t st)\<lparr>wvars := (wvars st)(p := stored E obj)\<rparr>) \<and>
    weak_vroom n ((set_wtable E obj t st)\<lparr>wvars := (wvars st)(p := stored E obj)\<rparr>)"
proof (cases "taggedOrNil (info E obj) \<or> stored E obj \<noteq> obj")
  case True
  then have z: "taggedOrNil (info E (stored E obj))" using assms(6) by (auto simp: stored_def env_ok_def split: if_splits)
  have "weak_register_no_lock (info E obj) obj p (if crash then CrashIfDeallocating else ReturnNilIfDeallocating)
      (wtables st (stripe E obj)) = Some (stored E obj, wtables st (stripe E obj))"
    using register_cases [OF _ assms(5)] True assms(6) by (cases "obj = 0") (auto simp: weak_register_no_lock_def env_ok_def stored_def)
  moreover have "set_wtable E obj (wtables st (stripe E obj)) st = st" by (simp add: set_wtable_def)
  moreover have "weak_consistent E (insert p W) (st\<lparr>wvars := (wvars st)(p := stored E obj)\<rparr>)"
    using assms(1,3,4) z by (auto simp: weak_consistent_def holders_def)
  moreover have "weak_vroom n (st\<lparr>wvars := (wvars st)(p := stored E obj)\<rparr>)"
    using weak_vroom_mono [OF assms(2)] by (simp add: weak_vroom_def)
  ultimately show ?thesis by simp
next
  case False
  then have s: "stored E obj = obj" "\<not> taggedOrNil (info E obj)" and nz: "obj \<noteq> 0" using assms(6) by (auto simp: env_ok_def)
  show ?thesis using add_core [OF assms(1-4) s(2) nz] register_cases [OF nz assms(5)] False s by auto
qed

section \<open>The entry points keep the registration\<close>

lemma consistent_nil:
  assumes "weak_consistent E W st" "p \<noteq> 0"
  shows "p \<notin> W \<Longrightarrow> weak_consistent E (insert p W) (st\<lparr>wvars := (wvars st)(p := 0)\<rparr>)"
  using assms by (auto simp: weak_consistent_def holders_def)

lemma storeWeak_ok:
  assumes "env_ok E" "weak_consistent E W st" "weak_vroom (Suc (Suc n)) st" "p \<noteq> 0" "\<not> fatal E crash obj"
  shows "\<exists>st'. storeWeak E (p \<in> W) True crash p obj st = Some (stored E obj, st') \<and>
    weak_consistent E (insert p W) st' \<and> weak_vroom n st' \<and> wvars st' p = stored E obj"
proof -
  let ?st0 = "initialize_class E True obj st"
  have st0: "weak_consistent E W ?st0" "weak_vroom (Suc (Suc n)) ?st0" using assms(1-3) by (auto simp: initialize_class_def env_ok_def)
  obtain st1 where st1: "weak_consistent E (W - {p}) st1" "weak_vroom (Suc n) st1" and old: "clean_up_old E (p \<in> W) p ?st0 = Some st1"
  proof (cases "p \<in> W")
    case True
    then show ?thesis using drop_old [OF st0 True] that by (auto simp: clean_up_old_def)
  next
    case False
    then have "W - {p} = W" by auto
    then show ?thesis using False st0(1) weak_vroom_mono [OF st0(2)] that [of ?st0] by (simp add: clean_up_old_def)
  qed
  obtain t where t: "weak_register_no_lock (info E obj) obj p (if crash then CrashIfDeallocating else ReturnNilIfDeallocating)
      (wtables st1 (stripe E obj)) = Some (stored E obj, t)"
    "weak_consistent E (insert p (W - {p})) ((set_wtable E obj t st1)\<lparr>wvars := (wvars st1)(p := stored E obj)\<rparr>)"
    "weak_vroom n ((set_wtable E obj t st1)\<lparr>wvars := (wvars st1)(p := stored E obj)\<rparr>)"
    using add_new [OF st1 _ assms(4,5,1)] by blast
  let ?st2 = "if taggedOrNil (info E (stored E obj)) then set_wtable E obj t st1 else setWeaklyReferenced (stored E obj) (set_wtable E obj t st1)"
  let ?st3 = "callSetWeaklyReferenced E (stored E obj) (?st2\<lparr>wvars := (wvars ?st2)(p := stored E obj)\<rparr>)"
  have "storeWeak E (p \<in> W) True crash p obj st = Some (stored E obj, ?st3)"
    by (simp add: storeWeak_def assert_opt_def old assign_new_def t(1))
  moreover have f: "wtables ?st3 = wtables ((set_wtable E obj t st1)\<lparr>wvars := (wvars st1)(p := stored E obj)\<rparr>)"
      "wvars ?st3 = wvars ((set_wtable E obj t st1)\<lparr>wvars := (wvars st1)(p := stored E obj)\<rparr>)"
    by (simp_all add: setWeaklyReferenced_def)
  ultimately show ?thesis using t(2,3) consistent_cong [OF f(1)] f(2) by simp
qed

lemma destroyWeak_ok:
  assumes "weak_consistent E W st" "weak_vroom (Suc n) st" "p \<in> W"
  shows "\<exists>st'. objc_destroyWeak E p st = Some st' \<and> weak_consistent E (W - {p}) st' \<and> weak_vroom n st' \<and> wvars st' = wvars st"
proof -
  obtain t where t: "weak_unregister_no_lock (wvars st p) p (wtables st (stripe E (wvars st p))) = Some t"
      "weak_consistent E (W - {p}) (set_wtable E (wvars st p) t st)" "weak_vroom n (set_wtable E (wvars st p) t st)"
    using drop_old [OF assms] by blast
  then show ?thesis 
    by (simp add: objc_destroyWeak_def storeWeak_def initialize_class_def clean_up_old_def assign_new_def assert_opt_def
        callSetWeaklyReferenced_def)
qed

lemma moveWeak_ok:
  assumes "weak_consistent E W st" "weak_vroom (Suc (Suc n)) st" "src \<in> W" "dst \<notin> W" "dst \<noteq> 0"
  shows "\<exists>st'. objc_moveWeak E dst src st = Some st' \<and> weak_consistent E (insert dst W) st' \<and> weak_vroom n st' \<and>
    wvars st' = (wvars st)(dst := wvars st src, src := 0)"
proof (cases "wvars st src = 0")
  case True
  then have "(wvars st)(dst := 0, src := 0) = (wvars st)(dst := 0)" using assms(3,4) by (auto simp: fun_eq_iff)
  then show ?thesis
    using consistent_nil [OF assms(1,5,4)] weak_vroom_mono [OF weak_vroom_mono [OF assms(2)]] True
    by (simp add: objc_moveWeak_def weak_vroom_def)
next
  case False
  let ?r = "wvars st src"
  have src: "src \<noteq> 0" "src \<noteq> dst" using assms(1,3,4) by (auto simp: weak_consistent_def)
  obtain t where t: "weak_unregister_no_lock ?r src (wtables st (stripe E ?r)) = Some t"
      "weak_consistent E (W - {src}) (set_wtable E ?r t st)" "weak_vroom (Suc n) (set_wtable E ?r t st)"
    using drop_old [OF assms(1-3)] by blast
  have over: "set_wtable E ?r u (set_wtable E ?r t st) = set_wtable E ?r u st" for u by (simp add: set_wtable_def)
  have tab: "wtables (set_wtable E ?r t st) (stripe E ?r) = t" by (simp add: set_wtable_def)
  have triv: "set_wtable E ?r t st = set_wtable E ?r t (set_wtable E ?r t st)" by (simp add: set_wtable_def)
  obtain t' where r: "weak_register_no_lock (info E ?r) ?r dst DontCheckDeallocating t = Some (?r, t')"
      "weak_consistent E (insert dst (W - {src})) ((set_wtable E ?r t' st)\<lparr>wvars := (wvars st)(dst := ?r)\<rparr>)"
      "weak_vroom n ((set_wtable E ?r t' st)\<lparr>wvars := (wvars st)(dst := ?r)\<rparr>)"
  proof (cases "taggedOrNil (info E ?r)")
    case True
    have "weak_consistent E (insert dst (W - {src})) ((set_wtable E ?r t st)\<lparr>wvars := (wvars st)(dst := ?r)\<rparr>)"
      using t(2) assms(4,5) True by (auto simp: weak_consistent_def holders_def set_wtable_def split: if_splits)
    then show ?thesis using that [of t] True weak_vroom_mono [OF t(3)] by (simp add: weak_register_no_lock_def weak_vroom_def)
  next
    case nt: False
    then show ?thesis
      using add_core [OF t(2,3) _ assms(5) nt False] assms(4) that unfolding tab over by (auto simp: weak_register_no_lock_def)
  qed
  let ?st = "(set_wtable E ?r t' st)\<lparr>wvars := (wvars st)(dst := ?r)\<rparr>"
  have "weak_consistent E (insert src (insert dst (W - {src}))) (?st\<lparr>wvars := (wvars ?st)(src := 0)\<rparr>)"
    using consistent_nil [OF r(2) src(1)] src(2) by simp
  moreover have "insert src (insert dst (W - {src})) = insert dst W" using assms(3) by auto
  moreover have "objc_moveWeak E dst src st = Some (?st\<lparr>wvars := (wvars ?st)(src := 0)\<rparr>)"
    using t(1) r(1) False by (simp add: objc_moveWeak_def Let_def)
  ultimately show ?thesis using r(3) by (simp add: weak_vroom_def)
qed

lemma clear_weak_ok:
  assumes "weak_consistent E W st" "weak_vroom (Suc n) st" "\<not> taggedOrNil (info E r)" "r \<noteq> 0"
  shows "\<exists>st'. clear_weak E r st = Some st' \<and> weak_consistent E W st' \<and> weak_vroom n st' \<and>
    (\<forall>p. wvars st' p = (if p \<in> W \<and> wvars st p = r then 0 else wvars st p))"
proof -
  have w: "weak_of (wtables st (stripe E r)) r = {p \<in> W. wvars st p = r}"
    using assms(1,3,4) by (simp add: weak_consistent_def holders_def)
  obtain vars t where c: "weak_clear_table r (wvars st) (wtables st (stripe E r)) = Some (vars, t)"
      "weak_of t = (weak_of (wtables st (stripe E r)))(r := {})" "weak_room n t"
      "\<forall>v. vars v = (if v \<in> weak_of (wtables st (stripe E r)) r \<and> wvars st v = r then 0 else wvars st v)"
    using clear_referent_ok [of n "wtables st (stripe E r)" r "wvars st"] assms(2,4) by (auto simp: weak_vroom_def)
  have v: "vars p = (if p \<in> W \<and> wvars st p = r then 0 else wvars st p)" for p using c(4) w by simp
  have "holders E W vars r = {}" using v assms(4) by (auto simp: holders_def)
  then have "weak_consistent E W ((set_wtable E r t st)\<lparr>wvars := vars\<rparr>)"
    using c(2) v assms(1,4) by (intro consistent_update [OF assms(1)]) (auto simp: holders_def weak_consistent_def)
  then show ?thesis
    using c(1) v weak_vroom_set [OF assms(2) c(3), of E r] by (simp add: clear_weak_def weak_vroom_def)
qed

section \<open>Programs\<close>

datatype var_op =
    Init_weak u64 u64 | Init_weak_or_nil u64 u64 | Store_weak u64 u64 | Store_weak_or_nil u64 u64
  | Destroy_weak u64 | Move_weak u64 u64 | Dealloc u64

fun var_step :: "weak_env \<Rightarrow> var_op \<Rightarrow> weak_state \<Rightarrow> weak_state option" where
  "var_step E (Init_weak p obj) st = map_option snd (objc_initWeak E p obj st)"
| "var_step E (Init_weak_or_nil p obj) st = map_option snd (objc_initWeakOrNil E p obj st)"
| "var_step E (Store_weak p obj) st = map_option snd (objc_storeWeak E p obj st)"
| "var_step E (Store_weak_or_nil p obj) st = map_option snd (objc_storeWeakOrNil E p obj st)"
| "var_step E (Destroy_weak p) st = objc_destroyWeak E p st"
| "var_step E (Move_weak dst src) st = objc_moveWeak E dst src st"
| "var_step E (Dealloc obj) st = clear_weak E obj st"

fun var_valid :: "weak_env \<Rightarrow> u64 set \<Rightarrow> var_op \<Rightarrow> bool" where
  "var_valid E W (Init_weak p obj) = (p \<noteq> 0 \<and> p \<notin> W \<and> \<not> fatal E True obj)"
| "var_valid E W (Init_weak_or_nil p obj) = (p \<noteq> 0 \<and> p \<notin> W)"
| "var_valid E W (Store_weak p obj) = (p \<in> W \<and> \<not> fatal E True obj)"
| "var_valid E W (Store_weak_or_nil p obj) = (p \<in> W)"
| "var_valid E W (Destroy_weak p) = (p \<in> W)"
| "var_valid E W (Move_weak dst src) = (src \<in> W \<and> dst \<notin> W \<and> dst \<noteq> 0)"
| "var_valid E W (Dealloc obj) = (\<not> taggedOrNil (info E obj) \<and> obj \<noteq> 0)"

fun var_used :: "var_op \<Rightarrow> u64 set \<Rightarrow> u64 set" where
  "var_used (Init_weak p obj) W = insert p W"
| "var_used (Init_weak_or_nil p obj) W = insert p W"
| "var_used (Destroy_weak p) W = W - {p}"
| "var_used (Move_weak dst src) W = insert dst W"
| "var_used a W = W"

fun valid_run :: "weak_env \<Rightarrow> u64 set \<Rightarrow> var_op list \<Rightarrow> bool" where
  "valid_run E W [] = True"
| "valid_run E W (a # as) = (var_valid E W a \<and> valid_run E (var_used a W) as)"

fun var_run :: "weak_env \<Rightarrow> var_op list \<Rightarrow> weak_state \<Rightarrow> weak_state option" where
  "var_run E [] st = Some st"
| "var_run E (a # as) st = do { st' \<leftarrow> var_step E a st; var_run E as st' }"

lemma var_step_ok:
  assumes "env_ok E" "weak_consistent E W st" "weak_vroom (Suc (Suc n)) st" "var_valid E W a"
  shows "\<exists>st'. var_step E a st = Some st' \<and> weak_consistent E (var_used a W) st' \<and> weak_vroom n st'"
proof -
  have vr: "weak_vroom (Suc n) st" "weak_vroom n st" using weak_vroom_mono assms(3) by blast+
  have nil: "weak_consistent E (insert p W) (st\<lparr>wvars := (wvars st)(p := 0)\<rparr>) \<and> weak_vroom n (st\<lparr>wvars := (wvars st)(p := 0)\<rparr>)"
    if "p \<noteq> 0" "p \<notin> W" for p
    using consistent_nil [OF assms(2) that] vr(2) by (simp add: weak_vroom_def)
  have in_W: "p \<noteq> 0 \<and> insert p W = W" if "p \<in> W" for p using that assms(2) by (auto simp: weak_consistent_def)
  have store: "\<exists>st'. storeWeak E (p \<in> W) True crash p obj st = Some (stored E obj, st') \<and>
      weak_consistent E (insert p W) st' \<and> weak_vroom n st'" if "p \<noteq> 0" "\<not> fatal E crash obj" for p crash obj
    using storeWeak_ok [OF assms(1-3) that] by blast
  have nf: "\<not> fatal E False obj" for obj by (simp add: fatal_def)
  show ?thesis
  proof (cases a)
    case (Init_weak p obj)
    then show ?thesis using store [of p True obj] nil [of p] assms(4) by (auto simp: objc_initWeak_def)
  next
    case (Init_weak_or_nil p obj)
    then show ?thesis using store [OF _ nf, of p obj] nil [of p] assms(4) by (auto simp: objc_initWeakOrNil_def)
  next
    case (Store_weak p obj)
    then show ?thesis using store [of p True obj] in_W [of p] assms(4) by (auto simp: objc_storeWeak_def)
  next
    case (Store_weak_or_nil p obj)
    then show ?thesis using store [OF _ nf, of p obj] in_W [of p] assms(4) by (auto simp: objc_storeWeakOrNil_def)
  next
    case (Destroy_weak p)
    then show ?thesis using destroyWeak_ok [OF assms(2) vr(1), of p] assms(4) by auto
  next
    case (Move_weak dst src)
    then show ?thesis using moveWeak_ok [OF assms(2,3), of src dst] assms(4) by auto
  next
    case (Dealloc obj)
    then show ?thesis using clear_weak_ok [OF assms(2) vr(1), of obj] assms(4) by auto
  qed
qed

lemma var_run_ok:
  assumes "env_ok E" "weak_consistent E W st" "weak_vroom (2 * length as + n) st" "valid_run E W as"
  shows "\<exists>st'. var_run E as st = Some st' \<and> weak_consistent E (fold var_used as W) st' \<and> weak_vroom n st'"
  using assms(2-)
proof (induction as arbitrary: W st)
  case (Cons a as)
  then have "weak_vroom (Suc (Suc (2 * length as + n))) st" "var_valid E W a" by simp_all
  then obtain st1 where "var_step E a st = Some st1" "weak_consistent E (var_used a W) st1" "weak_vroom (2 * length as + n) st1"
    using var_step_ok [OF assms(1) Cons.prems(1)] by blast
  then show ?case using Cons.IH [of "var_used a W" st1] Cons.prems(3) by simp
qed simp


definition plain_info :: "u64 \<Rightarrow> referent_info" where
  "plain_info obj = \<lparr>taggedOrNil = (obj = 0), customRR = False, deallocating_root = False, allowsWeakReference = None\<rparr>"

definition plain_env :: weak_env where
  "plain_env = \<lparr>stripe = (\<lambda>obj. unat obj mod 8), info = plain_info, class_of_obj = (\<lambda>obj. 1), isInitialized = (\<lambda>cls st. True),
     class_initialize = (\<lambda>cls obj st. st), object_isClass = (\<lambda>obj. False), implements_setWeaklyReferenced = (\<lambda>cls. False)\<rparr>"


end
