(* ===== verification/Spec2Isabelle.thy ===== *)
theory Spec2Isabelle
  imports Prelude TaggedPointers Isa SideTable Refcount Objects RawObjects MathExtras Utilities AutoreleaseReturn DenseMapInfo DenseMap DenseMapLaws
    DenseMapClass SmallDenseMap BlockLayout BlockHelpers BlockCopy WeakTable WeakVars
begin

text \<open>
  \<^bold>\<open>Verification of the Objective-C runtime.\<close>

  The repository collects the sources that a build of the Objective-C runtime needs: the
  runtime itself (\<^verbatim>\<open>objc4\<close>), the blocks runtime (\<^verbatim>\<open>libclosure\<close>) and the system libraries they
  include (\<^verbatim>\<open>Libc\<close>, \<^verbatim>\<open>libplatform\<close>, \<^verbatim>\<open>libpthread\<close>, \<^verbatim>\<open>libdispatch\<close>, \<^verbatim>\<open>dyld\<close>, \<^verbatim>\<open>xnu\<close>). This
  development models the life of an object in the runtime: how a pointer is recognised as a
  tagged value or an object, how the class and the reference count of an object are packed into
  its isa word and spill over into the side tables, what retain, release and a change of class
  do to them while other threads do the same, what happens to weak references at the end, and
  how ownership passes to a caller without the autorelease pool.

  \<^bold>\<open>Theories.\<close>

  \<^item> \<open>Prelude\<close>: machine words, C bit-fields as (position, width) with \<open>bf_get\<close> and \<open>bf_put\<close>, and
    the facts about bits that the components share.
  \<^item> \<open>TaggedPointers\<close> (\<^verbatim>\<open>objc-internal.h\<close>, \<^verbatim>\<open>objc-runtime-new.mm\<close>, \<^verbatim>\<open>objc-object.h\<close>): the three
    layouts of tagged pointers, the obfuscator and the tag permutation, encoding and decoding,
    the tables of classes and their registration. Decoding inverts encoding for every payload,
    \<open>getIsa\<close> finds the class that was registered, and registration rejects what it must.
  \<^item> \<open>Isa\<close> (\<^verbatim>\<open>isa.h\<close>, \<open>isa_t\<close> of \<^verbatim>\<open>objc-private.h\<close>): the packed isa words of arm64, of arm64e and the
    simulators, and of x86_64 as values of a record. The locale \<open>packed_isa\<close> derives the effect of the count
    arithmetic on every field from what a layout promises; it is interpreted at the three layouts.
  \<^item> \<open>SideTable\<close> (\<^verbatim>\<open>NSObject.mm\<close>, \<open>StripedMap\<close>): the state of the runtime and all operations on
    side tables, with their locks.
  \<^item> \<open>Refcount\<close> (\<open>rootRetain\<close>, \<open>rootRelease\<close> and their entry points in \<^verbatim>\<open>objc-object.h\<close>): the
    compare-and-swap loops run against a schedule of interference by other threads. The locale
    \<open>refcounting\<close> proves them once for every configuration with a well-formed layout and is
    interpreted on a device, a simulator and a Mac.
  \<^item> \<open>Objects\<close> (rest of \<^verbatim>\<open>objc-object.h\<close>): setting up the isa, \<open>changeIsa\<close>, the flags for
    associated objects and weak references, and deallocation. It extends the locale
    \<open>refcounting\<close>.
  \<^item> \<open>RawObjects\<close> (last branch of \<^verbatim>\<open>objc-object.h\<close>): the build without packed isas. The locale
    \<open>counter\<close> is the contract of reference counting, a number that reaches zero once; it is
    interpreted on this build.
  \<^item> \<open>MathExtras\<close> (\<^verbatim>\<open>llvm-MathExtras.h\<close>): the bit arithmetic of the hash tables, with the
    equivalence of portable fallbacks and compiler builtins.
  \<^item> \<open>Utilities\<close> (\<^verbatim>\<open>objc-private.h\<close>, \<^verbatim>\<open>objc-os.h\<close>, \<open>SafeRanges\<close> of \<^verbatim>\<open>objc-runtime.mm\<close>): address
    ranges with binary search, small vectors, chained hooks, disguised pointers, hashes and
    alignment, each related to the plain data it stands for.
  \<^item> \<open>DenseMapInfo\<close> (\<^verbatim>\<open>llvm-DenseMapInfo.h\<close>): the key types of the hash tables.
  \<^item> \<open>DenseMap\<close> (\<^verbatim>\<open>llvm-DenseMap.h\<close>): the open-addressing hash table, its iterator, and the
    instance for retain counts. Operations of the base class take those of the derived class
    in a record.
  \<^item> \<open>DenseMapLaws\<close>: quadratic probing visits every bucket of a table whose size is a power of
    two, so lookups end; the invariant of a table; rehashing; and the locale
    \<open>dense_map_impl\<close>, the contract of a derived class, from which the laws of insertion,
    assignment, erasure and clearing follow.
  \<^item> \<open>DenseMapClass\<close>, \<open>SmallDenseMap\<close>: both derived classes meet the contract and refine a map,
    and swapping small maps exchanges their entries. The tables are bounded to \<open>2^29\<close> buckets,
    where the products of the load factor test still fit 32 bits.
  \<^item> \<open>AutoreleaseReturn\<close> (\<^verbatim>\<open>objc-object.h\<close> from line 1313, entry points of \<^verbatim>\<open>NSObject.mm\<close>): the
    hand-over of returned objects through thread local storage.
  \<^item> \<open>BlockLayout\<close> (\<^verbatim>\<open>libclosure\<close>): the flags of a block with its latching count, run against the
    stores of other threads, and the large and small descriptors. The count is another
    interpretation of the locale \<open>counter\<close>.
  \<^item> \<open>BlockHelpers\<close> (\<^verbatim>\<open>runtime.cpp\<close>, \<^verbatim>\<open>generic_helpers.c\<close> of \<^verbatim>\<open>libclosure\<close>): the generic copy and
    dispose helpers, over the four encodings of the captures of a block. A copy that an
    exception cuts short is undone exactly, and a disposal that throws goes on with the
    captures that are left. A walk has fuel, one unit for each entry of the encoding and one
    for its end: five and four units are enough for the two inline encodings, and an
    encoding in memory needs its length.
  \<^item> \<open>BlockCopy\<close> (\<^verbatim>\<open>runtime.cpp\<close>): copying and releasing whole blocks and \<^verbatim>\<open>__block\<close> variables on a memory of
    bytes, and what the helpers call for a capture. A shared variable moves to the heap once and
    is freed by its last release; a block copied from the stack keeps its contents and is freed by the
    release that pairs with the copy. Blocks captured by blocks are followed to a given depth.
  \<^item> \<open>WeakTable\<close> (\<^verbatim>\<open>objc-weak.h\<close>, \<^verbatim>\<open>objc-weak.mm\<close>): the table of weak references with its entries inline
    and out of line. The locale \<open>weak_registry\<close> is the contract of such a table, a map from
    objects to sets of variables, and is interpreted on it. Clearing an object agrees with the
    map in \<open>SideTable\<close>. Tables hold fewer than \<open>2^60\<close> entries, so that the products of the load factor
    test fit; appending a referrer and growing call each other to a depth of two.
  \<^item> \<open>WeakVars\<close> (\<open>storeWeak\<close> and its entry points in \<^verbatim>\<open>NSObject.mm\<close>): weak variables on top of the tables.
    A variable is registered for an object just when it refers to it, so that no weak variable
    outlives its object.

  \<^bold>\<open>How the model is set up.\<close> An operation of the runtime is a function on an explicit state.
  The result \<open>None\<close> means that the code does not return normally: an \<open>ASSERT\<close> fails,
  \<open>_objc_fatal\<close> is called, or a lock is taken twice or released while free. Preprocessor
  configurations are values (\<open>isa_layout\<close>, \<open>tag_layout\<close>, \<open>objc_cfg\<close>) that the operations take as
  arguments. Messages the runtime sends and memory it frees are recorded in order. What other
  threads do is data: a schedule says at each load or conditional store whether another thread
  wrote the isa word, and the side table entry if the lock is free, just before. The ghost field
  \<open>others_delta\<close> adds up their effect on the count, so that the theorems say exactly what the
  operation itself contributed. Loops end because every failed conditional store uses up an
  element of the schedule, so no fuel is needed there. Fuel is only used in \<open>BlockHelpers\<close>,
  \<open>BlockCopy\<close> and \<open>WeakTable\<close>, and all functions are total.

  The count of a packed object is its inline count plus a quarter of its side table entry. The
  invariant \<open>object_ok\<close> with a bound B says that the entry exists exactly if
  \<open>has_sidetable_rc\<close> is set and is then a positive multiple of four times \<open>RC_HALF\<close>, below B.
  The theorems take \<open>2^62\<close> for B, far above any count that memory allows, so that the pinned bit is never reached.

  \<^bold>\<open>Not modelled.\<close> Pointer authentication of isa words, which is the identity on the layouts
  here, and the indexed isas of 32-bit watches. Message dispatch, method caches and class
  realization (\<^verbatim>\<open>objc-runtime-new.mm\<close>), image loading and locks, which are assembly, calls into
  the loader, or allocation. The weak table is a map from objects to their weak variables
  and the retain counts of a side table are a map: \<open>DenseMapClass\<close> shows that the table of
  counts behaves like one up to zero counts, which it may drop, and \<open>WeakTable\<close> that the weak
  table does. The destructors of keys and values in hash tables are not modelled, nor are loading and
  copying a weak variable. The pages of the autorelease pool are a list. The
  installation of the callbacks of \<^verbatim>\<open>libclosure\<close>, which are a parameter of \<open>BlockCopy\<close>, the
  lists of methods and properties (\<open>entsize_list_tt\<close>, \<open>list_array_tt\<close>), and the system
  libraries, are not modelled.
\<close>

end
